(* ===== verification/Prelude.thy ===== *)
theory Prelude
  imports Main "HOL-Library.Word" "HOL-Library.Monad_Syntax"
begin

text \<open>
  Shared vocabulary of the development: machine integers of the target (x86-64, LP64), the byte
  memory the string routines work on, the ``first free slot'' loop that every fixed table of the
  kernel is searched with, and the arithmetic of page-aligned addresses.

  Conventions. A C pointer is its 64-bit address (\<open>u64\<close>) and NULL is \<open>0\<close>. A signed C integer that
  cannot overflow in the code is an \<open>int\<close>. A function of the kernel that may fail to return
  (it runs into \<open>KPANIC\<close>, dereferences NULL, divides by zero or loops for ever) has an \<open>option\<close>
  result, and \<open>None\<close> is ``does not return''; error codes of the source are returned as values.
\<close>

unbundle bit_operations_syntax

section \<open>Machine integers\<close>

type_synonym u8 = "8 word"
type_synonym u16 = "16 word"
type_synonym u32 = "32 word"
type_synonym u64 = "64 word"

type_synonym mem = "u64 \<Rightarrow> u8"  \<comment> \<open>byte-addressed memory\<close>

text \<open>\<open>ARCH_PAGE_SIZE\<close> of \<^verbatim>\<open>arch/x64/memory.h\<close>.\<close>

definition ARCH_PAGE_SIZE :: u64 where
  "ARCH_PAGE_SIZE = 4096"

text \<open>
  The shift of a 32-bit C value, as the target executes it: the \<^verbatim>\<open>shl\<close> instruction takes the
  count modulo 32.
\<close>

definition shl32 :: "u32 \<Rightarrow> nat \<Rightarrow> u32" where
  "shl32 x k = push_bit (k mod 32) x"

section \<open>The loop that looks for a free slot\<close>

text \<open>
  \<^verbatim>\<open>for (i = 0; i < N; i++) if (free(arr[i])) return i; return -1;\<close> starting at index \<open>i\<close>, over
  the rest of the table.
\<close>

primrec scan_from :: "('a \<Rightarrow> bool) \<Rightarrow> nat \<Rightarrow> 'a list \<Rightarrow> int" where
  "scan_from P i [] = -1"
| "scan_from P i (x # xs) = (if P x then int i else scan_from P (Suc i) xs)"

text \<open>
  A pointer into one of the kernel's fixed arrays is the index of its element (\<open>None\<close> is NULL); an
  access outside of the array does not return.
\<close>

definition nth_opt :: "'a list \<Rightarrow> nat \<Rightarrow> 'a option" where
  "nth_opt xs i = (if i < length xs then Some (xs ! i) else None)"

definition nth_int :: "'a list \<Rightarrow> int \<Rightarrow> 'a option" where
  "nth_int xs i = (if 0 \<le> i then nth_opt xs (nat i) else None)"

definition deref :: "'a list \<Rightarrow> nat option \<Rightarrow> 'a option" where
  "deref xs p = Option.bind p (nth_opt xs)"

section \<open>Collections of facts\<close>

named_theorems dll_intros  \<comment> \<open>introduction rules of linked lists after an update\<close>
named_theorems page_simps  \<comment> \<open>arithmetic of page-aligned addresses\<close>

text \<open>Evaluation of a sequence of fallible steps from the left: the continuation is left alone.\<close>

lemma bind_weak_cong: "x = y \<Longrightarrow> Option.bind x f = Option.bind y f"
  by simp

section \<open>Array accesses\<close>

lemma nth_opt_Some: "nth_opt xs i = Some x \<longleftrightarrow> i < length xs \<and> x = xs ! i"
  by (auto simp: nth_opt_def)

lemma nth_int_Some: "nth_int xs i = Some x \<longleftrightarrow> 0 \<le> i \<and> nat i < length xs \<and> x = xs ! nat i"
  by (auto simp: nth_int_def nth_opt_def)

lemma deref_Some: "deref xs p = Some x \<longleftrightarrow> (\<exists>i. p = Some i \<and> i < length xs \<and> x = xs ! i)"
  by (auto simp: deref_def bind_eq_Some_conv nth_opt_Some)

lemma deref_simps [simp]: "deref xs None = None" "deref xs (Some i) = nth_opt xs i"
  by (simp_all add: deref_def)

section \<open>Facts about the slot loop\<close>

lemma scan_from_Some:
  "scan_from P i xs = r \<Longrightarrow> r \<noteq> -1 \<Longrightarrow>
    int i \<le> r \<and> r < int (i + length xs) \<and> P (xs ! nat (r - int i)) \<and>
    (\<forall>j < nat (r - int i). \<not> P (xs ! j))"
proof (induction xs arbitrary: i r)
  case Nil
  then show ?case by simp
next
  case (Cons x xs)
  show ?case
  proof (cases "P x")
    case True
    with Cons.prems show ?thesis by simp
  next
    case False
    with Cons.prems have "scan_from P (Suc i) xs = r" by simp
    from Cons.IH [OF this Cons.prems(2)]
    have IH: "int (Suc i) \<le> r" "r < int (Suc i + length xs)" "P (xs ! nat (r - int (Suc i)))"
      "\<forall>j < nat (r - int (Suc i)). \<not> P (xs ! j)" by auto
    have n: "nat (r - int i) = Suc (nat (r - int (Suc i)))" using IH(1) by linarith
    show ?thesis using IH False unfolding n by (auto simp: less_Suc_eq_0_disj)
  qed
qed

lemma scan_from_None: "scan_from P i xs = -1 \<longleftrightarrow> (\<forall>x \<in> set xs. \<not> P x)"
  by (induction xs arbitrary: i) auto

text \<open>
  The contract of every table lookup of this kind: \<open>find\<close> is the loop over \<open>free\<close> from index 0.
\<close>

locale slot_table =
  fixes free :: "'a \<Rightarrow> bool"
    and find :: "'a list \<Rightarrow> int"
  assumes find_scan: "find xs = scan_from free 0 xs"
begin

lemma find_in_range: "find xs \<noteq> -1 \<Longrightarrow> 0 \<le> find xs \<and> nat (find xs) < length xs"
  using scan_from_Some [of free 0 xs "find xs"] by (simp add: find_scan) linarith

lemma find_is_free: "find xs \<noteq> -1 \<Longrightarrow> free (xs ! nat (find xs))"
  using scan_from_Some [of free 0 xs "find xs"] by (simp add: find_scan)

lemma find_first: "find xs \<noteq> -1 \<Longrightarrow> j < nat (find xs) \<Longrightarrow> \<not> free (xs ! j)"
  using scan_from_Some [of free 0 xs "find xs"] by (simp add: find_scan)

lemma find_none_iff: "find xs = -1 \<longleftrightarrow> (\<forall>x \<in> set xs. \<not> free x)"
  by (simp add: find_scan scan_from_None)

lemma find_neg_iff: "find xs < 0 \<longleftrightarrow> find xs = -1"
  using find_in_range by force

text \<open>Writing a used value into the slot found takes exactly one slot away.\<close>

lemma fill_count:
  assumes "find xs \<noteq> -1" and "\<not> free v"
  shows "length (filter free xs) = Suc (length (filter free (xs[nat (find xs) := v])))"
proof -
  let ?i = "nat (find xs)"
  have i: "?i < length xs" and fr: "free (xs ! ?i)"
    using assms find_in_range find_is_free by auto
  have "filter free xs = filter free (take ?i xs @ xs ! ?i # drop (Suc ?i) xs)"
    using i by (simp add: id_take_nth_drop [symmetric])
  moreover have "filter free (xs[?i := v]) = filter free (take ?i xs @ v # drop (Suc ?i) xs)"
    using i by (simp add: upd_conv_take_nth_drop)
  ultimately show ?thesis using assms(2) fr by simp
qed

end

section \<open>Page-aligned addresses\<close>

definition page_aligned :: "u64 \<Rightarrow> bool" where
  "page_aligned p \<longleftrightarrow> 4096 dvd unat p"

lemma dvd_unat_plus [page_simps]: "4096 dvd unat (p + q :: u64) \<longleftrightarrow> 4096 dvd (unat p + unat q)"
proof -
  have "(4096::nat) dvd 2 ^ 64" by simp
  then show ?thesis by (simp add: unat_word_ariths dvd_mod_iff)
qed

lemma page_aligned_plus: "page_aligned p \<Longrightarrow> page_aligned q \<Longrightarrow> page_aligned (p + q)"
  by (simp add: page_aligned_def dvd_unat_plus)

lemma page_aligned_0 [simp]: "page_aligned 0"
  by (simp add: page_aligned_def)

lemma page_aligned_4096 [simp]: "page_aligned 4096"
  by (simp add: page_aligned_def)

lemma page_aligned_offset_neq:
  assumes "page_aligned p" and "page_aligned q" and "\<not> 4096 dvd unat k"
  shows "p \<noteq> q + k"
proof
  assume "p = q + k"
  with assms(1) have "4096 dvd unat q + unat k" by (simp add: page_aligned_def dvd_unat_plus)
  with assms(2,3) show False by (simp add: page_aligned_def dvd_add_right_iff)
qed

lemma page_aligned_neq_8 [page_simps]: "page_aligned p \<Longrightarrow> page_aligned q \<Longrightarrow> p \<noteq> q + 8"
  by (rule page_aligned_offset_neq) auto

lemma page_aligned_next:
  assumes "page_aligned x" and "page_aligned y" and "unat x < unat y" and "unat y \<le> unat x + 4096"
  shows "unat y = unat x + 4096"
proof -
  have "4096 dvd unat y - unat x" using assms(1,2) by (simp add: page_aligned_def)
  then have "4096 \<le> unat y - unat x" using assms(3) by (simp add: dvd_imp_le)
  with assms(3,4) show ?thesis by simp
qed

lemma unat_next_page:
  assumes "page_aligned x" and "x + 4096 \<noteq> 0"
  shows "unat (x + 4096) = unat x + 4096"
proof -
  have lt: "unat x < 2 ^ 64" using unsigned_less [of x] by simp
  have "4096 dvd (2 ^ 64 :: nat) - unat x"
    using assms(1) by (intro dvd_diff_nat) (simp_all add: page_aligned_def)
  then have le: "unat x + 4096 \<le> 2 ^ 64" using lt dvd_imp_le [of 4096 "2 ^ 64 - unat x"] by linarith
  have u: "unat (x + 4096) = (unat x + 4096) mod 2 ^ 64" by (simp add: unat_word_ariths)
  then have "unat x + 4096 \<noteq> 2 ^ 64" using assms(2) by (metis mod_self unat_eq_zero)
  with le u show ?thesis by simp
qed

section \<open>Narrowing\<close>

lemma ucast32_word_of_int: "(ucast (word_of_int k :: u64) :: u32) = word_of_int k"
  by transfer (simp add: min_def)

lemma sint32_word_of_int:
  "- (2 ^ 31) \<le> k \<Longrightarrow> k < 2 ^ 31 \<Longrightarrow> sint (word_of_int k :: u32) = k"
  by (simp add: signed_of_int signed_take_bit_int_eq_self)

lemma int_unat: "int (unat w) = uint w"
  by simp

end
