(* ===== verification/DList.thy ===== *)
theory DList
  imports Prelude
begin

text \<open>
  Doubly linked lists in a heap, as the page-frame pool, the free lists of the buddy allocator and
  the children of a directory node use them. The heap is seen through its two link fields, a
  function \<open>n\<close> for \<^verbatim>\<open>->next\<close> and a function \<open>v\<close> for \<^verbatim>\<open>->prev\<close>; \<open>0\<close> is NULL. \<open>dll n v p xs\<close>: from
  head pointer \<open>p\<close> the nodes are \<open>xs\<close> in order, every \<^verbatim>\<open>->prev\<close> being the node before.
\<close>

primrec dseg :: "('a::zero \<Rightarrow> 'a) \<Rightarrow> ('a \<Rightarrow> 'a) \<Rightarrow> 'a \<Rightarrow> 'a \<Rightarrow> 'a list \<Rightarrow> 'a \<Rightarrow> bool" where
  "dseg n v b p [] q \<longleftrightarrow> p = q"
| "dseg n v b p (x # xs) q \<longleftrightarrow> p = x \<and> x \<noteq> 0 \<and> v x = b \<and> dseg n v x (n x) xs q"

definition dll :: "('a::zero \<Rightarrow> 'a) \<Rightarrow> ('a \<Rightarrow> 'a) \<Rightarrow> 'a \<Rightarrow> 'a list \<Rightarrow> bool" where
  "dll n v p xs \<longleftrightarrow> dseg n v 0 p xs 0"

text \<open>Unlinking a node, and linking a node in front of the list, on the two link fields.\<close>

definition unlink_next :: "('a::zero \<Rightarrow> 'a) \<Rightarrow> ('a \<Rightarrow> 'a) \<Rightarrow> 'a \<Rightarrow> 'a \<Rightarrow> 'a" where
  "unlink_next n v x = (if v x \<noteq> 0 then n(v x := n x) else n)"

definition unlink_prev :: "('a::zero \<Rightarrow> 'a) \<Rightarrow> ('a \<Rightarrow> 'a) \<Rightarrow> 'a \<Rightarrow> 'a \<Rightarrow> 'a" where
  "unlink_prev n v x = (if n x \<noteq> 0 then v(n x := v x) else v)"

section \<open>Segments\<close>

lemma dseg_append:
  "dseg n v b p (xs @ ys) q \<longleftrightarrow>
    (\<exists>r. dseg n v b p xs r \<and> dseg n v (last (b # xs)) r ys q)"
  by (induction xs arbitrary: b p) auto

lemma dseg_cong:
  "\<forall>x \<in> set xs. n x = n' x \<and> v x = v' x \<Longrightarrow> dseg n v b p xs q = dseg n' v' b p xs q"
  by (induction xs arbitrary: b p) auto

lemma dseg_zero_notin: "dseg n v b p xs q \<Longrightarrow> 0 \<notin> set xs"
  by (induction xs arbitrary: b p) auto

lemma dseg_unique: "dseg n v b p xs 0 \<Longrightarrow> dseg n v' b' p ys 0 \<Longrightarrow> xs = ys"
proof (induction xs arbitrary: b b' p ys)
  case Nil
  then show ?case by (cases ys) auto
next
  case (Cons x xs)
  then show ?case by (cases ys) auto
qed

lemma dseg_notin_tail: "dseg n v b x (x # xs) 0 \<Longrightarrow> x \<notin> set xs"
proof
  assume d: "dseg n v b x (x # xs) 0" and "x \<in> set xs"
  then obtain as bs where xs: "xs = as @ x # bs" by (meson split_list)
  from d have "dseg n v b x ((x # as) @ x # bs) 0" by (simp only: xs append_Cons)
  then obtain r where "dseg n v (last (b # x # as)) r (x # bs) 0"
    unfolding dseg_append by blast
  then have "dseg n v (last (b # x # as)) x (x # bs) 0" by simp
  from dseg_unique [OF d this] show False using xs by simp
qed

lemma dseg_distinct: "dseg n v b p xs 0 \<Longrightarrow> distinct xs"
proof (induction xs arbitrary: b p)
  case Nil
  then show ?case by simp
next
  case (Cons x xs)
  then have "dseg n v b x (x # xs) 0" by simp
  with Cons show ?case using dseg_notin_tail by (metis distinct.simps(2) dseg.simps(2))
qed

section \<open>Whole lists\<close>

lemma dll_Nil [simp]: "dll n v p [] \<longleftrightarrow> p = 0"
  by (simp add: dll_def)

lemma dll_Cons:
  "dll n v p (x # xs) \<longleftrightarrow> p = x \<and> x \<noteq> 0 \<and> v x = 0 \<and> dseg n v x (n x) xs 0"
  by (simp add: dll_def)

lemma dll_0 [simp]: "dll n v 0 xs \<longleftrightarrow> xs = []"
  by (cases xs) (auto simp: dll_Cons)

lemma dll_distinct: "dll n v p xs \<Longrightarrow> distinct xs"
  by (simp add: dll_def dseg_distinct)

lemma dll_zero_notin: "dll n v p xs \<Longrightarrow> 0 \<notin> set xs"
  by (simp add: dll_def dseg_zero_notin)

lemma dll_unique: "dll n v p xs \<Longrightarrow> dll n v' p ys \<Longrightarrow> xs = ys"
  by (auto simp: dll_def intro: dseg_unique)

lemma dll_cong:
  "\<forall>x \<in> set xs. n x = n' x \<and> v x = v' x \<Longrightarrow> dll n v p xs = dll n' v' p xs"
  by (simp add: dll_def dseg_cong)

lemma dll_hd: "dll n v p xs \<Longrightarrow> p \<noteq> 0 \<Longrightarrow> \<exists>ys. xs = p # ys"
  by (cases xs) (auto simp: dll_Cons)

lemma dll_head_prev: "dll n v p xs \<Longrightarrow> p \<noteq> 0 \<Longrightarrow> v p = 0"
  by (cases xs) (auto simp: dll_Cons)

text \<open>The links around a node in the middle of a list.\<close>

lemma dll_middle:
  assumes "dll n v p (as @ x # bs)"
  shows "v x = last (0 # as)" and "n x = hd (bs @ [0])" and "x \<noteq> 0"
    and "p = hd (as @ [x])"
proof -
  from assms obtain r where l: "dseg n v 0 p as r" and r: "dseg n v (last (0 # as)) r (x # bs) 0"
    unfolding dll_def dseg_append by blast
  from r show "v x = last (0 # as)" and "x \<noteq> 0" by auto
  from r show "n x = hd (bs @ [0])" by (cases bs) auto
  from l r show "p = hd (as @ [x])" by (cases as) auto
qed

lemma dseg_upd_next: "x \<notin> set xs \<Longrightarrow> dseg (n(x := y)) v b p xs q = dseg n v b p xs q"
  by (rule dseg_cong) auto

lemma dseg_upd_prev: "x \<notin> set xs \<Longrightarrow> dseg n (v(x := y)) b p xs q = dseg n v b p xs q"
  by (rule dseg_cong) auto

lemma dll_upd_next [dll_intros]: "x \<notin> set xs \<Longrightarrow> dll n v p xs \<Longrightarrow> dll (n(x := y)) v p xs"
  by (simp add: dll_def dseg_upd_next)

lemma dll_upd_prev [dll_intros]: "x \<notin> set xs \<Longrightarrow> dll n v p xs \<Longrightarrow> dll n (v(x := y)) p xs"
  by (simp add: dll_def dseg_upd_prev)

text \<open>A segment that ends before a node can be made to end somewhere else.\<close>

lemma dseg_retarget:
  "dseg n v b p (as @ [a]) q \<Longrightarrow> distinct (as @ [a]) \<Longrightarrow>
    dseg (n(a := r)) v b p (as @ [a]) r"
  by (auto simp: dseg_append dseg_upd_next)

lemma dseg_reprev:
  "dseg n v b p (x # xs) q \<Longrightarrow> x \<notin> set xs \<Longrightarrow> dseg n (v(x := b')) b' p (x # xs) q"
  by (auto simp: dseg_upd_prev)

section \<open>Updates\<close>

text \<open>Cutting a whole run of nodes out of a list; \<open>h\<close> and \<open>l\<close> are its first and last node.\<close>

lemma dll_cut [dll_intros]:
  assumes d: "dll n v p (as @ ms @ bs)" and ms: "ms \<noteq> []" and h: "h = hd ms" and l: "l = last ms"
  shows "dll (if v h \<noteq> 0 then n(v h := n l) else n) (if n l \<noteq> 0 then v(n l := v h) else v)
    (if v h = 0 then n l else p) (as @ bs)"
proof -
  let ?n = "if v h \<noteq> 0 then n(v h := n l) else n"
  let ?v = "if n l \<noteq> 0 then v(n l := v h) else v"
  have "as @ ms @ bs = as @ h # tl ms @ bs" using ms h by simp
  with d have d1: "dll n v p (as @ h # tl ms @ bs)" by (simp only:)
  have "as @ ms @ bs = (as @ butlast ms) @ l # bs"
    using ms l by (metis append_assoc append_Cons append_Nil append_butlast_last_id)
  with d have d2: "dll n v p ((as @ butlast ms) @ l # bs)" by (simp only:)
  have vh: "v h = last (0 # as)" and ph: "p = hd (as @ [h])" using dll_middle [OF d1] by auto
  have nl: "n l = hd (bs @ [0])" using dll_middle [OF d2] by auto
  have dist: "distinct (as @ ms @ bs)" and nz: "0 \<notin> set (as @ ms @ bs)"
    using dll_distinct [OF d] dll_zero_notin [OF d] by blast+
  from d1 obtain r where L: "dseg n v 0 p as r" and "dseg n v (last (0 # as)) r (h # tl ms @ bs) 0"
    unfolding dll_def dseg_append by blast
  then have L: "dseg n v 0 p as h" by simp
  from d2 obtain r' where "dseg n v (last (0 # as @ butlast ms)) r' (l # bs) 0"
    unfolding dll_def dseg_append by blast
  then have R: "dseg n v l (n l) bs 0" by simp
  have R': "dseg ?n ?v (last (0 # as)) (n l) bs 0"
  proof (cases bs)
    case Nil
    with R show ?thesis by simp
  next
    case (Cons y ys)
    from R Cons have "n l = y" "y \<noteq> 0" "dseg n v y (n y) ys 0" by auto
    moreover have "v h \<notin> set bs" using dist nz vh by (cases as rule: rev_cases) auto
    ultimately show ?thesis using Cons vh dist
      by (auto simp: dseg_upd_next dseg_upd_prev)
  qed
  show ?thesis
  proof (cases as rule: rev_cases)
    case Nil
    with vh R' show ?thesis by (simp add: dll_def)
  next
    case (snoc as' a)
    have va: "v h = a" "a \<noteq> 0" using vh nz snoc by auto
    have "n l \<notin> set as" using nl dist nz by (cases bs) auto
    then have "dseg n ?v 0 p as h" using L by (simp add: dseg_upd_prev)
    then have "dseg ?n ?v 0 p as (n l)"
      using dist va unfolding snoc by (simp add: dseg_retarget)
    with R' va show ?thesis unfolding dll_def dseg_append by auto
  qed
qed

lemma dll_unlink [dll_intros]:
  assumes "dll n v p (as @ x # bs)"
  shows "dll (unlink_next n v x) (unlink_prev n v x) (if v x = 0 then n x else p) (as @ bs)"
  using dll_cut [of n v p as "[x]" bs x x] assms by (simp add: unlink_next_def unlink_prev_def)

lemma dll_push [dll_intros]:
  assumes d: "dll n v p xs" and x: "x \<notin> set xs" "x \<noteq> 0"
  shows "dll (n(x := p)) (if p \<noteq> 0 then (v(x := 0))(p := x) else v(x := 0)) x (x # xs)"
proof (cases xs)
  case Nil
  with d x show ?thesis by (simp add: dll_Cons)
next
  case (Cons y ys)
  with d x have p: "p = y" "y \<noteq> 0" "dseg n v y (n y) ys 0" by (auto simp: dll_Cons)
  have "y \<notin> set ys" using d Cons dll_distinct by fastforce
  with p x Cons show ?thesis by (auto simp: dll_Cons dseg_upd_next dseg_upd_prev)
qed

text \<open>Linking a node between two halves of a list, or at its end.\<close>

lemma dll_link_between [dll_intros]:
  assumes d: "dll n v p (as @ [a] @ bs)" and x: "x \<notin> set (as @ [a] @ bs)" "x \<noteq> 0"
    and q: "q = hd (bs @ [0])"
  shows "dll (n(x := q, a := x)) (if q \<noteq> 0 then v(q := x, x := a) else v(x := a)) p
    (as @ [a, x] @ bs)"
proof -
  let ?n = "n(x := q, a := x)" and ?v = "if q \<noteq> 0 then v(q := x, x := a) else v(x := a)"
  have dist: "distinct (as @ [a] @ bs)" and nz: "0 \<notin> set (as @ [a] @ bs)"
    using d dll_distinct dll_zero_notin by blast+
  from d obtain r where l: "dseg n v 0 p (as @ [a]) r" and rr: "dseg n v a r bs 0"
    unfolding dll_def append_assoc [symmetric] dseg_append by auto
  have qa: "q \<notin> set (as @ [a])" using dist nz q by (cases bs) auto
  have L: "dseg ?n ?v 0 p (as @ [a]) x"
  proof -
    have "dseg (n(x := q)) ?v 0 p (as @ [a]) r"
      using l x qa by (subst dseg_cong [of _ _ n _ v]) auto
    then show ?thesis using dist x by (intro dseg_retarget) auto
  qed
  have R: "dseg ?n ?v x q bs 0"
  proof (cases bs)
    case Nil
    with q show ?thesis by simp
  next
    case (Cons y ys)
    with rr q have y: "q = y" "y \<noteq> 0" "dseg n v y (n y) ys 0" by auto
    have "dseg ?n ?v y (n y) ys 0" using y(3) dist x Cons y(1)
      by (subst dseg_cong [of _ _ n _ v]) auto
    with Cons y dist x show ?thesis by auto
  qed
  have "?v x = a" using q x nz by (cases bs) auto
  moreover have "?n x = q" using x by simp
  ultimately have "dseg ?n ?v a x (x # bs) 0" using R x by simp
  then have "dseg ?n ?v (last (0 # as @ [a])) x (x # bs) 0" by simp
  with L have "dseg ?n ?v 0 p ((as @ [a]) @ x # bs) 0" unfolding dseg_append by blast
  then show ?thesis by (simp add: dll_def)
qed

end
