(* ===== verification/Frames.thy ===== *)
theory Frames
  imports DList "HOL-Library.Sublist" "HOL-Library.Multiset"
begin

text \<open>
  The page-frame pool of \<^verbatim>\<open>arch/x64/memory/phys.c\<close>. Free frames form a doubly linked list, ordered by
  ascending address, whose link fields live in the first 16 bytes of the frames themselves
  (\<^verbatim>\<open>struct frame_marker\<close>). The memory is therefore part of the state: \<open>pmem\<close> maps the address of an
  8-byte word to its value, the marker of frame \<open>p\<close> has its \<^verbatim>\<open>next\<close> at \<open>p\<close> and its \<^verbatim>\<open>prev\<close> at
  \<open>p + 8\<close>. \<open>KPANIC\<close> and an endless walk are \<open>None\<close>.
\<close>

section \<open>Model\<close>

record pmm =
  frame_list :: u64
  free_frames :: u64
  pmem :: "u64 \<Rightarrow> u64"

definition fm_next :: "pmm \<Rightarrow> u64 \<Rightarrow> u64" where
  "fm_next s p = pmem s p"

definition fm_prev :: "pmm \<Rightarrow> u64 \<Rightarrow> u64" where
  "fm_prev s p = pmem s (p + 8)"

definition set_fm_next :: "u64 \<Rightarrow> u64 \<Rightarrow> pmm \<Rightarrow> pmm" where
  "set_fm_next p x s = s\<lparr>pmem := (pmem s)(p := x)\<rparr>"

definition set_fm_prev :: "u64 \<Rightarrow> u64 \<Rightarrow> pmm \<Rightarrow> pmm" where
  "set_fm_prev p x s = s\<lparr>pmem := (pmem s)(p + 8 := x)\<rparr>"

text \<open>The loop of \<open>frame_insert\<close>; leaving it with \<open>cur = NULL\<close> is the \<open>KPANIC\<close> at its end.\<close>

partial_function (option) frame_insert_loop :: "u64 \<Rightarrow> u64 \<Rightarrow> u64 \<Rightarrow> pmm \<Rightarrow> pmm option" where
  "frame_insert_loop to_ins prev cur s =
    (if cur = 0 then None
     else if to_ins < cur then
       (let s1 = set_fm_prev cur to_ins (set_fm_next to_ins cur s);
            s2 = (if prev \<noteq> 0 then set_fm_next prev to_ins (set_fm_prev to_ins prev s1)
                  else (set_fm_prev to_ins 0 s1)\<lparr>frame_list := to_ins\<rparr>)
        in Some (s2\<lparr>free_frames := free_frames s2 + 1\<rparr>))
     else if fm_next s cur = 0 then
       (let s1 = set_fm_prev to_ins cur (set_fm_next to_ins 0 (set_fm_next cur to_ins s))
        in Some (s1\<lparr>free_frames := free_frames s1 + 1\<rparr>))
     else frame_insert_loop to_ins cur (fm_next s cur) s)"

definition frame_insert :: "u64 \<Rightarrow> pmm \<Rightarrow> pmm option" where
  "frame_insert to_ins s =
    (if frame_list s = 0 then
       (let s1 = (set_fm_prev to_ins 0 (set_fm_next to_ins 0 s))\<lparr>frame_list := to_ins\<rparr>
        in Some (s1\<lparr>free_frames := free_frames s1 + 1\<rparr>))
     else frame_insert_loop to_ins 0 (frame_list s) s)"

definition pfalloc_one :: "pmm \<Rightarrow> u64 \<times> pmm" where
  "pfalloc_one s =
    (if frame_list s = 0 then (0, s)
     else
       (let ret = frame_list s;
            s1 = (if fm_next s ret \<noteq> 0 then set_fm_prev (fm_next s ret) 0 s else s);
            s2 = s1\<lparr>frame_list := fm_next s1 ret\<rparr>
        in (ret, s2\<lparr>free_frames := free_frames s2 - 1\<rparr>)))"

text \<open>
  The search of \<open>pfalloc_consecutive\<close>: the values of \<open>set_start\<close>, \<open>cur\<close> and \<open>so_far\<close> when the loop
  ends. \<open>so_far\<close> is an \<^verbatim>\<open>unsigned int\<close>.
\<close>

partial_function (option) consecutive_loop ::
    "u32 \<Rightarrow> pmm \<Rightarrow> u64 \<Rightarrow> u64 \<Rightarrow> u32 \<Rightarrow> (u64 \<times> u64 \<times> u32) option" where
  "consecutive_loop n s set_start cur so_far =
    (if cur = 0 then Some (set_start, cur, so_far)
     else if cur = fm_prev s cur + ARCH_PAGE_SIZE then
       (if so_far + 1 = n then Some (set_start, cur, so_far + 1)
        else consecutive_loop n s set_start (fm_next s cur) (so_far + 1))
     else consecutive_loop n s cur (fm_next s cur) 1)"

definition pfalloc_consecutive :: "u32 \<Rightarrow> pmm \<Rightarrow> (u64 \<times> pmm) option" where
  "pfalloc_consecutive n s =
    (if frame_list s = 0 then Some (0, s)
     else if n = 1 then Some (pfalloc_one s)
     else
       (case consecutive_loop n s (frame_list s) (fm_next s (frame_list s)) 1 of
          None \<Rightarrow> None
        | Some (set_start, cur, so_far) \<Rightarrow>
            (if so_far = n then
               (let s1 = (if fm_prev s set_start \<noteq> 0
                          then set_fm_next (fm_prev s set_start) (fm_next s cur) s
                          else s\<lparr>frame_list := fm_next s cur\<rparr>);
                    s2 = (if fm_next s1 cur \<noteq> 0
                          then set_fm_prev (fm_next s1 cur) (fm_prev s1 set_start) s1 else s1)
                in Some (set_start, s2\<lparr>free_frames := free_frames s2 - ucast n\<rparr>))
             else Some (0, s))))"

definition pffree_one :: "u64 \<Rightarrow> pmm \<Rightarrow> pmm option" where
  "pffree_one pf s = frame_insert pf s"

text \<open>The loop of \<open>pffree_consecutive\<close>: \<open>b * ARCH_PAGE_SIZE\<close> is a 32-bit unsigned product.\<close>

fun pffree_loop :: "nat \<Rightarrow> u64 \<Rightarrow> u32 \<Rightarrow> pmm \<Rightarrow> pmm option" where
  "pffree_loop 0 pf_first b s = Some s"
| "pffree_loop (Suc k) pf_first b s =
    (case pffree_one (pf_first + ucast (b * ucast ARCH_PAGE_SIZE)) s of
       None \<Rightarrow> None
     | Some s1 \<Rightarrow> pffree_loop k pf_first (b + 1) s1)"

definition pffree_consecutive :: "u64 \<Rightarrow> u32 \<Rightarrow> pmm \<Rightarrow> pmm option" where
  "pffree_consecutive pf_first n s = pffree_loop (unat n) pf_first 0 s"

text \<open>
  Boot: the memory map handed over by the boot loader, as the list of its entries. The loop
  variable \<open>byte\<close> is an \<^verbatim>\<open>int\<close>, so the 64-bit length is cut to 32 bits and read as signed.
\<close>

record memmap_entry =
  me_base :: u64
  me_length :: u64
  me_type :: u64

definition LIMINE_MEMMAP_USABLE :: u64 where
  "LIMINE_MEMMAP_USABLE = 0"

function region_loop :: "u64 \<Rightarrow> int \<Rightarrow> pmm \<Rightarrow> pmm option" where
  "region_loop base byte s =
    (if byte < 0 then Some s
     else (case frame_insert (base + word_of_int byte) s of
             None \<Rightarrow> None
           | Some s1 \<Rightarrow> region_loop base (byte - 4096) s1))"
  by pat_completeness auto
termination
  by (relation "measure (\<lambda>(base, byte, s). nat (byte + 4096))") auto

definition region_first_byte :: "u64 \<Rightarrow> int" where
  "region_first_byte len = sint (ucast (len - ARCH_PAGE_SIZE) :: u32)"

fun memmap_loop :: "memmap_entry list \<Rightarrow> pmm \<Rightarrow> pmm option" where
  "memmap_loop [] s = Some s"
| "memmap_loop (ent # ents) s =
    (if me_type ent = LIMINE_MEMMAP_USABLE
     then (case region_loop (me_base ent) (region_first_byte (me_length ent)) s of
             None \<Rightarrow> None
           | Some s1 \<Rightarrow> memmap_loop ents s1)
     else memmap_loop ents s)"

definition x64_init_physical_memory :: "memmap_entry list \<Rightarrow> pmm \<Rightarrow> pmm option" where
  "x64_init_physical_memory ents s = memmap_loop (rev ents) s"

declare region_loop.simps [simp del]

text \<open>
  The life of the pool after boot: a frame, or a run of frames, is taken or given back. The second
  component of a state is the set of frames handed out; only those are given back. The parameter
  \<open>lim\<close> is the length of the longest run given back in one call: \<open>pffree_consecutive\<close> does not limit
  it, so \<open>lim = 2 ^ 32\<close> allows every call, and what holds for which \<open>lim\<close> is part of the theorems.
\<close>

definition frun :: "nat \<Rightarrow> u64 \<Rightarrow> u64 list" where
  "frun n p = map (\<lambda>i. p + of_nat i * 4096) [0..<n]"

inductive pmm_step :: "nat \<Rightarrow> pmm \<times> u64 set \<Rightarrow> pmm \<times> u64 set \<Rightarrow> bool" for lim where
  alloc_one: "pfalloc_one s = (p, s') \<Longrightarrow> p \<noteq> 0 \<Longrightarrow> pmm_step lim (s, A) (s', insert p A)"
| alloc_one_fail: "pfalloc_one s = (0, s') \<Longrightarrow> pmm_step lim (s, A) (s', A)"
| alloc_run: "n \<noteq> 0 \<Longrightarrow> pfalloc_consecutive n s = Some (p, s') \<Longrightarrow> p \<noteq> 0 \<Longrightarrow>
    pmm_step lim (s, A) (s', A \<union> set (frun (unat n) p))"
| alloc_run_fail: "n \<noteq> 0 \<Longrightarrow> pfalloc_consecutive n s = Some (0, s') \<Longrightarrow> pmm_step lim (s, A) (s', A)"
| free_one: "p \<in> A \<Longrightarrow> pffree_one p s = Some s' \<Longrightarrow> pmm_step lim (s, A) (s', A - {p})"
| free_run: "set (frun (unat n) p) \<subseteq> A \<Longrightarrow> unat n \<le> lim \<Longrightarrow>
    pffree_consecutive p n s = Some s' \<Longrightarrow> pmm_step lim (s, A) (s', A - set (frun (unat n) p))"

section \<open>The pool as a sorted list of frames\<close>

definition frames_ok :: "pmm \<Rightarrow> u64 list \<Rightarrow> bool" where
  "frames_ok s xs \<longleftrightarrow> dll (fm_next s) (fm_prev s) (frame_list s) xs \<and> sorted_wrt (<) xs \<and>
    (\<forall>x \<in> set xs. page_aligned x) \<and> free_frames s = of_nat (length xs)"

text \<open>The two words of each frame that the pool may write.\<close>

definition marker_words :: "u64 set \<Rightarrow> u64 set" where
  "marker_words X = X \<union> (\<lambda>x. x + 8) ` X"

lemma fm_next_set_next [simp]: "fm_next (set_fm_next p x s) = (fm_next s)(p := x)"
  by (auto simp: fm_next_def set_fm_next_def)

lemma fm_prev_set_prev [simp]: "fm_prev (set_fm_prev p x s) = (fm_prev s)(p := x)"
  by (auto simp: fm_prev_def set_fm_prev_def)

lemma fm_prev_set_next [simp]:
  "page_aligned p \<Longrightarrow> page_aligned q \<Longrightarrow> fm_prev (set_fm_next p x s) q = fm_prev s q"
  using page_aligned_neq_8 [of p q] by (auto simp: fm_prev_def set_fm_next_def)

lemma fm_next_set_prev [simp]:
  "page_aligned p \<Longrightarrow> page_aligned q \<Longrightarrow> fm_next (set_fm_prev p x s) q = fm_next s q"
  using page_aligned_neq_8 [of q p] by (auto simp: fm_next_def set_fm_prev_def)

lemma fm_upd_frame [simp]:
  "fm_next (s\<lparr>frame_list := a\<rparr>) = fm_next s" "fm_prev (s\<lparr>frame_list := a\<rparr>) = fm_prev s"
  "fm_next (s\<lparr>free_frames := b\<rparr>) = fm_next s" "fm_prev (s\<lparr>free_frames := b\<rparr>) = fm_prev s"
  "frame_list (set_fm_next p x s) = frame_list s" "frame_list (set_fm_prev p x s) = frame_list s"
  "free_frames (set_fm_next p x s) = free_frames s"
  "free_frames (set_fm_prev p x s) = free_frames s"
  by (auto simp: fm_next_def fm_prev_def set_fm_next_def set_fm_prev_def fun_eq_iff)

lemma pmem_set_fm:
  "a \<noteq> p \<Longrightarrow> pmem (set_fm_next p x s) a = pmem s a"
  "a \<noteq> p + 8 \<Longrightarrow> pmem (set_fm_prev p x s) a = pmem s a"
  by (auto simp: set_fm_next_def set_fm_prev_def)

lemma marker_wordsI [intro]:
  "x \<in> X \<Longrightarrow> x \<in> marker_words X" "x \<in> X \<Longrightarrow> x + 8 \<in> marker_words X"
  by (auto simp: marker_words_def)

lemma frames_ok_unique: "frames_ok s xs \<Longrightarrow> frames_ok s ys \<Longrightarrow> xs = ys"
  by (auto simp: frames_ok_def intro: dll_unique)

lemma frames_ok_zero: "frames_ok s xs \<Longrightarrow> 0 \<notin> set xs"
  by (auto simp: frames_ok_def dest: dll_zero_notin)

lemma frames_ok_empty: "frames_ok s xs \<Longrightarrow> frame_list s = 0 \<longleftrightarrow> xs = []"
  by (cases xs) (auto simp: frames_ok_def dll_Cons)

lemma insort_sorted_wrt_split:
  assumes "\<forall>a \<in> set as. a < p" and "bs = [] \<or> p < hd bs"
  shows "insort p (as @ bs) = as @ (p :: 'a::linorder) # bs"
  using assms by (induction as) (cases bs; auto)+

section \<open>Insertion keeps the list sorted\<close>

lemma frames_okI:
  assumes "dll n v (frame_list s) ys" and "\<forall>x \<in> set ys. fm_next s x = n x \<and> fm_prev s x = v x"
    and "sorted_wrt (<) ys" and "\<forall>x \<in> set ys. page_aligned x"
    and "free_frames s = of_nat (length ys)"
  shows "frames_ok s ys"
  using assms dll_cong [of ys "fm_next s" n "fm_prev s" v] by (simp add: frames_ok_def)

lemma sorted_wrt_insert_mid:
  assumes "sorted_wrt (<) (as @ bs)" and "\<forall>a \<in> set as. a < p" and "bs = [] \<or> p < hd bs"
  shows "sorted_wrt (<) (as @ (p :: 'a::linorder) # bs)"
  using assms by (cases bs) (auto simp: sorted_wrt_append)

lemma frame_insert_first:
  assumes "frames_ok s []" and "p \<noteq> 0" and "page_aligned p"
    and "s' = (set_fm_prev p 0 (set_fm_next p 0 s))\<lparr>frame_list := p, free_frames := free_frames s + 1\<rparr>"
  shows "frames_ok s' [p]"
  using assms
  by (intro frames_okI [where n = "(fm_next s)(p := 0)" and v = "(fm_prev s)(p := 0)"])
    (auto simp: dll_Cons frames_ok_def)

lemma frame_insert_front:
  assumes ok: "frames_ok s (c # bs)" and p: "p < c" "p \<noteq> 0" "page_aligned p"
    and s': "s' = (set_fm_prev p 0 (set_fm_prev c p (set_fm_next p c s)))\<lparr>frame_list := p,
      free_frames := free_frames s + 1\<rparr>"
  shows "frames_ok s' (p # c # bs)"
proof (rule frames_okI)
  have d: "dll (fm_next s) (fm_prev s) c (c # bs)" and so: "sorted_wrt (<) (c # bs)"
    and al: "\<forall>x \<in> set (c # bs). page_aligned x" and c: "c \<noteq> 0"
    using ok by (auto simp: frames_ok_def dll_Cons)
  have "p \<notin> set (c # bs)" using so p by auto
  with d p c show "dll ((fm_next s)(p := c)) ((fm_prev s)(p := 0, c := p)) (frame_list s') (p # c # bs)"
    using dll_push [of "fm_next s" "fm_prev s" c "c # bs" p] by (simp add: s')
  show "\<forall>x \<in> set (p # c # bs). fm_next s' x = ((fm_next s)(p := c)) x \<and>
      fm_prev s' x = ((fm_prev s)(p := 0, c := p)) x"
    using al p s' by auto
  show "sorted_wrt (<) (p # c # bs)" using so p(1) by auto
  show "\<forall>x \<in> set (p # c # bs). page_aligned x" using al p by auto
  show "free_frames s' = of_nat (length (p # c # bs))" using ok by (simp add: frames_ok_def s')
qed

lemma frame_insert_between:
  assumes ok: "frames_ok s (as @ [a] @ c # bs)" and p: "a < p" "p < c" "p \<noteq> 0" "page_aligned p"
    and s': "s' = (set_fm_next a p (set_fm_prev p a (set_fm_prev c p (set_fm_next p c s))))\<lparr>
      free_frames := free_frames s + 1\<rparr>"
  shows "frames_ok s' (as @ [a, p] @ c # bs)"
proof (rule frames_okI)
  have d: "dll (fm_next s) (fm_prev s) (frame_list s) (as @ [a] @ c # bs)"
    and so: "sorted_wrt (<) (as @ [a] @ c # bs)"
    and al: "\<forall>x \<in> set (as @ [a] @ c # bs). page_aligned x"
    using ok by (auto simp: frames_ok_def)
  have np: "p \<notin> set (as @ [a] @ c # bs)" using so p by (auto simp: sorted_wrt_append)
  have c: "c \<noteq> 0" using d dll_zero_notin by fastforce
  show "dll ((fm_next s)(p := c, a := p)) ((fm_prev s)(c := p, p := a)) (frame_list s')
      (as @ [a, p] @ c # bs)"
    using dll_link_between [OF d np p(3), of c] c by (simp add: s')
  show "\<forall>x \<in> set (as @ [a, p] @ c # bs). fm_next s' x = ((fm_next s)(p := c, a := p)) x \<and>
      fm_prev s' x = ((fm_prev s)(c := p, p := a)) x"
    using al p s' np by auto
  show "sorted_wrt (<) (as @ [a, p] @ c # bs)"
    using sorted_wrt_insert_mid [of "as @ [a]" "c # bs" p] so p by (auto simp: sorted_wrt_append)
  show "\<forall>x \<in> set (as @ [a, p] @ c # bs). page_aligned x" using al p by auto
  show "free_frames s' = of_nat (length (as @ [a, p] @ c # bs))"
    using ok by (simp add: frames_ok_def s')
qed

lemma frame_insert_end:
  assumes ok: "frames_ok s (as @ [a])" and p: "a < p" "p \<noteq> 0" "page_aligned p"
    and s': "s' = (set_fm_prev p a (set_fm_next p 0 (set_fm_next a p s)))\<lparr>
      free_frames := free_frames s + 1\<rparr>"
  shows "frames_ok s' (as @ [a, p])"
proof (rule frames_okI)
  have d: "dll (fm_next s) (fm_prev s) (frame_list s) (as @ [a] @ [])"
    and so: "sorted_wrt (<) (as @ [a])" and al: "\<forall>x \<in> set (as @ [a]). page_aligned x"
    using ok by (auto simp: frames_ok_def)
  have np: "p \<notin> set (as @ [a] @ [])" using so p by (auto simp: sorted_wrt_append)
  show "dll ((fm_next s)(p := 0, a := p)) ((fm_prev s)(p := a)) (frame_list s') (as @ [a, p])"
    using dll_link_between [OF d np p(2), of 0] by (simp add: s')
  show "\<forall>x \<in> set (as @ [a, p]). fm_next s' x = ((fm_next s)(p := 0, a := p)) x \<and>
      fm_prev s' x = ((fm_prev s)(p := a)) x"
    using al p s' np by auto
  show "sorted_wrt (<) (as @ [a, p])"
    using sorted_wrt_insert_mid [of "as @ [a]" "[]" p] so p by (auto simp: sorted_wrt_append)
  show "\<forall>x \<in> set (as @ [a, p]). page_aligned x" using al p by auto
  show "free_frames s' = of_nat (length (as @ [a, p]))"
    using ok by (simp add: frames_ok_def s')
qed

definition frame_insert_post :: "pmm \<Rightarrow> u64 \<Rightarrow> u64 list \<Rightarrow> pmm \<Rightarrow> bool" where
  "frame_insert_post s p xs s' \<longleftrightarrow> frames_ok s' (insort p xs) \<and>
    (\<forall>a. a \<notin> marker_words (insert p (set xs)) \<longrightarrow> pmem s' a = pmem s a)"

lemma frame_insert_loop_here:
  assumes ok: "frames_ok s (as @ cur # bs)" and p: "p < cur" "p \<noteq> 0" "page_aligned p"
    and as: "\<forall>a \<in> set as. a < p"
  shows "\<exists>s'. frame_insert_loop p (last (0 # as)) cur s = Some s' \<and>
    frame_insert_post s p (as @ cur # bs) s'"
proof -
  have nz: "cur \<noteq> 0" "0 \<notin> set as" using frames_ok_zero [OF ok] by auto
  have ins: "insort p (as @ cur # bs) = as @ p # cur # bs"
    using as p by (intro insort_sorted_wrt_split) auto
  show ?thesis
  proof (cases as rule: rev_cases)
    case Nil
    define s' where "s' = (set_fm_prev p 0 (set_fm_prev cur p (set_fm_next p cur s)))\<lparr>frame_list := p,
      free_frames := free_frames s + 1\<rparr>"
    have "frames_ok s' (p # cur # bs)"
      using ok p Nil by (intro frame_insert_front [OF _ _ _ _ s'_def]) auto
    moreover have "pmem s' a = pmem s a" if "a \<notin> marker_words (insert p (set (as @ cur # bs)))" for a
      using that by (auto simp: s'_def set_fm_next_def set_fm_prev_def marker_words_def)
    ultimately have "frame_insert_post s p (as @ cur # bs) s'"
      using ins Nil by (simp add: frame_insert_post_def)
    moreover have "frame_insert_loop p (last (0 # as)) cur s = Some s'"
      using p nz Nil by (subst frame_insert_loop.simps) (simp add: s'_def Let_def)
    ultimately show ?thesis by blast
  next
    case (snoc as' a)
    define s' where "s' = (set_fm_next a p (set_fm_prev p a (set_fm_prev cur p (set_fm_next p cur s))))\<lparr>
      free_frames := free_frames s + 1\<rparr>"
    have "frames_ok s' (as' @ [a, p] @ cur # bs)"
      using ok p as snoc by (intro frame_insert_between [OF _ _ _ _ _ s'_def]) auto
    moreover have "pmem s' x = pmem s x" if "x \<notin> marker_words (insert p (set (as @ cur # bs)))" for x
      using that snoc by (auto simp: s'_def set_fm_next_def set_fm_prev_def marker_words_def)
    ultimately have "frame_insert_post s p (as @ cur # bs) s'"
      using ins snoc by (simp add: frame_insert_post_def)
    moreover have "frame_insert_loop p (last (0 # as)) cur s = Some s'"
      using p nz snoc by (subst frame_insert_loop.simps) (simp add: s'_def Let_def)
    ultimately show ?thesis by blast
  qed
qed

lemma frame_insert_loop_last:
  assumes ok: "frames_ok s (as @ [cur])" and p: "cur < p" "p \<noteq> 0" "page_aligned p"
  shows "\<exists>s'. frame_insert_loop p (last (0 # as)) cur s = Some s' \<and>
    frame_insert_post s p (as @ [cur]) s'"
proof -
  have so: "sorted_wrt (<) (as @ [cur])" and d: "dll (fm_next s) (fm_prev s) (frame_list s) (as @ [cur])"
    using ok by (auto simp: frames_ok_def)
  have nz: "cur \<noteq> 0" "fm_next s cur = 0" using dll_middle [of _ _ _ as cur "[]"] d by auto
  have "\<forall>a \<in> set (as @ [cur]). a < p" using so p(1) by (auto simp: sorted_wrt_append)
  from insort_sorted_wrt_split [OF this, of "[]"]
  have ins: "insort p (as @ [cur]) = as @ [cur, p]" by simp
  define s' where "s' = (set_fm_prev p cur (set_fm_next p 0 (set_fm_next cur p s)))\<lparr>
      free_frames := free_frames s + 1\<rparr>"
  have "frames_ok s' (as @ [cur, p])"
    using ok p by (intro frame_insert_end [OF _ _ _ _ s'_def]) auto
  moreover have "pmem s' x = pmem s x" if "x \<notin> marker_words (insert p (set (as @ [cur])))" for x
    using that by (auto simp: s'_def set_fm_next_def set_fm_prev_def marker_words_def)
  ultimately have "frame_insert_post s p (as @ [cur]) s'"
    using ins by (simp add: frame_insert_post_def)
  moreover have "frame_insert_loop p (last (0 # as)) cur s = Some s'"
    using p nz by (subst frame_insert_loop.simps) (simp add: s'_def Let_def)
  ultimately show ?thesis by blast
qed

lemma frame_insert_loop_ok:
  assumes "frames_ok s (as @ cur # bs)" and "p \<notin> set (as @ cur # bs)" and "p \<noteq> 0"
    and "page_aligned p" and "\<forall>a \<in> set as. a < p"
  shows "\<exists>s'. frame_insert_loop p (last (0 # as)) cur s = Some s' \<and>
    frame_insert_post s p (as @ cur # bs) s'"
  using assms
proof (induction bs arbitrary: as cur)
  case Nil
  then show ?case
    using frame_insert_loop_here [of s as cur "[]" p] frame_insert_loop_last [of s as cur p]
    by (cases p cur rule: linorder_cases) auto
next
  case (Cons b bs)
  note ok = Cons.prems(1)
  have dl: "dll (fm_next s) (fm_prev s) (frame_list s) (as @ cur # b # bs)"
    using ok by (simp add: frames_ok_def)
  have nxt: "fm_next s cur = b" and "b \<noteq> 0" and c0: "cur \<noteq> 0"
    using dll_middle [OF dl] dll_zero_notin [OF dl] by auto
  show ?case
  proof (cases "p < cur")
    case True
    with Cons.prems show ?thesis by (intro frame_insert_loop_here) auto
  next
    case False
    then have "cur < p" using Cons.prems(2) by auto
    then have "\<exists>s'. frame_insert_loop p (last (0 # as @ [cur])) b s = Some s' \<and>
        frame_insert_post s p ((as @ [cur]) @ b # bs) s'"
      using Cons.prems by (intro Cons.IH) auto
    then show ?thesis using False nxt \<open>b \<noteq> 0\<close> c0 by (subst frame_insert_loop.simps) simp
  qed
qed

lemma frame_insert_ok:
  assumes ok: "frames_ok s xs" and p: "p \<notin> set xs" "p \<noteq> 0" "page_aligned p"
  shows "\<exists>s'. frame_insert p s = Some s' \<and> frame_insert_post s p xs s'"
proof (cases xs)
  case Nil
  define s' where "s' = (set_fm_prev p 0 (set_fm_next p 0 s))\<lparr>frame_list := p,
    free_frames := free_frames s + 1\<rparr>"
  have "frames_ok s' [p]" using ok p Nil by (intro frame_insert_first [OF _ _ _ s'_def]) auto
  moreover have "pmem s' x = pmem s x" if "x \<notin> marker_words {p}" for x
    using that by (auto simp: s'_def set_fm_next_def set_fm_prev_def marker_words_def)
  moreover have "frame_insert p s = Some s'"
    using frames_ok_empty [OF ok] Nil by (simp add: frame_insert_def s'_def Let_def)
  ultimately show ?thesis using Nil by (simp add: frame_insert_post_def)
next
  case (Cons c cs)
  have "frame_list s = c" using ok Cons by (simp add: frames_ok_def dll_Cons)
  moreover have "frame_list s \<noteq> 0" using frames_ok_empty [OF ok] Cons by simp
  ultimately show ?thesis
    using frame_insert_loop_ok [of s "[]" c cs p] ok p Cons by (simp add: frame_insert_def)
qed

section \<open>Taking the first frame\<close>

lemma pfalloc_one_empty: "frames_ok s [] \<Longrightarrow> pfalloc_one s = (0, s)"
  using frames_ok_empty [of s "[]"] by (simp add: pfalloc_one_def)

lemma pfalloc_one_ok:
  assumes ok: "frames_ok s (x # xs)"
  shows "fst (pfalloc_one s) = x" and "frames_ok (snd (pfalloc_one s)) xs"
    and "a \<notin> marker_words (set xs) \<Longrightarrow> pmem (snd (pfalloc_one s)) a = pmem s a"
proof -
  let ?s = "snd (pfalloc_one s)"
  have d: "dll (fm_next s) (fm_prev s) (frame_list s) ([] @ x # xs)"
    and so: "sorted_wrt (<) (x # xs)" and al: "\<forall>x \<in> set (x # xs). page_aligned x"
    using ok by (auto simp: frames_ok_def)
  note mid = dll_middle [OF d]
  have hd: "frame_list s = x" "x \<noteq> 0" using mid by auto
  then show "fst (pfalloc_one s) = x" by (simp add: pfalloc_one_def Let_def)
  have ax: "page_aligned x" and an: "fm_next s x \<noteq> 0 \<Longrightarrow> page_aligned (fm_next s x)"
    using mid(2) al by (cases xs; auto)+
  have fl: "frame_list ?s = fm_next s x"
    using hd ax an by (simp add: pfalloc_one_def Let_def)
  have D: "dll (fm_next s) (unlink_prev (fm_next s) (fm_prev s) x) (fm_next s x) xs"
    using dll_unlink [OF d] mid(1) by (simp add: unlink_next_def)
  show "frames_ok ?s xs"
  proof (rule frames_okI)
    show "dll (fm_next s) (unlink_prev (fm_next s) (fm_prev s) x) (frame_list ?s) xs"
      using D fl by simp
    show "\<forall>y \<in> set xs. fm_next ?s y = fm_next s y \<and>
        fm_prev ?s y = unlink_prev (fm_next s) (fm_prev s) x y"
      using hd al an mid(1) by (auto simp: pfalloc_one_def Let_def unlink_prev_def)
    show "sorted_wrt (<) xs" using so by simp
    show "\<forall>y \<in> set xs. page_aligned y" using al by simp
    show "free_frames ?s = of_nat (length xs)"
      using ok hd by (simp add: frames_ok_def pfalloc_one_def Let_def)
  qed
  show "pmem ?s a = pmem s a" if a: "a \<notin> marker_words (set xs)"
    using a hd mid(2) by (cases xs) (auto simp: pfalloc_one_def Let_def set_fm_prev_def marker_words_def)
qed

section \<open>Runs of consecutive frames\<close>

lemma frun_simps [simp]: "frun 0 p = []" "frun (Suc k) p = frun k p @ [p + of_nat k * 4096]"
  by (simp_all add: frun_def)

lemma length_frun [simp]: "length (frun k p) = k"
  by (simp add: frun_def)

lemma frun_eq_Nil [simp]: "frun k p = [] \<longleftrightarrow> k = 0"
  by (metis length_0_conv length_frun)

lemma nth_frun: "i < k \<Longrightarrow> frun k p ! i = p + of_nat i * 4096"
  by (simp add: frun_def)

lemma last_frun: "0 < k \<Longrightarrow> last (frun k p) = p + of_nat (k - 1) * 4096"
  by (cases k) simp_all

lemma hd_frun: "0 < k \<Longrightarrow> hd (frun k p) = p"
  by (simp add: hd_conv_nth nth_frun)

lemma frun_adjacent: "frun k p = xs @ x # y # zs \<Longrightarrow> y = x + 4096"
proof -
  assume e: "frun k p = xs @ x # y # zs"
  have "length (frun k p) = length (xs @ x # y # zs)" by (simp only: e)
  then have "length xs < k" "Suc (length xs) < k" by auto
  then have "x = p + of_nat (length xs) * 4096" "y = p + of_nat (Suc (length xs)) * 4096"
    using nth_frun [of "length xs" k p] nth_frun [of "Suc (length xs)" k p]
    by (simp_all add: e nth_append)
  then show ?thesis by (simp add: algebra_simps)
qed

lemma sublist_snoc_cases:
  assumes "sublist r (ys @ [c])"
  shows "sublist r ys \<or> (\<exists>zs. ys @ [c] = zs @ r)"
proof -
  from assms obtain ps ss where e: "ys @ [c] = ps @ r @ ss" by (auto simp: sublist_def)
  show ?thesis
  proof (cases ss rule: rev_cases)
    case Nil
    with e show ?thesis by auto
  next
    case (snoc ss' x)
    with e have "ys = ps @ r @ ss'" by simp
    then show ?thesis by (auto simp: sublist_def)
  qed
qed

text \<open>A run that ends the list but is longer than its last maximal run does not exist.\<close>

lemma no_longer_run:
  assumes e: "as @ ms = zs @ frun m p" and "length ms < m" and "ms \<noteq> []"
    and "as = [] \<or> last as + 4096 \<noteq> hd ms"
  shows False
proof -
  have len: "length as + length ms = length zs + m" using arg_cong [OF e, of length] by simp
  with assms(2) have "as \<noteq> []" by auto
  then obtain as' a where as: "as = as' @ [a]" by (metis rev_exhaust)
  obtain y ms' where ms: "ms = y # ms'" using assms(3) by (cases ms) auto
  have "length zs \<le> length as'" using len assms(2) as by simp
  moreover have "as' @ a # y # ms' = zs @ frun m p" using e as ms by simp
  ultimately have "frun m p = drop (length zs) as' @ a # y # ms'"
    by (metis append_eq_conv_conj drop_append diff_is_0_eq drop0)
  then have "y = a + 4096" by (rule frun_adjacent)
  with assms(4) as ms show False by simp
qed

lemma of_nat_u32_inj:
  assumes "i < 2 ^ 32" and "j < 2 ^ 32"
  shows "(of_nat i :: u32) = of_nat j \<longleftrightarrow> i = j"
proof -
  have "unat (of_nat i :: u32) = i" "unat (of_nat j :: u32) = j"
    using assms by (simp_all add: unat_of_nat)
  then show ?thesis by metis
qed

definition consecutive_post :: "nat \<Rightarrow> u64 list \<Rightarrow> u64 \<times> u64 \<times> u32 \<Rightarrow> bool" where
  "consecutive_post m xs r \<longleftrightarrow>
    (case r of (st, cur, so_far) \<Rightarrow>
      if so_far = of_nat m
      then \<exists>as bs. xs = as @ frun m st @ bs \<and> cur = last (frun m st)
      else \<forall>p. \<not> sublist (frun m p) xs)"

lemma consecutive_loop_ok:
  assumes ok: "frames_ok s (as @ frun k st @ bs)" and m: "2 \<le> m" "m < 2 ^ 32"
    and k: "0 < k" "k < m" and gap: "as = [] \<or> last as + 4096 \<noteq> st"
    and none: "\<And>p. \<not> sublist (frun m p) (as @ frun k st)"
  shows "\<exists>r. consecutive_loop (of_nat m) s st (hd (bs @ [0])) (of_nat k) = Some r \<and>
    consecutive_post m (as @ frun k st @ bs) r"
  using ok k gap none
proof (induction bs arbitrary: as k st)
  case Nil
  then have "(of_nat k :: u32) \<noteq> of_nat m" using m by (simp add: of_nat_u32_inj)
  with Nil show ?case by (subst consecutive_loop.simps) (simp add: consecutive_post_def)
next
  case (Cons b bs)
  let ?P = "consecutive_post m (as @ frun k st @ b # bs)"
  have d: "dll (fm_next s) (fm_prev s) (frame_list s) ((as @ frun k st) @ b # bs)"
    using Cons.prems(1) by (simp add: frames_ok_def)
  note mid = dll_middle [OF d]
  have prev: "fm_prev s b = st + of_nat (k - 1) * 4096"
    using mid(1) Cons.prems(2) by (simp add: last_frun)
  have nx: "fm_next s b = hd (bs @ [0])" and b0: "b \<noteq> 0" using mid by auto
  have adj: "fm_prev s b + 4096 = st + of_nat k * 4096"
    using prev Cons.prems(2) by (cases k) (simp_all add: algebra_simps)
  have sk: "(of_nat k :: u32) + 1 = of_nat m \<longleftrightarrow> Suc k = m"
    using of_nat_u32_inj [of "Suc k" m] Cons.prems(3) m by (simp add: add.commute)
  note unf = consecutive_loop.simps [of "of_nat m" s st b "of_nat k"]
  show ?case
  proof (cases "b = st + of_nat k * 4096")
    case eq: True
    then have run: "as @ frun k st @ b # bs = as @ frun (Suc k) st @ bs" by simp
    show ?thesis
    proof (cases "Suc k = m")
      case True
      then have "as @ frun k st @ b # bs = as @ frun m st @ bs" and "b = last (frun m st)"
        using run eq by auto
      then have "?P (st, b, of_nat m)" unfolding consecutive_post_def
        by (simp only: prod.case simp_thms if_True) blast
      moreover have "consecutive_loop (of_nat m) s st b (of_nat k) = Some (st, b, of_nat m)"
        using unf adj b0 eq True sk by (simp add: ARCH_PAGE_SIZE_def)
      ultimately show ?thesis by auto
    next
      case False
      have "\<exists>r. consecutive_loop (of_nat m) s st (hd (bs @ [0])) (of_nat (Suc k)) = Some r \<and>
          consecutive_post m (as @ frun (Suc k) st @ bs) r"
      proof (rule Cons.IH)
        show "frames_ok s (as @ frun (Suc k) st @ bs)" using Cons.prems(1) run by simp
        show "0 < Suc k" "Suc k < m" using Cons.prems(3) False by auto
        show "as = [] \<or> last as + 4096 \<noteq> st" by (rule Cons.prems(4))
        show "\<not> sublist (frun m p) (as @ frun (Suc k) st)" for p
        proof
          assume "sublist (frun m p) (as @ frun (Suc k) st)"
          then obtain zs where "as @ frun (Suc k) st = zs @ frun m p"
            using sublist_snoc_cases [of "frun m p" "as @ frun k st"] Cons.prems(5) by auto
          then show False
            using \<open>Suc k < m\<close> Cons.prems(4)
            by (intro no_longer_run [of as "frun (Suc k) st"]) (auto simp: hd_frun simp del: frun_simps)
        qed
      qed
      moreover have "(of_nat k :: u32) + 1 = of_nat (Suc k)" by simp
      then have "consecutive_loop (of_nat m) s st b (of_nat k) =
          consecutive_loop (of_nat m) s st (hd (bs @ [0])) (of_nat (Suc k))"
        using unf adj b0 eq sk False nx by (simp add: ARCH_PAGE_SIZE_def del: of_nat_Suc)
      ultimately show ?thesis unfolding run by simp
    qed
  next
    case gap': False
    have "\<exists>r. consecutive_loop (of_nat m) s b (hd (bs @ [0])) (of_nat 1) = Some r \<and>
        consecutive_post m ((as @ frun k st) @ frun 1 b @ bs) r"
    proof (rule Cons.IH)
      show "frames_ok s ((as @ frun k st) @ frun 1 b @ bs)" using Cons.prems(1) by simp
      show "0 < (1::nat)" "1 < m" using m by auto
      show lg: "as @ frun k st = [] \<or> last (as @ frun k st) + 4096 \<noteq> b"
        using gap' adj prev Cons.prems(2) by (simp add: last_frun)
      show "\<not> sublist (frun m p) ((as @ frun k st) @ frun 1 b)" for p
      proof
        assume "sublist (frun m p) ((as @ frun k st) @ frun 1 b)"
        then obtain zs where "(as @ frun k st) @ [b] = zs @ frun m p"
          using sublist_snoc_cases [of "frun m p" "as @ frun k st"] Cons.prems(5) by auto
        then show False using m lg by (intro no_longer_run [of "as @ frun k st" "[b]"]) auto
      qed
    qed
    then show ?thesis using unf adj b0 gap' nx by (simp add: ARCH_PAGE_SIZE_def)
  qed
qed

lemma frames_cut:
  assumes ok: "frames_ok s (as @ ms @ bs)" and ms: "ms \<noteq> []" "h = hd ms" "l = last ms"
    and s1: "s1 = (if fm_prev s h \<noteq> 0 then set_fm_next (fm_prev s h) (fm_next s l) s
      else s\<lparr>frame_list := fm_next s l\<rparr>)"
    and s2: "s2 = (if fm_next s1 l \<noteq> 0 then set_fm_prev (fm_next s1 l) (fm_prev s1 h) s1 else s1)"
    and s': "s' = s2\<lparr>free_frames := free_frames s2 - of_nat (length ms)\<rparr>"
  shows "frames_ok s' (as @ bs)"
    and "a \<notin> marker_words (set (as @ bs)) \<Longrightarrow> pmem s' a = pmem s a"
proof -
  have d: "dll (fm_next s) (fm_prev s) (frame_list s) (as @ ms @ bs)"
    and so: "sorted_wrt (<) (as @ ms @ bs)" and al: "\<forall>x \<in> set (as @ ms @ bs). page_aligned x"
    and cnt: "free_frames s = of_nat (length (as @ ms @ bs))"
    using ok by (auto simp: frames_ok_def)
  have dist: "distinct (as @ ms @ bs)" and nz: "0 \<notin> set (as @ ms @ bs)"
    using dll_distinct [OF d] dll_zero_notin [OF d] by blast+
  have "dll (fm_next s) (fm_prev s) (frame_list s) (as @ h # tl ms @ bs)"
    using d ms(1,2) by (metis append_Cons hd_Cons_tl)
  then have vh: "fm_prev s h = last (0 # as)" by (rule dll_middle)
  have "dll (fm_next s) (fm_prev s) (frame_list s) ((as @ butlast ms) @ l # bs)"
    using d ms(1,3) by (metis append_assoc append_Cons append_Nil append_butlast_last_id)
  then have nl: "fm_next s l = hd (bs @ [0])" by (rule dll_middle)
  have vin: "fm_prev s h \<noteq> 0 \<Longrightarrow> fm_prev s h \<in> set as" using vh by (cases as rule: rev_cases) auto
  have nin: "fm_next s l \<noteq> 0 \<Longrightarrow> fm_next s l \<in> set bs" using nl by (cases bs) auto
  have hin: "h \<in> set ms" and lin: "l \<in> set ms" using ms by auto
  have e1: "fm_next s1 l = fm_next s l" and e2: "fm_prev s1 h = fm_prev s h"
    using vin hin lin dist al unfolding s1 by auto
  note s2' = s2 [unfolded e1 e2]
  show "frames_ok s' (as @ bs)"
  proof (rule frames_okI)
    show "dll (if fm_prev s h \<noteq> 0 then (fm_next s)(fm_prev s h := fm_next s l) else fm_next s)
        (if fm_next s l \<noteq> 0 then (fm_prev s)(fm_next s l := fm_prev s h) else fm_prev s)
        (frame_list s') (as @ bs)"
      using dll_cut [OF d ms] by (simp add: s' s2' s1 split: if_splits)
    show "\<forall>x \<in> set (as @ bs). fm_next s' x =
        (if fm_prev s h \<noteq> 0 then (fm_next s)(fm_prev s h := fm_next s l) else fm_next s) x \<and>
        fm_prev s' x = (if fm_next s l \<noteq> 0 then (fm_prev s)(fm_next s l := fm_prev s h)
          else fm_prev s) x"
      using al vin nin by (auto simp: s' s2' s1)
    show "sorted_wrt (<) (as @ bs)" using so by (auto simp: sorted_wrt_append)
    show "\<forall>x \<in> set (as @ bs). page_aligned x" using al by auto
    show "free_frames s' = of_nat (length (as @ bs))" using cnt by (simp add: s' s2' s1)
  qed
  show "pmem s' a = pmem s a" if "a \<notin> marker_words (set (as @ bs))"
    using that vin nin
    by (auto simp: s' s2' s1 set_fm_next_def set_fm_prev_def marker_words_def)
qed

lemma pfalloc_consecutive_ok:
  assumes ok: "frames_ok s xs" and m: "2 \<le> m" "m < 2 ^ 32"
  shows "\<exists>p s'. pfalloc_consecutive (of_nat m) s = Some (p, s') \<and>
    (if p = 0 then s' = s \<and> (\<forall>q. \<not> sublist (frun m q) xs)
     else \<exists>as bs. xs = as @ frun m p @ bs \<and> frames_ok s' (as @ bs) \<and>
       (\<forall>a. a \<notin> marker_words (set (as @ bs)) \<longrightarrow> pmem s' a = pmem s a))"
proof (cases xs)
  case Nil
  then have "frame_list s = 0" using frames_ok_empty [OF ok] by simp
  moreover have "\<not> sublist (frun m q) []" for q
    using m by (metis frun_eq_Nil not_numeral_le_zero sublist_Nil_right)
  ultimately show ?thesis using Nil by (simp add: pfalloc_consecutive_def)
next
  case (Cons x ys)
  have d: "dll (fm_next s) (fm_prev s) (frame_list s) ([] @ x # ys)"
    using ok Cons by (simp add: frames_ok_def)
  have hd: "frame_list s = x" "x \<noteq> 0" "fm_next s x = hd (ys @ [0])" using dll_middle [OF d] by auto
  have n1: "(of_nat m :: u32) \<noteq> 1" using of_nat_u32_inj [of m 1] m by simp
  have "\<not> sublist (frun m q) [x]" for q
    using sublist_length_le [of "frun m q" "[x]"] m by auto
  then obtain r where r: "consecutive_loop (of_nat m) s x (hd (ys @ [0])) 1 = Some r"
      and post: "consecutive_post m xs r"
    using consecutive_loop_ok [of s "[]" 1 x ys m] ok m Cons by auto
  obtain st cur sf where rr: "r = (st, cur, sf)" by (cases r)
  show ?thesis
  proof (cases "sf = of_nat m")
    case False
    then show ?thesis using r rr post hd n1 by (simp add: pfalloc_consecutive_def consecutive_post_def)
  next
    case True
    from post rr True obtain as bs where xs: "xs = as @ frun m st @ bs" and cur: "cur = last (frun m st)"
      by (auto simp: consecutive_post_def)
    define s1 where "s1 = (if fm_prev s st \<noteq> 0 then set_fm_next (fm_prev s st) (fm_next s cur) s
      else s\<lparr>frame_list := fm_next s cur\<rparr>)"
    define s2 where "s2 = (if fm_next s1 cur \<noteq> 0
      then set_fm_prev (fm_next s1 cur) (fm_prev s1 st) s1 else s1)"
    define s' where "s' = s2\<lparr>free_frames := free_frames s2 - of_nat (length (frun m st))\<rparr>"
    have fr: "frun m st \<noteq> []" "st = hd (frun m st)" using m by (simp_all add: hd_frun)
    note cut = frames_cut [OF ok [unfolded xs] fr cur s1_def s2_def s'_def]
    have "(ucast (of_nat m :: u32) :: u64) = of_nat m"
      using m by (simp add: unsigned_of_nat take_bit_nat_eq_self)
    then have "pfalloc_consecutive (of_nat m) s = Some (st, s')"
      using r rr True hd n1
      by (simp add: pfalloc_consecutive_def s'_def s2_def s1_def Let_def)
    moreover have "st \<noteq> 0" using frames_ok_zero [OF ok] xs fr by (metis Un_iff hd_in_set set_append)
    ultimately show ?thesis using cut xs by (intro exI [of _ st] exI [of _ s']) auto
  qed
qed

section \<open>Physically consecutive free frames are neighbours in the list\<close>

lemma frun_unat:
  assumes "page_aligned p" and "0 \<notin> set (frun m p)" and "i < m"
  shows "unat (p + of_nat i * 4096) = unat p + i * 4096 \<and> page_aligned (p + of_nat i * 4096)"
  using assms(3)
proof (induction i)
  case 0
  then show ?case using assms(1) by simp
next
  case (Suc i)
  let ?x = "p + of_nat i * 4096"
  have IH: "unat ?x = unat p + i * 4096" "page_aligned ?x" using Suc by auto
  have e: "p + of_nat (Suc i) * 4096 = ?x + 4096" by (simp add: algebra_simps)
  have "?x + 4096 \<in> set (frun m p)"
    using Suc.prems nth_frun [of "Suc i" m p] nth_mem [of "Suc i" "frun m p"] unfolding e by simp
  then have "?x + 4096 \<noteq> 0" using assms(2) by auto
  from unat_next_page [OF IH(2) this] IH show ?case
    unfolding e by (simp add: page_aligned_plus)
qed

lemma frun_subset_sublist:
  assumes so: "sorted_wrt (<) xs" and al: "\<forall>x \<in> set xs. page_aligned x" and nz: "0 \<notin> set xs"
  shows "set (frun m p) \<subseteq> set xs \<Longrightarrow> sublist (frun m p) xs"
proof (induction m)
  case 0
  then show ?case by simp
next
  case (Suc k)
  let ?y = "p + of_nat k * 4096"
  show ?case
  proof (cases "k = 0")
    case True
    then show ?thesis using Suc.prems by (auto simp: sublist_def dest: split_list)
  next
    case False
    have y: "?y \<in> set xs" and sub: "set (frun k p) \<subseteq> set xs" using Suc.prems by auto
    then obtain as bs where xs: "xs = as @ frun k p @ bs"
      using Suc.IH by (auto simp: sublist_def)
    have p: "page_aligned p" "0 \<notin> set (frun (Suc k) p)"
      using Suc.prems al nz sub False hd_frun [of k p] hd_in_set [of "frun k p"] by auto
    let ?l = "p + of_nat (k - 1) * 4096"
    have l: "unat ?l = unat p + (k - 1) * 4096" "page_aligned ?l"
      using frun_unat [OF p, of "k - 1"] False by auto
    have uy: "unat ?y = unat p + k * 4096" "page_aligned ?y" using frun_unat [OF p, of k] by auto
    have ly: "unat ?y = unat ?l + 4096" using uy l False by (cases k) simp_all
    have "?y \<notin> set (frun k p)"
    proof
      assume "?y \<in> set (frun k p)"
      then obtain j where "j < k" "?y = p + of_nat j * 4096" by (auto simp: frun_def)
      then show False using frun_unat [OF p, of j] uy by simp
    qed
    moreover have "?y \<notin> set as"
    proof
      assume "?y \<in> set as"
      then have "?y < p" using so xs hd_frun [of k p] hd_in_set [of "frun k p"] False
        by (auto simp: sorted_wrt_append)
      then show False using uy by (simp add: word_less_nat_alt)
    qed
    ultimately have yb: "?y \<in> set bs" using y xs by auto
    then obtain z zs where bs: "bs = z # zs" by (cases bs) auto
    have "z \<le> ?y" using so xs bs yb by (auto simp: sorted_wrt_append)
    moreover have "?l < z"
      using so xs bs False last_frun [of k p] last_in_set [of "frun k p"] by (auto simp: sorted_wrt_append)
    moreover have "page_aligned z" using al xs bs by simp
    ultimately have "unat z = unat ?y"
      using page_aligned_next [OF l(2), of z] ly by (simp add: word_less_nat_alt word_le_nat_alt)
    then have "z = ?y" by (simp only: word_unat_eq_iff)
    then have "xs = as @ frun (Suc k) p @ zs" using xs bs by simp
    then show ?thesis by (auto simp: sublist_def)
  qed
qed

section \<open>Giving frames back\<close>

lemma set_insort_key_id: "set (insort p xs) = insert p (set xs)"
  by (rule set_insort_key)

lemma ucast_page_product:
  assumes "b < 2 ^ 20"
  shows "(ucast ((of_nat b :: u32) * ucast ARCH_PAGE_SIZE) :: u64) = of_nat b * 4096"
proof -
  have "(of_nat b :: u32) * ucast ARCH_PAGE_SIZE = of_nat (b * 4096)"
    by (simp add: ARCH_PAGE_SIZE_def)
  moreover have "b * 4096 < 2 ^ 32" using assms by simp
  then have "(ucast (of_nat (b * 4096) :: u32) :: u64) = of_nat (b * 4096)"
    by (simp add: unsigned_of_nat take_bit_nat_eq_self del: of_nat_mult)
  ultimately show ?thesis by simp
qed

lemma pffree_loop_ok:
  assumes "frames_ok s xs" and "\<forall>i. b \<le> i \<and> i < b + k \<longrightarrow> page_aligned (p + of_nat i * 4096) \<and>
      p + of_nat i * 4096 \<noteq> 0 \<and> p + of_nat i * 4096 \<notin> set xs"
    and "distinct (map (\<lambda>i. p + of_nat i * 4096) [b..<b + k])" and "b + k \<le> 2 ^ 20"
  shows "\<exists>s' ys. pffree_loop k p (of_nat b) s = Some s' \<and> frames_ok s' ys \<and>
    set ys = set xs \<union> (\<lambda>i. p + of_nat i * 4096) ` {b..<b + k}"
  using assms
proof (induction k arbitrary: s xs b)
  case 0
  then show ?case by auto
next
  case (Suc k)
  let ?q = "p + of_nat b * 4096"
  have q: "page_aligned ?q" "?q \<noteq> 0" "?q \<notin> set xs" using Suc.prems(2) by auto
  then obtain s1 where s1: "frame_insert ?q s = Some s1" "frames_ok s1 (insort ?q xs)"
      "\<forall>a. a \<notin> marker_words (insert ?q (set xs)) \<longrightarrow> pmem s1 a = pmem s a"
    using frame_insert_ok [OF Suc.prems(1)] by (auto simp: frame_insert_post_def)
  have up: "[b..<b + Suc k] = b # [Suc b..<Suc b + k]" by (simp add: upt_conv_Cons del: upt_Suc)
  have d: "?q \<notin> (\<lambda>i. p + of_nat i * 4096) ` {Suc b..<Suc b + k}"
    "distinct (map (\<lambda>i. p + of_nat i * 4096) [Suc b..<Suc b + k])"
    using Suc.prems(3) unfolding up by (auto simp del: upt_Suc)
  have "\<forall>i. Suc b \<le> i \<and> i < Suc b + k \<longrightarrow> page_aligned (p + of_nat i * 4096) \<and>
      p + of_nat i * 4096 \<noteq> 0 \<and> p + of_nat i * 4096 \<notin> set (insort ?q xs)"
  proof (intro allI impI)
    fix i assume i: "Suc b \<le> i \<and> i < Suc b + k"
    then have "p + of_nat i * 4096 \<in> (\<lambda>i. p + of_nat i * 4096) ` {Suc b..<Suc b + k}" by simp
    with d(1) have "p + of_nat i * 4096 \<noteq> ?q" by metis
    with i Suc.prems(2) show "page_aligned (p + of_nat i * 4096) \<and>
        p + of_nat i * 4096 \<noteq> 0 \<and> p + of_nat i * 4096 \<notin> set (insort ?q xs)"
      by (simp add: set_insort_key)
  qed
  from Suc.IH [OF s1(2) this d(2)] Suc.prems(4) obtain s' ys
    where ys: "pffree_loop k p (of_nat (Suc b)) s1 = Some s'" "frames_ok s' ys"
      "set ys = set (insort ?q xs) \<union> (\<lambda>i. p + of_nat i * 4096) ` {Suc b..<Suc b + k}" by auto
  have "pffree_loop (Suc k) p (of_nat b) s = Some s'"
    using s1(1) ys(1) ucast_page_product [of b] Suc.prems(4)
    by (simp add: pffree_one_def add.commute)
  moreover have "{b..<b + Suc k} = insert b {Suc b..<Suc b + k}" by auto
  then have "set ys = set xs \<union> (\<lambda>i. p + of_nat i * 4096) ` {b..<b + Suc k}"
    using ys(3) by (simp add: set_insort_key)
  ultimately show ?case using ys(2) by blast
qed

lemma set_frun: "set (frun m p) = (\<lambda>i. p + of_nat i * 4096) ` {0..<m}"
  by (simp add: frun_def)

lemma distinct_frun: "m \<le> 2 ^ 32 \<Longrightarrow> distinct (frun m p)"
proof -
  assume m: "m \<le> 2 ^ 32"
  have "i = j" if "i < m" "j < m" "(of_nat i * 4096 :: u64) = of_nat j * 4096" for i j
  proof -
    have "unat (of_nat (i * 4096) :: u64) = i * 4096" "unat (of_nat (j * 4096) :: u64) = j * 4096"
      using that m by (simp_all add: unat_of_nat del: of_nat_mult)
    then show ?thesis using that(3) by simp
  qed
  then show ?thesis by (auto simp: frun_def distinct_map inj_on_def)
qed

lemma pffree_consecutive_ok:
  assumes ok: "frames_ok s xs" and m: "m \<le> 2 ^ 20"
    and fr: "\<forall>x \<in> set (frun m p). page_aligned x \<and> x \<noteq> 0 \<and> x \<notin> set xs"
  shows "\<exists>s' ys. pffree_consecutive p (of_nat m) s = Some s' \<and> frames_ok s' ys \<and>
    set ys = set xs \<union> set (frun m p)"
proof -
  have "unat (of_nat m :: u32) = m" using m by (simp add: unat_of_nat)
  moreover have "\<forall>i. 0 \<le> i \<and> i < 0 + m \<longrightarrow> page_aligned (p + of_nat i * 4096) \<and>
      p + of_nat i * 4096 \<noteq> 0 \<and> p + of_nat i * 4096 \<notin> set xs"
    using fr by (auto simp: set_frun)
  ultimately show ?thesis
    using pffree_loop_ok [OF ok, of 0 m p] m distinct_frun [of m p]
    by (simp add: pffree_consecutive_def set_frun frun_def [symmetric])
qed

section \<open>The contract of a frame pool\<close>

text \<open>
  What the users of the pool (page tables, process creation, stacks) rely on: \<open>pool s F\<close> says that
  \<open>F\<close> is the set of free frames of \<open>s\<close>.
\<close>

primrec allocs :: "('s \<Rightarrow> u64 \<times> 's) \<Rightarrow> nat \<Rightarrow> 's \<Rightarrow> u64 list \<times> 's" where
  "allocs al 0 s = ([], s)"
| "allocs al (Suc k) s = (let (p, s1) = al s; (ps, s2) = allocs al k s1 in (p # ps, s2))"

locale frame_pool =
  fixes alloc :: "'s \<Rightarrow> u64 \<times> 's"
    and free :: "u64 \<Rightarrow> 's \<Rightarrow> 's option"
    and pool :: "'s \<Rightarrow> u64 set \<Rightarrow> bool"
  assumes pool_finite: "pool s F \<Longrightarrow> finite F"
    and pool_frames: "pool s F \<Longrightarrow> x \<in> F \<Longrightarrow> x \<noteq> 0 \<and> page_aligned x"
    and alloc_empty: "pool s {} \<Longrightarrow> alloc s = (0, s)"
    and alloc_some: "pool s F \<Longrightarrow> F \<noteq> {} \<Longrightarrow>
      fst (alloc s) \<in> F \<and> pool (snd (alloc s)) (F - {fst (alloc s)})"
    and free_ok: "pool s F \<Longrightarrow> p \<notin> F \<Longrightarrow> p \<noteq> 0 \<Longrightarrow> page_aligned p \<Longrightarrow>
      \<exists>s'. free p s = Some s' \<and> pool s' (insert p F)"
begin

lemma alloc_fresh:
  assumes "pool s F" and "fst (alloc s) \<noteq> 0"
  shows "fst (alloc s) \<in> F" and "pool (snd (alloc s)) (F - {fst (alloc s)})"
    and "page_aligned (fst (alloc s))"
proof -
  have "F \<noteq> {}" using assms alloc_empty by fastforce
  from alloc_some [OF assms(1) this] pool_frames [OF assms(1)]
  show "fst (alloc s) \<in> F" "pool (snd (alloc s)) (F - {fst (alloc s)})"
    "page_aligned (fst (alloc s))" by auto
qed

lemma alloc_zero: "pool s F \<Longrightarrow> fst (alloc s) = 0 \<longleftrightarrow> F = {}"
  using alloc_some [of s F] alloc_empty [of s] pool_frames [of s F] by fastforce

text \<open>As many allocations as there are free frames succeed, and no frame is handed out twice.\<close>

lemma allocs_distinct:
  assumes "pool s F" and "k \<le> card F"
  shows "distinct (fst (allocs alloc k s)) \<and> set (fst (allocs alloc k s)) \<subseteq> F \<and>
    length (fst (allocs alloc k s)) = k \<and>
    pool (snd (allocs alloc k s)) (F - set (fst (allocs alloc k s)))"
  using assms
proof (induction k arbitrary: s F)
  case 0
  then show ?case by simp
next
  case (Suc k)
  let ?p = "fst (alloc s)" and ?s = "snd (alloc s)"
  have fin: "finite F" using pool_finite Suc.prems(1) by blast
  have "F \<noteq> {}" using Suc.prems(2) by auto
  then have p: "?p \<in> F" "pool ?s (F - {?p})" using alloc_some [OF Suc.prems(1)] by auto
  have "k \<le> card (F - {?p})" using Suc.prems(2) p fin by simp
  note IH = Suc.IH [OF p(2) this]
  have "F - {?p} - set (fst (allocs alloc k ?s)) = F - insert ?p (set (fst (allocs alloc k ?s)))"
    by blast
  with IH p(1) show ?case by (auto simp: Let_def split_beta)
qed

end

definition pmm_pool :: "pmm \<Rightarrow> u64 set \<Rightarrow> bool" where
  "pmm_pool s F \<longleftrightarrow> (\<exists>xs. frames_ok s xs \<and> set xs = F)"

lemma frames_ok_sorted_eq:
  "frames_ok s xs \<Longrightarrow> sorted_wrt (<) ys \<Longrightarrow> set xs = set ys \<Longrightarrow> xs = ys"
  by (auto simp: frames_ok_def intro: strict_sorted_equal)

interpretation fp: frame_pool pfalloc_one pffree_one pmm_pool
proof
  fix s :: pmm and F :: "u64 set" and x
  assume "pmm_pool s F"
  then obtain xs where xs: "frames_ok s xs" "set xs = F" by (auto simp: pmm_pool_def)
  show "finite F" using xs(2) by (metis List.finite_set)
  show "x \<noteq> 0 \<and> page_aligned x" if "x \<in> F"
    using that xs frames_ok_zero [OF xs(1)] by (auto simp: frames_ok_def)
  show "fst (pfalloc_one s) \<in> F \<and> pmm_pool (snd (pfalloc_one s)) (F - {fst (pfalloc_one s)})"
    if "F \<noteq> {}"
  proof (cases xs)
    case (Cons y ys)
    have "y \<notin> set ys" using xs(1) Cons by (auto simp: frames_ok_def)
    then show ?thesis using pfalloc_one_ok(1,2) [of s y ys] xs Cons by (auto simp: pmm_pool_def)
  qed (use that xs in auto)
  show "\<exists>s'. pffree_one x s = Some s' \<and> pmm_pool s' (insert x F)"
    if "x \<notin> F" "x \<noteq> 0" "page_aligned x"
    using frame_insert_ok [OF xs(1), of x] that xs(2)
    by (fastforce simp: pffree_one_def frame_insert_post_def pmm_pool_def set_insort_key)
next
  fix s :: pmm
  assume "pmm_pool s {}"
  then have "frames_ok s []" by (auto simp: pmm_pool_def)
  then show "pfalloc_one s = (0, s)" by (rule pfalloc_one_empty)
qed

section \<open>The pool over its lifetime\<close>

definition pmm_inv :: "u64 set \<Rightarrow> pmm \<times> u64 set \<Rightarrow> bool" where
  "pmm_inv U c \<longleftrightarrow> (\<exists>F. pmm_pool (fst c) F \<and> F \<inter> snd c = {} \<and> F \<union> snd c = U)
    \<and> (\<forall>x \<in> U. x \<noteq> 0 \<and> page_aligned x)"

lemma pfalloc_consecutive_pool:
  assumes pl: "pmm_pool s F" and n: "n \<noteq> 0" and al: "pfalloc_consecutive n s = Some (p, s')"
  shows "if p = 0 then s' = s
    else set (frun (unat n) p) \<subseteq> F \<and> pmm_pool s' (F - set (frun (unat n) p))"
proof (cases "n = 1")
  case True
  show ?thesis
  proof (cases "F = {}")
    case empty: True
    then show ?thesis using pl al True fp.alloc_empty [of s]
      by (auto simp: pfalloc_consecutive_def split: if_splits)
  next
    case False
    then have "frame_list s \<noteq> 0" using pl frames_ok_empty by (auto simp: pmm_pool_def)
    then have "pfalloc_one s = (p, s')" using al True by (simp add: pfalloc_consecutive_def)
    then show ?thesis
      using fp.alloc_some [OF pl False] fp.pool_frames [OF pl] True by auto
  qed
next
  case False
  obtain xs where xs: "frames_ok s xs" "set xs = F" using pl by (auto simp: pmm_pool_def)
  have "unat n \<noteq> 0" "unat n \<noteq> 1" using n False 
    by (metis unat_eq_zero, metis unat_1 word_unat_eq_iff)
  then have m: "2 \<le> unat n" "unat n < 2 ^ 32" using unsigned_less [of n] by auto
  have r: "if p = 0 then s' = s else \<exists>as bs. xs = as @ frun (unat n) p @ bs \<and> frames_ok s' (as @ bs)"
    using pfalloc_consecutive_ok [OF xs(1) m] al by (auto split: if_splits)
  show ?thesis
  proof (cases "p = 0")
    case False
    with r obtain as bs where ab: "xs = as @ frun (unat n) p @ bs" "frames_ok s' (as @ bs)" by auto
    have "distinct xs" using xs(1) by (auto simp: frames_ok_def dest: dll_distinct)
    then have "set (as @ bs) = F - set (frun (unat n) p)" using ab(1) xs(2) by auto
    then show ?thesis using False ab xs(2) by (auto simp: pmm_pool_def)
  qed (use r in simp)
qed

lemma pmm_invI:
  "pmm_pool s F \<Longrightarrow> F \<inter> A = {} \<Longrightarrow> F \<union> A = U \<Longrightarrow> (\<forall>x \<in> U. x \<noteq> 0 \<and> page_aligned x) \<Longrightarrow>
    pmm_inv U (s, A)"
  by (auto simp: pmm_inv_def)

text \<open>A run that lies in a set of at most \<open>2 ^ 20\<close> frames has no more than \<open>2 ^ 20\<close> frames itself.\<close>

lemma run_in_small_set:
  fixes n :: u32
  assumes "set (frun (unat n) p) \<subseteq> U" and "finite U"
  shows "unat n \<le> card U"
proof -
  have "unat n \<le> 2 ^ 32" using unsigned_less [of n, where 'a = nat] by simp
  then have "card (set (frun (unat n) p)) = unat n"
    using distinct_card [OF distinct_frun] by (simp add: frun_def)
  then show ?thesis using card_mono [OF assms(2,1)] by simp
qed

lemma pmm_step_inv:
  "pmm_step lim c c' \<Longrightarrow> pmm_inv U c \<Longrightarrow> finite U \<Longrightarrow> lim \<le> 2 ^ 20 \<or> card U \<le> 2 ^ 20 \<Longrightarrow> pmm_inv U c'"
proof (induction rule: pmm_step.induct)
  case (alloc_one s p s' A)
  then obtain F where F: "pmm_pool s F" "F \<inter> A = {}" "F \<union> A = U" by (auto simp: pmm_inv_def)
  have "p \<in> F" "pmm_pool s' (F - {p})"
    using fp.alloc_fresh [OF F(1)] alloc_one by auto
  then show ?case using F alloc_one.prems by (intro pmm_invI [of _ "F - {p}"]) (auto simp: pmm_inv_def)
next
  case (alloc_one_fail s s' A)
  then show ?case by (auto simp: pfalloc_one_def Let_def split: if_splits)
next
  case (alloc_run n s p s' A)
  then obtain F where F: "pmm_pool s F" "F \<inter> A = {}" "F \<union> A = U" by (auto simp: pmm_inv_def)
  let ?R = "set (frun (unat n) p)"
  have "?R \<subseteq> F" "pmm_pool s' (F - ?R)"
    using pfalloc_consecutive_pool [OF F(1)] alloc_run by auto
  then show ?case using F alloc_run.prems by (intro pmm_invI [of _ "F - ?R"]) (auto simp: pmm_inv_def)
next
  case (alloc_run_fail n s s' A)
  then obtain F where "pmm_pool s F" by (auto simp: pmm_inv_def)
  from pfalloc_consecutive_pool [OF this alloc_run_fail(1,2)] alloc_run_fail show ?case by simp
next
  case (free_one p A s s')
  then obtain F where F: "pmm_pool s F" "F \<inter> A = {}" "F \<union> A = U" by (auto simp: pmm_inv_def)
  have p: "p \<notin> F" "p \<noteq> 0" "page_aligned p" using F free_one by (auto simp: pmm_inv_def)
  have "pmm_pool s' (insert p F)" using fp.free_ok [OF F(1) p] free_one by auto
  then show ?case using F free_one by (intro pmm_invI [of _ "insert p F"]) (auto simp: pmm_inv_def)
next
  case (free_run n p A s s')
  then obtain F where F: "pmm_pool s F" "F \<inter> A = {}" "F \<union> A = U" by (auto simp: pmm_inv_def)
  then obtain xs where xs: "frames_ok s xs" "set xs = F" by (auto simp: pmm_pool_def)
  let ?R = "set (frun (unat n) p)"
  have "\<forall>x \<in> ?R. page_aligned x \<and> x \<noteq> 0 \<and> x \<notin> set xs"
    using free_run F xs by (auto simp: pmm_inv_def)
  moreover have "unat n \<le> 2 ^ 20"
    using run_in_small_set [of n p U] free_run F(3) by (auto intro: le_trans)
  ultimately have "\<exists>s' ys. pffree_consecutive p n s = Some s' \<and> frames_ok s' ys \<and> set ys = set xs \<union> ?R"
    using pffree_consecutive_ok [OF xs(1), of "unat n" p] by simp
  with free_run(3) xs(2)
  have "pmm_pool s' (F \<union> ?R)" by (auto simp: pmm_pool_def)
  then show ?case using F free_run by (intro pmm_invI [of _ "F \<union> ?R"]) (auto simp: pmm_inv_def)
qed

lemma pmm_reachable_inv:
  "(pmm_step lim)\<^sup>*\<^sup>* c c' \<Longrightarrow> pmm_inv U c \<Longrightarrow> finite U \<Longrightarrow> lim \<le> 2 ^ 20 \<or> card U \<le> 2 ^ 20 \<Longrightarrow> pmm_inv U c'"
  by (induction rule: rtranclp_induct) (blast intro: pmm_step_inv)+

text \<open>
  Beyond this the 32-bit product \<open>b * ARCH_PAGE_SIZE\<close> wraps: the frame given back after \<open>2 ^ 20\<close>
  others is \<open>pf_first\<close> once more, not the frame that follows them.
\<close>

lemma pffree_loop_wraps:
  "pffree_loop (Suc k) p (2 ^ 20) s = (case pffree_one p s of None \<Rightarrow> None | Some s1 \<Rightarrow> pffree_loop k p (2 ^ 20 + 1) s1)"
  by (simp add: ARCH_PAGE_SIZE_def split: option.split)

section \<open>Boot\<close>

definition usable_frames :: "memmap_entry list \<Rightarrow> u64 list" where
  "usable_frames ents =
    concat (map (\<lambda>e. frun (unat (me_length e) div 4096) (me_base e))
      (filter (\<lambda>e. me_type e = LIMINE_MEMMAP_USABLE) ents))"

text \<open>
  How many of the \<open>n\<close> pages of a region the loop takes: the byte counter is 32 bits wide, so \<open>n - 1\<close> is
  known modulo \<open>2 ^ 20\<close> only, and the loop does not run if the upper half of that range makes it negative.
\<close>

definition region_pages :: "nat \<Rightarrow> nat" where
  "region_pages n = (let k = (n + (2 ^ 20 - 1)) mod 2 ^ 20 in if k < 2 ^ 19 then k + 1 else 0)"

definition boot_frames :: "memmap_entry list \<Rightarrow> u64 list" where
  "boot_frames ents =
    concat (map (\<lambda>e. frun (region_pages (unat (me_length e) div 4096)) (me_base e))
      (filter (\<lambda>e. me_type e = LIMINE_MEMMAP_USABLE) ents))"

definition whole_pages :: "memmap_entry list \<Rightarrow> bool" where
  "whole_pages ents \<longleftrightarrow> (\<forall>e \<in> set ents. me_type e = LIMINE_MEMMAP_USABLE \<longrightarrow> 4096 dvd unat (me_length e))"

lemma region_pages_small: "n \<le> 2 ^ 19 \<Longrightarrow> region_pages n = n"
proof (cases n)
  case (Suc k)
  moreover assume "n \<le> 2 ^ 19"
  ultimately have "(n + (2 ^ 20 - 1)) mod 2 ^ 20 = k" "k < 2 ^ 19" by (simp_all add: mod_if)
  then show ?thesis using Suc by (simp add: region_pages_def)
qed (simp add: region_pages_def)

lemma region_pages_large: "2 ^ 19 < n \<Longrightarrow> region_pages n < n"
  by (auto simp: region_pages_def Let_def)

lemma region_pages_eq: "region_pages n = n \<longleftrightarrow> n \<le> 2 ^ 19"
  using region_pages_small [of n] region_pages_large [of n] by linarith

lemma region_pages_le: "region_pages n \<le> n"
  using region_pages_small [of n] region_pages_large [of n] by linarith

lemma prefix_frun: "m \<le> n \<Longrightarrow> prefix (frun m p) (frun n p)"
proof -
  assume "m \<le> n"
  then have "[0..<n] = [0..<m] @ [m..<n]" using upt_add_eq_append [of 0 m "n - m"] by simp
  then show ?thesis by (simp add: frun_def)
qed

lemma subseq_imp_distinct: "subseq xs ys \<Longrightarrow> distinct ys \<Longrightarrow> distinct xs"
  by (induction xs ys rule: list_emb.induct) (auto dest: list_emb_set)

lemma boot_frames_subseq: "subseq (boot_frames ents) (usable_frames ents)"
proof (induction ents)
  case (Cons e ents)
  have "subseq (frun (region_pages n) p) (frun n p)" for n p
    by (rule prefix_imp_subseq) (rule prefix_frun [OF region_pages_le])
  then show ?case using Cons by (auto simp: boot_frames_def usable_frames_def intro: list_emb_append_mono)
qed (simp add: boot_frames_def usable_frames_def)

lemma boot_frames_usable:
  assumes "distinct (usable_frames ents)"
  shows "distinct (boot_frames ents)" and "set (boot_frames ents) \<subseteq> set (usable_frames ents)"
  using subseq_imp_distinct [OF boot_frames_subseq assms] list_emb_set [OF boot_frames_subseq [of ents]] by auto

lemma length_boot_frames:
  "length (boot_frames ents) = length (usable_frames ents) \<longleftrightarrow>
    (\<forall>e \<in> set ents. me_type e = LIMINE_MEMMAP_USABLE \<longrightarrow> unat (me_length e) div 4096 \<le> 2 ^ 19)"
proof (induction ents)
  case (Cons e ents)
  have le: "length (boot_frames ents) \<le> length (usable_frames ents)"
    using boot_frames_subseq [of ents] by (rule list_emb_length)
  show ?case using Cons le region_pages_le [of "unat (me_length e) div 4096"] region_pages_eq [of "unat (me_length e) div 4096"]
    by (auto simp: boot_frames_def usable_frames_def frun_def)
qed (simp add: boot_frames_def usable_frames_def)

text \<open>Boot takes all of the usable memory exactly when no usable region is longer than 2 GiB.\<close>

lemma boot_frames_eq:
  assumes "whole_pages ents"
  shows "boot_frames ents = usable_frames ents \<longleftrightarrow>
    (\<forall>e \<in> set ents. me_type e = LIMINE_MEMMAP_USABLE \<longrightarrow> unat (me_length e) \<le> 2 ^ 31)"
proof -
  have "boot_frames ents = usable_frames ents \<longleftrightarrow> length (boot_frames ents) = length (usable_frames ents)"
    using boot_frames_subseq [of ents] by (auto dest: subseq_same_length)
  moreover have "unat (me_length e) div 4096 \<le> 2 ^ 19 \<longleftrightarrow> unat (me_length e) \<le> 2 ^ 31"
    if "e \<in> set ents" "me_type e = LIMINE_MEMMAP_USABLE" for e
    using assms that by (auto simp: whole_pages_def dvd_def)
  ultimately show ?thesis using length_boot_frames [of ents] by auto
qed

lemma region_loop_ok:
  assumes "frames_ok s xs" and "\<forall>x \<in> set (frun j base). page_aligned x \<and> x \<noteq> 0 \<and> x \<notin> set xs"
    and "distinct (frun j base)"
  shows "\<exists>s' ys. region_loop base (int j * 4096 - 4096) s = Some s' \<and> frames_ok s' ys \<and>
    set ys = set xs \<union> set (frun j base) \<and> (\<forall>a. a \<notin> marker_words (set ys) \<longrightarrow> pmem s' a = pmem s a)"
  using assms
proof (induction j arbitrary: s xs)
  case 0
  then show ?case by (subst region_loop.simps) auto
next
  case (Suc j)
  let ?q = "base + of_nat j * 4096"
  have "?q \<notin> set xs" "?q \<noteq> 0" "page_aligned ?q" using Suc.prems(2) by auto
  then obtain s1 where s1: "frame_insert ?q s = Some s1" "frames_ok s1 (insort ?q xs)"
      "\<forall>a. a \<notin> marker_words (insert ?q (set xs)) \<longrightarrow> pmem s1 a = pmem s a"
    using frame_insert_ok [OF Suc.prems(1)] by (auto simp: frame_insert_post_def)
  have w: "(word_of_int (int j * 4096) :: u64) = of_nat j * 4096" by simp
  have "\<exists>s' ys. region_loop base (int j * 4096 - 4096) s1 = Some s' \<and> frames_ok s' ys \<and>
      set ys = set (insort ?q xs) \<union> set (frun j base) \<and> (\<forall>a. a \<notin> marker_words (set ys) \<longrightarrow> pmem s' a = pmem s1 a)"
    using Suc.prems(2,3) by (intro Suc.IH [OF s1(2)]) (auto simp: set_insort_key)
  then obtain s' ys where r: "region_loop base (int j * 4096 - 4096) s1 = Some s'"
      "frames_ok s' ys" "set ys = set (insort ?q xs) \<union> set (frun j base)"
      "\<forall>a. a \<notin> marker_words (set ys) \<longrightarrow> pmem s' a = pmem s1 a" by blast
  have "marker_words (insert ?q (set xs)) \<subseteq> marker_words (set ys)" using r(3) by (auto simp: marker_words_def set_insort_key)
  then have "pmem s' a = pmem s a" if "a \<notin> marker_words (set ys)" for a using that r(4) s1(3) by auto
  note mem = this
  have "region_loop base (int (Suc j) * 4096 - 4096) s = Some s'"
    using r(1) s1(1) w by (subst region_loop.simps) simp
  then show ?case using r(2,3) mem by (intro exI [of _ s'] exI [of _ ys]) (auto simp: set_insort_key)
qed

lemma region_first_byte_eq:
  "region_first_byte len = sint (word_of_int (uint len - 4096) :: u32)"
proof -
  have "len - ARCH_PAGE_SIZE = word_of_int (uint len - 4096)" by (simp add: ARCH_PAGE_SIZE_def)
  then show ?thesis by (simp add: region_first_byte_def ucast32_word_of_int del: of_int_diff)
qed

text \<open>
  A region longer than 2 GiB and at most 4 GiB: the loop variable starts out negative, so the loop
  body never runs.
\<close>

lemma region_first_byte_large:
  assumes "2 ^ 31 + 4096 \<le> unat len" and "unat len < 2 ^ 32 + 4096"
  shows "region_first_byte len < 0"
proof -
  have u: "2 ^ 31 + 4096 \<le> uint len" "uint len < 2 ^ 32 + 4096"
    using assms by (simp_all add: int_unat [symmetric] del: of_nat_unat)
  have "(word_of_int (uint len - 4096) :: u32) = word_of_int (uint len - 4096 - 2 ^ 32)" by simp
  then have "region_first_byte len = sint (word_of_int (uint len - 4096 - 2 ^ 32) :: u32)"
    unfolding region_first_byte_eq by (rule arg_cong)
  also have "\<dots> = uint len - 4096 - 2 ^ 32" using u by (intro sint32_word_of_int) simp_all
  finally show ?thesis using u by simp
qed

text \<open>In general: what the loop takes is \<open>region_pages\<close> of the pages of the region.\<close>

lemma sint32_mod:
  "sint (word_of_int i :: u32) = (i + 2 ^ 31) mod 2 ^ 32 - 2 ^ 31"
  by (simp add: signed_of_int signed_take_bit_eq_take_bit_shift take_bit_eq_mod)

lemma mod_mult_4096: "(4096 * a) mod (2 ^ 32 :: int) = 4096 * (a mod 2 ^ 20)"
  using mod_mult_mult1 [of 4096 a "2 ^ 20"] by simp

lemma half_shift_mod:
  assumes "0 \<le> k" and "k < 2 ^ 20"
  shows "(k + 2 ^ 19) mod 2 ^ 20 = (if k < 2 ^ 19 then k + 2 ^ 19 else k - 2 ^ 19 :: int)"
proof (cases "k < 2 ^ 19")
  case False
  then have "(k - 2 ^ 19) mod 2 ^ 20 = k - 2 ^ 19" using assms by (intro mod_pos_pos_trivial) auto
  moreover have "k + 2 ^ 19 = k - 2 ^ 19 + 2 ^ 20" by simp
  ultimately show ?thesis using False by (metis mod_add_self2)
qed (use assms in simp)

lemma region_first_byte_pages:
  assumes "4096 dvd unat len"
  shows "region_first_byte len = int (region_pages (unat len div 4096)) * 4096 - 4096 \<or>
    region_pages (unat len div 4096) = 0 \<and> region_first_byte len < 0"
proof -
  obtain n where n: "unat len = 4096 * n" using assms by (auto simp: dvd_def)
  then have u: "uint len = 4096 * int n" using int_unat [of len] by simp
  let ?k = "(n + (2 ^ 20 - 1)) mod 2 ^ 20"
  have k: "(int n - 1 + 2 ^ 19) mod 2 ^ 20 = (int ?k + 2 ^ 19) mod 2 ^ 20"
  proof -
    have "int ?k = (int n + (2 ^ 20 - 1)) mod 2 ^ 20" by (simp add: zmod_int)
    then have "(int ?k + 2 ^ 19) mod 2 ^ 20 = (int n + (2 ^ 20 - 1) + 2 ^ 19) mod 2 ^ 20" by (simp only: mod_add_left_eq)
    also have "int n + (2 ^ 20 - 1) + 2 ^ 19 = (int n - 1 + 2 ^ 19) + 2 ^ 20" by simp
    finally show ?thesis by (simp only: mod_add_self2)
  qed
  have "region_first_byte len = (4096 * (int n - 1 + 2 ^ 19)) mod 2 ^ 32 - 2 ^ 31"
    unfolding region_first_byte_eq u sint32_mod by (simp add: algebra_simps)
  also have "\<dots> = 4096 * ((int ?k + 2 ^ 19) mod 2 ^ 20) - 2 ^ 31" unfolding mod_mult_4096 k ..
  finally have f: "region_first_byte len = 4096 * ((int ?k + 2 ^ 19) mod 2 ^ 20) - 2 ^ 31" .
  have k2: "0 \<le> int ?k" "int ?k < 2 ^ 20" by simp_all
  have "(int ?k + 2 ^ 19) mod 2 ^ 20 = (if int ?k < 2 ^ 19 then int ?k + 2 ^ 19 else int ?k - 2 ^ 19)"
    using k2 by (rule half_shift_mod)
  with f have f': "region_first_byte len = (if ?k < 2 ^ 19 then 4096 * int ?k else 4096 * int ?k - 2 ^ 32)" by auto
  have d: "unat len div 4096 = n" using n by simp
  show ?thesis using f' k2 unfolding d region_pages_def Let_def by (auto simp: algebra_simps)
qed

lemma region_loop_pages:
  assumes "4096 dvd unat len"
  shows "region_loop base (region_first_byte len) s =
    region_loop base (int (region_pages (unat len div 4096)) * 4096 - 4096) s"
  using region_first_byte_pages [OF assms]
proof
  assume "region_pages (unat len div 4096) = 0 \<and> region_first_byte len < 0"
  then show ?thesis by (simp add: region_loop.simps)
qed simp

lemma whole_pages_rev [simp]: "whole_pages (rev ents) = whole_pages ents"
  by (simp add: whole_pages_def)

lemma memmap_loop_ok:
  assumes "frames_ok s xs" and "distinct (boot_frames ents)"
    and "\<forall>x \<in> set (boot_frames ents). page_aligned x \<and> x \<noteq> 0 \<and> x \<notin> set xs"
    and "whole_pages ents"
  shows "\<exists>s' ys. memmap_loop ents s = Some s' \<and> frames_ok s' ys \<and>
    set ys = set xs \<union> set (boot_frames ents) \<and> (\<forall>a. a \<notin> marker_words (set ys) \<longrightarrow> pmem s' a = pmem s a)"
  using assms
proof (induction ents arbitrary: s xs)
  case Nil
  then show ?case by (auto simp: boot_frames_def)
next
  case (Cons e ents)
  let ?j = "region_pages (unat (me_length e) div 4096)"
  have wh: "whole_pages ents" using Cons.prems(4) by (simp add: whole_pages_def)
  show ?case
  proof (cases "me_type e = LIMINE_MEMMAP_USABLE")
    case False
    then have u: "boot_frames (e # ents) = boot_frames ents" by (simp add: boot_frames_def)
    show ?thesis using Cons.IH [OF Cons.prems(1)] Cons.prems False wh by (simp add: u)
  next
    case True
    let ?r = "frun ?j (me_base e)"
    from True have u: "boot_frames (e # ents) = ?r @ boot_frames ents"
      by (simp add: boot_frames_def)
    have "4096 dvd unat (me_length e)" using Cons.prems(4) True by (simp add: whole_pages_def)
    note fb = region_loop_pages [OF this, of "me_base e"]
    have "\<forall>x \<in> set ?r. page_aligned x \<and> x \<noteq> 0 \<and> x \<notin> set xs" "distinct ?r"
      using Cons.prems(2,3) u by auto
    then obtain s1 ys where r: "region_loop (me_base e) (region_first_byte (me_length e)) s = Some s1"
        "frames_ok s1 ys" "set ys = set xs \<union> set ?r" "\<forall>a. a \<notin> marker_words (set ys) \<longrightarrow> pmem s1 a = pmem s a"
      using region_loop_ok [OF Cons.prems(1)] fb by metis
    have "\<exists>s' zs. memmap_loop ents s1 = Some s' \<and> frames_ok s' zs \<and>
        set zs = set ys \<union> set (boot_frames ents) \<and> (\<forall>a. a \<notin> marker_words (set zs) \<longrightarrow> pmem s' a = pmem s1 a)"
      using Cons.prems(2,3) wh u r(3) by (intro Cons.IH [OF r(2)]) auto
    then obtain s' zs where z: "memmap_loop ents s1 = Some s'" "frames_ok s' zs" "set zs = set ys \<union> set (boot_frames ents)"
        "\<forall>a. a \<notin> marker_words (set zs) \<longrightarrow> pmem s' a = pmem s1 a" by blast
    have "marker_words (set ys) \<subseteq> marker_words (set zs)" using z(3) by (auto simp: marker_words_def)
    then have "\<forall>a. a \<notin> marker_words (set zs) \<longrightarrow> pmem s' a = pmem s a" using z(4) r(4) by auto
    then show ?thesis using True r z u by (intro exI [of _ s'] exI [of _ zs]) auto
  qed
qed

lemma boot_frames_rev: "mset (boot_frames (rev ents)) = mset (boot_frames ents)"
  by (induction ents) (auto simp: boot_frames_def)

lemma boot_frames_rev_set:
  "set (boot_frames (rev ents)) = set (boot_frames ents)"
  "distinct (boot_frames (rev ents)) = distinct (boot_frames ents)"
  using boot_frames_rev [of ents] by (metis set_mset_mset, metis mset_eq_imp_distinct_iff)

section \<open>Properties\<close>

text \<open>A pool of three frames, two of them adjacent, for the concrete instances.\<close>

definition three_frames :: pmm where
  "three_frames = \<lparr>frame_list = 4096, free_frames = 3,
    pmem = (\<lambda>_. 0)(4096 := 8192, 8192 := 20480, 8200 := 4096, 20488 := 8192)\<rparr>"

lemma three_frames: "frames_ok three_frames [4096, 8192, 20480]"
  by (simp add: frames_ok_def three_frames_def dll_Cons fm_next_def fm_prev_def page_aligned_def)

lemma frun_2: "frun 2 p = [p, p + 4096]"
  by (simp add: frun_def upt_conv_Cons numeral_2_eq_2)

text \<open>
  Giving a frame back returns and keeps the free list sorted by address: the pool becomes the
  pool with the frame inserted at its place, the counter matches, and no memory is written except
  the two marker words of the free frames.
\<close>

theorem pffree_one_sorted_insert:
  assumes "frames_ok s xs" and "p \<notin> set xs" and "p \<noteq> 0" and "page_aligned p"
  shows "\<exists>s'. pffree_one p s = Some s' \<and> frames_ok s' (insort p xs) \<and>
    (\<forall>a. a \<in> marker_words (insert p (set xs)) \<or> pmem s' a = pmem s a)"
  using frame_insert_ok [OF assms] by (auto simp: pffree_one_def frame_insert_post_def)

theorem pffree_one_sorted_insert_witness:
  "\<exists>s'. pffree_one 12288 three_frames = Some s' \<and> frames_ok s' [4096, 8192, 12288, 20480]"
  using pffree_one_sorted_insert [OF three_frames, of 12288] by (auto simp: page_aligned_def)

text \<open>
  C2: \<open>pfalloc_consecutive\<close> is exact. It always returns; it returns NULL, and changes nothing,
  exactly when no \<open>m\<close> free frames have consecutive addresses, wherever they are in the pool;
  otherwise it returns the first of \<open>m\<close> consecutive free frames and cuts precisely these out of the
  sorted list, writing only marker words of frames still free.
\<close>

theorem pfalloc_consecutive_exact:
  assumes "frames_ok s xs" and "1 \<le> m" and "m < 2 ^ 32"
  shows "\<exists>p s'. pfalloc_consecutive (of_nat m) s = Some (p, s') \<and>
    (if \<exists>q. set (frun m q) \<subseteq> set xs
     then p \<noteq> 0 \<and> (\<exists>as bs. xs = as @ frun m p @ bs \<and> frames_ok s' (as @ bs) \<and>
       (\<forall>a. a \<in> marker_words (set (as @ bs)) \<or> pmem s' a = pmem s a))
     else p = 0 \<and> s' = s)"
proof (cases "m = 1")
  case False
  with assms obtain p s' where p: "pfalloc_consecutive (of_nat m) s = Some (p, s')"
      "if p = 0 then s' = s \<and> (\<forall>q. \<not> sublist (frun m q) xs)
       else \<exists>as bs. xs = as @ frun m p @ bs \<and> frames_ok s' (as @ bs) \<and>
         (\<forall>a. a \<notin> marker_words (set (as @ bs)) \<longrightarrow> pmem s' a = pmem s a)"
    using pfalloc_consecutive_ok [OF assms(1), of m] by auto
  have run: "set (frun m q) \<subseteq> set xs \<Longrightarrow> sublist (frun m q) xs" for q
    using assms(1) frun_subset_sublist [of xs m q] frames_ok_zero by (auto simp: frames_ok_def)
  show ?thesis
  proof (cases "p = 0")
    case True
    with p run show ?thesis by auto
  next
    case nz: False
    then obtain as bs where x: "xs = as @ frun m p @ bs" "frames_ok s' (as @ bs)"
        "\<forall>a. a \<notin> marker_words (set (as @ bs)) \<longrightarrow> pmem s' a = pmem s a"
      using p(2) by auto
    then have "\<exists>q. set (frun m q) \<subseteq> set xs" by auto
    with nz p(1) x show ?thesis by auto
  qed
next
  case True
  show ?thesis
  proof (cases xs)
    case Nil
    with assms(1) True frames_ok_empty [of s xs] show ?thesis
      by (simp add: pfalloc_consecutive_def)
  next
    case (Cons x ys)
    note one = pfalloc_one_ok [OF assms(1) [unfolded Cons]]
    have "x \<noteq> 0" "frame_list s \<noteq> 0"
      using assms(1) frames_ok_zero frames_ok_empty Cons by fastforce+
    then have "pfalloc_consecutive (of_nat m) s = Some (x, snd (pfalloc_one s))"
      using one(1) True by (simp add: pfalloc_consecutive_def prod_eq_iff)
    moreover have "\<exists>q. set (frun m q) \<subseteq> set xs" using Cons True by (intro exI [of _ x]) simp
    moreover have "xs = [] @ frun m x @ ys" using Cons True by simp
    moreover have "frames_ok (snd (pfalloc_one s)) ([] @ ys)" using one(2) by simp
    moreover have "\<forall>a. a \<in> marker_words (set ([] @ ys)) \<or> pmem (snd (pfalloc_one s)) a = pmem s a"
      using one(3) by auto
    ultimately show ?thesis using \<open>x \<noteq> 0\<close> 
      by (intro exI [of _ x] exI [of _ "snd (pfalloc_one s)"]) (simp only: if_True, blast)
  qed
qed

theorem pfalloc_consecutive_exact_witness:
  "(\<exists>p s'. pfalloc_consecutive 2 three_frames = Some (p, s') \<and> p \<noteq> 0) \<and>
    set (frun 2 4096) \<subseteq> {4096, 8192, 20480}"
proof -
  have sub: "set (frun 2 4096) \<subseteq> {4096, 8192, 20480}" by (simp add: frun_2)
  then have "\<exists>q. set (frun 2 q) \<subseteq> set [4096, 8192, 20480]" by (intro exI [of _ 4096]) simp
  with sub show ?thesis using pfalloc_consecutive_exact [OF three_frames, of 2] by auto
qed

text \<open>
  C15: taking a run of at most \<open>2^20\<close> frames and giving the same run back is the identity on the pool,
  whatever the run was.
\<close>

theorem run_roundtrip:
  assumes ok: "frames_ok s xs" and m: "1 \<le> m" "m \<le> 2 ^ 20"
    and al: "pfalloc_consecutive (of_nat m) s = Some (p, s')" and p: "p \<noteq> 0"
  shows "\<exists>s''. pffree_consecutive p (of_nat m) s' = Some s'' \<and> frames_ok s'' xs"
proof -
  have n: "of_nat m \<noteq> (0 :: u32)" "unat (of_nat m :: u32) = m"
    using m of_nat_u32_inj [of m 0] by (simp_all add: unat_of_nat)
  have pl: "pmm_pool s (set xs)" using ok by (auto simp: pmm_pool_def)
  from pfalloc_consecutive_pool [OF pl n(1) al] p n(2)
  have sub: "set (frun m p) \<subseteq> set xs" and "pmm_pool s' (set xs - set (frun m p))" by simp_all
  then obtain ys where ys: "frames_ok s' ys" "set ys = set xs - set (frun m p)"
    by (auto simp: pmm_pool_def)
  have "\<forall>x \<in> set (frun m p). page_aligned x \<and> x \<noteq> 0 \<and> x \<notin> set ys"
    using sub ys(2) ok frames_ok_zero [OF ok] by (auto simp: frames_ok_def)
  then obtain s'' zs where z: "pffree_consecutive p (of_nat m) s' = Some s''" "frames_ok s'' zs"
      "set zs = set ys \<union> set (frun m p)"
    using pffree_consecutive_ok [OF ys(1) m(2)] by metis
  have "set zs = set xs" using z(3) ys(2) sub by auto
  then have "zs = xs" using frames_ok_sorted_eq [OF z(2)] ok by (auto simp: frames_ok_def)
  with z show ?thesis by auto
qed

lemma three_frames_run: "\<exists>s'. pfalloc_consecutive 2 three_frames = Some (4096, s')"
  by (simp add: pfalloc_consecutive_def consecutive_loop.simps three_frames_def fm_next_def
      fm_prev_def ARCH_PAGE_SIZE_def)

lemma three_frames_cycle:
  "\<exists>s' s''. pfalloc_consecutive 2 three_frames = Some (4096, s') \<and>
    pffree_consecutive 4096 2 s' = Some s'' \<and> frames_ok s'' [4096, 8192, 20480]"
proof -
  obtain s' where s': "pfalloc_consecutive 2 three_frames = Some (4096, s')" using three_frames_run by blast
  have pl: "pmm_pool three_frames {4096, 8192, 20480}" using three_frames by (auto simp: pmm_pool_def)
  from pfalloc_consecutive_pool [OF pl _ s'] have "pmm_pool s' {20480}" by (simp add: frun_2 insert_Diff_if)
  then obtain ys where ys: "frames_ok s' ys" "set ys = {20480}" by (auto simp: pmm_pool_def)
  obtain s'' zs where z: "pffree_consecutive 4096 2 s' = Some s''" "frames_ok s'' zs" "set zs = {20480} \<union> {4096, 8192}"
    using pffree_consecutive_ok [OF ys(1), of 2 4096] ys(2) by (auto simp: frun_2 page_aligned_def)
  have "zs = [4096, 8192, 20480]" using z by (intro frames_ok_sorted_eq [OF z(2)]) auto
  with s' z show ?thesis by blast
qed

theorem run_roundtrip_witness:
  "\<exists>s' s''. pfalloc_consecutive 2 three_frames = Some (4096, s') \<and>
    pffree_consecutive 4096 2 s' = Some s'' \<and> frames_ok s'' [4096, 8192, 20480]"
  using run_roundtrip [OF three_frames, of 2 4096] three_frames_run by force

text \<open>
  C1: conservation. Over any sequence of allocations and frees (single frames and runs) that starts
  from a well-formed pool holding exactly \<open>U\<close> and frees only what was handed out, every frame of \<open>U\<close>
  is at each moment either in the pool or handed out and never both, so no frame is ever handed out
  twice, and the pool stays well formed. This needs that no single call gives back a run of more
  than \<open>2 ^ 20\<close> frames, which the code does not check: either the calls keep to that (\<open>lim\<close>), or \<open>U\<close> has
  at most \<open>2 ^ 20\<close> frames (4 GiB) and every call is allowed.
\<close>

theorem frames_conserved:
  assumes "(pmm_step lim)\<^sup>*\<^sup>* (s, {}) (s', A)" and "pmm_pool s U" and "lim \<le> 2 ^ 20 \<or> card U \<le> 2 ^ 20"
  shows "\<exists>F. pmm_pool s' F \<and> F \<inter> A = {} \<and> F \<union> A = U"
proof -
  have "pmm_inv U (s, {})" using assms(2) fp.pool_frames by (auto intro!: pmm_invI)
  moreover have "finite U" using assms(2) by (rule fp.pool_finite)
  ultimately show ?thesis using pmm_reachable_inv [OF assms(1) _ _ assms(3)] by (auto simp: pmm_inv_def)
qed

text \<open>With any limit: two frames are taken as a run and given back, and one is taken again.\<close>

theorem frames_conserved_witness:
  "\<exists>s' F. (pmm_step (2 ^ 32))\<^sup>*\<^sup>* (three_frames, {}) (s', {4096}) \<and> pmm_pool s' F \<and> F \<inter> {4096} = {} \<and>
    F \<union> {4096} = {4096, 8192, 20480}"
proof -
  obtain s1 s2 where 1: "pfalloc_consecutive 2 three_frames = Some (4096, s1)"
      and 2: "pffree_consecutive 4096 2 s1 = Some s2" "frames_ok s2 [4096, 8192, 20480]"
    using three_frames_cycle by blast
  let ?s = "snd (pfalloc_one s2)" and ?R = "set (frun (unat (2 :: u32)) 4096)"
  have 3: "pfalloc_one s2 = (4096, ?s)" using pfalloc_one_ok(1) [OF 2(2)] by (simp add: prod_eq_iff)
  have a: "pmm_step (2 ^ 32) (three_frames, {}) (s1, {} \<union> ?R)" using 1 by (intro pmm_step.alloc_run) simp_all
  have b: "pmm_step (2 ^ 32) (s1, {} \<union> ?R) (s2, {} \<union> ?R - ?R)" using 2(1) by (intro pmm_step.free_run) simp_all
  have c: "pmm_step (2 ^ 32) (s2, {} \<union> ?R - ?R) (?s, {4096})" using pmm_step.alloc_one [OF 3, of "2 ^ 32" "{}"] by simp
  have st: "(pmm_step (2 ^ 32))\<^sup>*\<^sup>* (three_frames, {}) (?s, {4096})"
    using a b c by (intro converse_rtranclp_into_rtranclp [of "pmm_step (2 ^ 32)", OF a]
      converse_rtranclp_into_rtranclp [of "pmm_step (2 ^ 32)", OF b] r_into_rtranclp [of "pmm_step (2 ^ 32)"])
  have "pmm_pool three_frames {4096, 8192, 20480}" using three_frames by (auto simp: pmm_pool_def)
  moreover have "card {4096, 8192, 20480 :: u64} \<le> 2 ^ 20" by simp
  ultimately obtain F where "pmm_pool ?s F \<and> F \<inter> {4096} = {} \<and> F \<union> {4096} = {4096, 8192, 20480}"
    using frames_conserved [OF st] by (meson disjI2)
  with st show ?thesis by (intro exI [of _ ?s] exI [of _ F] conjI) (elim conjE; assumption)+
qed

text \<open>
  C16: what boot puts into the pool, exactly and for regions of any length. If the usable regions are page
  aligned and disjoint, consist of whole pages and do not contain page 0, boot returns and the pool
  holds, each once and sorted, the frames of \<open>boot_frames\<close>: of a usable region with \<open>n\<close> pages
  the first \<open>region_pages n\<close>, which are all \<open>n\<close> up to 2 GiB and fewer beyond. So the pool is the whole usable
  memory if and only if every usable region is at most 2 GiB long.
\<close>

theorem boot_pool_is_usable_memory:
  assumes "frame_list s = 0" and "free_frames s = 0" and "distinct (usable_frames ents)"
    and "\<forall>x \<in> set (usable_frames ents). page_aligned x \<and> x \<noteq> 0" and "whole_pages ents"
  shows "\<exists>s'. x64_init_physical_memory ents s = Some s' \<and>
    frames_ok s' (sorted_list_of_set (set (boot_frames ents))) \<and>
    unat (free_frames s') = length (boot_frames ents) mod 2 ^ 64 \<and>
    (set (boot_frames ents) = set (usable_frames ents) \<longleftrightarrow>
      (\<forall>e \<in> set ents. me_type e = LIMINE_MEMMAP_USABLE \<longrightarrow> unat (me_length e) \<le> 2 ^ 31))"
proof -
  note bf = boot_frames_usable [OF assms(3)]
  have ok: "frames_ok s []" using assms(1,2) by (simp add: frames_ok_def)
  obtain s' ys where s': "memmap_loop (rev ents) s = Some s'" "frames_ok s' ys"
      "set ys = set (boot_frames ents)"
    using memmap_loop_ok [OF ok, of "rev ents"] bf assms(4,5) by (auto simp: boot_frames_rev_set)
  have ys: "ys = sorted_list_of_set (set (boot_frames ents))"
    using frames_ok_sorted_eq [OF s'(2)] s'(3) by simp
  have "length ys = length (boot_frames ents)" unfolding ys using bf(1) by (simp add: distinct_card)
  moreover have "set (boot_frames ents) = set (usable_frames ents) \<longleftrightarrow> boot_frames ents = usable_frames ents"
    using bf(1) assms(3) boot_frames_subseq [of ents] by (metis distinct_card subseq_same_length)
  ultimately show ?thesis using s' ys boot_frames_eq [OF assms(5)]
    by (auto simp: x64_init_physical_memory_def frames_ok_def unat_of_nat)
qed

definition small_memmap :: "memmap_entry list" where
  "small_memmap = [\<lparr>me_base = 0, me_length = 4096, me_type = 1\<rparr>,
    \<lparr>me_base = 4096, me_length = 8192, me_type = 0\<rparr>]"

lemma small_memmap_frames: "usable_frames small_memmap = [4096, 8192]"
  by (simp add: usable_frames_def small_memmap_def LIMINE_MEMMAP_USABLE_def frun_2)

definition pmm0 :: pmm where
  "pmm0 = \<lparr>frame_list = 0, free_frames = 0, pmem = \<lambda>_. 0\<rparr>"

lemma small_memmap_boot: "boot_frames small_memmap = [4096, 8192]" "whole_pages small_memmap"
  using boot_frames_eq [of small_memmap] unfolding small_memmap_frames
  by (auto simp: small_memmap_def whole_pages_def LIMINE_MEMMAP_USABLE_def)

theorem boot_pool_is_usable_memory_witness:
  "\<exists>s'. x64_init_physical_memory small_memmap pmm0 = Some s' \<and> frames_ok s' [4096, 8192]"
proof -
  have "sorted_list_of_set (set [4096, 8192 :: u64]) = [4096, 8192]"
    by (rule sorted_list_of_set.idem_if_sorted_distinct) simp_all
  then show ?thesis
    using boot_pool_is_usable_memory [of pmm0 small_memmap] small_memmap_boot(2)
    unfolding small_memmap_frames small_memmap_boot(1) by (auto simp: pmm0_def page_aligned_def)
qed

text \<open>
  The loop over a region counts down in an \<^verbatim>\<open>int\<close>. A usable region longer than 2 GiB and at most
  4 GiB contributes no frame at all: the boot of a memory map with only that region leaves the
  pool empty.
\<close>

theorem boot_drops_large_region:
  assumes "2 ^ 31 + 4096 \<le> unat len" and "unat len < 2 ^ 32 + 4096"
  shows "x64_init_physical_memory
    [\<lparr>me_base = base, me_length = len, me_type = LIMINE_MEMMAP_USABLE\<rparr>] s = Some s"
  using region_first_byte_large [OF assms]
  by (simp add: x64_init_physical_memory_def region_loop.simps)

theorem boot_drops_large_region_witness:
  "x64_init_physical_memory
    [\<lparr>me_base = 0x100000000, me_length = 0xC0000000, me_type = LIMINE_MEMMAP_USABLE\<rparr>] pmm0 = Some pmm0"
  using boot_drops_large_region [of "0xC0000000" "0x100000000" pmm0] by simp

end
