(* ===== verification/Paging.thy ===== *)
theory Paging
  imports Frames
begin

text \<open>
  Four-level page tables: \<^verbatim>\<open>arch/x64/memory/virt.c\<close>, \<^verbatim>\<open>arch/x64/memory/api.c\<close> and the entry macros of
  \<^verbatim>\<open>arch/x64/memory.h\<close>. The tables are page frames of the pool, so they live in the word memory
  \<open>pmem\<close> of the frame pool. The kernel reaches them through pointers in the address space that the
  boot loader set up; which physical word a pointer denotes is the parameter \<open>tr\<close>. What the code
  relies on is \<open>direct_map tr hhdm\<close>: physical memory is visible at its own address (\<open>pfalloc_one\<close>
  returns such pointers), with the bits \<open>HH_MASK\<close> set (\<open>PSE_GET_PTR\<close>) and at the offset \<open>hhdm\<close>
  (\<open>map_lookup\<close>). The TLB is not modelled: \<open>flush_tlb\<close> has no effect on the state.
\<close>

section \<open>Model\<close>

definition EGENERIC :: int where "EGENERIC = -1"
definition EINVARG :: int where "EINVARG = -2"
definition EIMPL :: int where "EIMPL = -3"
definition ENOMAP :: int where "ENOMAP = -4"
definition ENOMEM :: int where "ENOMEM = -5"

definition PSE_PRESENT :: u64 where "PSE_PRESENT = 1"
definition PSE_WRITABLE :: u64 where "PSE_WRITABLE = 2"
definition PSE_USER :: u64 where "PSE_USER = 4"
definition PSE_PAGESIZE :: u64 where "PSE_PAGESIZE = 0x80"
definition PSE_XD :: u64 where "PSE_XD = 0x8000000000000000"

definition HH_MASK :: u64 where
  "HH_MASK = 0xffff800000000000"

definition PSE_PTR :: "u64 \<Rightarrow> u64" where
  "PSE_PTR val = val AND 0x000ffffffffff000"

definition PSE_GET_PTR :: "u64 \<Rightarrow> u64" where
  "PSE_GET_PTR val = PSE_PTR val OR HH_MASK"

definition EXTRACT_PML4_INDEX :: "u64 \<Rightarrow> u64" where
  "EXTRACT_PML4_INDEX vaddr = drop_bit 39 vaddr AND 0x1ff"

definition EXTRACT_PML3_INDEX :: "u64 \<Rightarrow> u64" where
  "EXTRACT_PML3_INDEX vaddr = drop_bit 30 vaddr AND 0x1ff"

definition EXTRACT_PML2_INDEX :: "u64 \<Rightarrow> u64" where
  "EXTRACT_PML2_INDEX vaddr = drop_bit 21 vaddr AND 0x1ff"

definition EXTRACT_PML1_INDEX :: "u64 \<Rightarrow> u64" where
  "EXTRACT_PML1_INDEX vaddr = drop_bit 12 vaddr AND 0x1ff"

definition EXTRACT_4K_PAGE_OFFSET :: "u64 \<Rightarrow> u64" where
  "EXTRACT_4K_PAGE_OFFSET vaddr = vaddr AND 0xfff"

definition EXTRACT_2M_PAGE_OFFSET :: "u64 \<Rightarrow> u64" where
  "EXTRACT_2M_PAGE_OFFSET vaddr = vaddr AND 0x1fffff"

definition EXTRACT_1G_PAGE_OFFSET :: "u64 \<Rightarrow> u64" where
  "EXTRACT_1G_PAGE_OFFSET vaddr = vaddr AND 0x3fffffff"

text \<open>Reading and writing an 8-byte word through a pointer.\<close>

definition rd64 :: "(u64 \<Rightarrow> u64) \<Rightarrow> u64 \<Rightarrow> pmm \<Rightarrow> u64" where
  "rd64 tr p s = pmem s (tr p)"

definition wr64 :: "(u64 \<Rightarrow> u64) \<Rightarrow> u64 \<Rightarrow> u64 \<Rightarrow> pmm \<Rightarrow> pmm" where
  "wr64 tr p v s = s\<lparr>pmem := (pmem s)(tr p := v)\<rparr>"

text \<open>\<^verbatim>\<open>&table[i]\<close> for a table of 8-byte entries.\<close>

definition slot :: "u64 \<Rightarrow> u64 \<Rightarrow> u64" where
  "slot table i = table + 8 * i"

fun zero_loop :: "(u64 \<Rightarrow> u64) \<Rightarrow> u64 \<Rightarrow> nat \<Rightarrow> u64 \<Rightarrow> pmm \<Rightarrow> pmm" where
  "zero_loop tr table 0 i s = s"
| "zero_loop tr table (Suc k) i s = zero_loop tr table k (i + 1) (wr64 tr (slot table i) 0 s)"

definition zero_paging_table :: "(u64 \<Rightarrow> u64) \<Rightarrow> u64 \<Rightarrow> pmm \<Rightarrow> pmm" where
  "zero_paging_table tr table s = zero_loop tr table 512 0 s"

text \<open>
  The step that \<open>map_page_4k\<close> makes at each of the three upper levels, on the entry at pointer \<open>e\<close>:
  create the next table if the entry is not present (\<open>None\<close> is the return of \<open>ENOMEM\<close>), then add the
  flags, and give the pointer to the next table.
\<close>

definition next_table :: "(u64 \<Rightarrow> u64) \<Rightarrow> u32 \<Rightarrow> u64 \<Rightarrow> pmm \<Rightarrow> u64 option \<times> pmm" where
  "next_table tr flags e s =
    (let (ok, s1) =
       (if rd64 tr e s AND PSE_PRESENT = 0 then
          (let (new_table, s1) = pfalloc_one s
           in if new_table = 0 then (False, s1)
              else (True, wr64 tr e (PSE_PTR new_table) (zero_paging_table tr new_table s1)))
        else (True, s))
     in if \<not> ok then (None, s1)
        else (let s2 = wr64 tr e (rd64 tr e s1 OR (ucast flags OR PSE_PRESENT)) s1
              in (Some (PSE_GET_PTR (rd64 tr e s2)), s2)))"

definition map_page_4k ::
    "(u64 \<Rightarrow> u64) \<Rightarrow> u64 \<Rightarrow> u64 \<Rightarrow> u64 \<Rightarrow> u32 \<Rightarrow> pmm \<Rightarrow> int \<times> pmm" where
  "map_page_4k tr pml4_table phys virt flags s =
    (case next_table tr flags (slot pml4_table (EXTRACT_PML4_INDEX virt)) s of
       (None, s1) \<Rightarrow> (ENOMEM, s1)
     | (Some pml3_table, s1) \<Rightarrow>
       (let pml3_entry = slot pml3_table (EXTRACT_PML3_INDEX virt)
        in if rd64 tr pml3_entry s1 AND PSE_PAGESIZE \<noteq> 0 then (EGENERIC, s1)
           else (case next_table tr flags pml3_entry s1 of
             (None, s2) \<Rightarrow> (ENOMEM, s2)
           | (Some pml2_table, s2) \<Rightarrow>
             (let pml2_entry = slot pml2_table (EXTRACT_PML2_INDEX virt)
              in if rd64 tr pml2_entry s2 AND PSE_PAGESIZE \<noteq> 0 then (EGENERIC, s2)
                 else (case next_table tr flags pml2_entry s2 of
                   (None, s3) \<Rightarrow> (ENOMEM, s3)
                 | (Some pml1_table, s3) \<Rightarrow>
                   (0, wr64 tr (slot pml1_table (EXTRACT_PML1_INDEX virt))
                         (PSE_PTR phys OR ucast flags) s3))))))"

text \<open>
  \<open>map_lookup\<close> returns its result code and the value stored through \<open>phys_ret\<close>. The variables
  \<open>page_startaddr\<close> and \<open>page_offset\<close> are \<^verbatim>\<open>unsigned int\<close>.
\<close>

definition set_addr :: "u64 \<Rightarrow> u64 \<Rightarrow> int \<times> u64" where
  "set_addr startaddr offset = (0, ucast ((ucast startaddr :: u32) + (ucast offset :: u32)))"

definition map_lookup :: "(u64 \<Rightarrow> u64) \<Rightarrow> u64 \<Rightarrow> u64 \<Rightarrow> u64 \<Rightarrow> pmm \<Rightarrow> int \<times> u64" where
  "map_lookup tr hhdm_offset pml4_table virt s =
    (let pml4e = rd64 tr (slot pml4_table (EXTRACT_PML4_INDEX virt)) s
     in if pml4e AND PSE_PRESENT = 0 then (ENOMAP, 0)
        else
          (let pdpte = rd64 tr (slot (hhdm_offset + PSE_PTR pml4e) (EXTRACT_PML3_INDEX virt)) s
           in if pdpte AND PSE_PRESENT = 0 then (ENOMAP, 0)
              else if pdpte AND PSE_PAGESIZE \<noteq> 0
              then set_addr (PSE_PTR pdpte) (EXTRACT_1G_PAGE_OFFSET virt)
              else
                (let pdte = rd64 tr (slot (hhdm_offset + PSE_PTR pdpte) (EXTRACT_PML2_INDEX virt)) s
                 in if pdte AND PSE_PRESENT = 0 then (ENOMAP, 0)
                    else if pdte AND PSE_PAGESIZE \<noteq> 0
                    then set_addr (PSE_PTR pdte) (EXTRACT_2M_PAGE_OFFSET virt)
                    else
                      (let pte = rd64 tr (slot (hhdm_offset + PSE_PTR pdte) (EXTRACT_PML1_INDEX virt)) s
                       in if pte AND PSE_PRESENT = 0 then (ENOMAP, 0)
                          else set_addr (PSE_PTR pte) (EXTRACT_4K_PAGE_OFFSET virt)))))"

text \<open>
  \<open>tmpmap\<close>: the scratch page \<open>_FORS_KERNEL_TEMP_MAP_PAGE\<close> and the kernel's root table are arguments.
\<close>

definition tmpmap :: "(u64 \<Rightarrow> u64) \<Rightarrow> u64 \<Rightarrow> u64 \<Rightarrow> u64 \<Rightarrow> pmm \<Rightarrow> u64 \<times> pmm" where
  "tmpmap tr kernel_pml4_table temp_page pa s =
    (let (r, s1) = map_page_4k tr kernel_pml4_table pa temp_page (ucast (PSE_PRESENT OR PSE_WRITABLE)) s
     in (if r < 0 then 0 else temp_page, s1))"

definition VMAP_EXEC :: u32 where "VMAP_EXEC = 1"
definition VMAP_USER :: u32 where "VMAP_USER = 2"
definition VMAP_WRIT :: u32 where "VMAP_WRIT = 4"
definition VMAP_4K :: u32 where "VMAP_4K = 8"

text \<open>
  \<open>vmap\<close>. The page tables of the processes are the argument \<open>roots\<close>: \<open>roots i = Some cr3\<close> when slot \<open>i\<close>
  of \<open>procs\<close> is present. A \<open>pid\<close> outside the table is an out-of-bounds read, \<open>None\<close>. The flags are
  collected in 64 bits and passed to \<open>map_page_4k\<close> as an \<^verbatim>\<open>unsigned int\<close>.
\<close>

definition vmap_flags :: "u32 \<Rightarrow> u64" where
  "vmap_flags flags =
    (if flags AND VMAP_USER \<noteq> 0 then PSE_USER else 0) OR
    (if flags AND VMAP_WRIT \<noteq> 0 then PSE_WRITABLE else 0) OR
    (if flags AND VMAP_EXEC = 0 then PSE_XD else 0)"

definition vmap ::
    "(u64 \<Rightarrow> u64) \<Rightarrow> u64 \<Rightarrow> u64 option list \<Rightarrow> int \<Rightarrow> u64 \<Rightarrow> u64 \<Rightarrow> u32 \<Rightarrow> pmm \<Rightarrow> (int \<times> pmm) option" where
  "vmap tr kernel_pml4_table roots pid pa va flags s =
    (let go = (\<lambda>root_table.
       if flags AND VMAP_4K \<noteq> 0
       then map_page_4k tr root_table pa va (ucast (vmap_flags flags OR PSE_PRESENT)) s
       else (EIMPL, s))
     in if pid = -1 then Some (go kernel_pml4_table)
        else if pid < 0 \<or> int (length roots) \<le> pid then None
        else (case roots ! nat pid of None \<Rightarrow> Some (EINVARG, s) | Some cr3 \<Rightarrow> Some (go cr3)))"

text \<open>\<open>allocate_stack\<close>: the end of a fresh frame in the direct map; the frame may be NULL.\<close>

definition allocate_stack :: "u64 \<Rightarrow> pmm \<Rightarrow> u64 \<times> pmm" where
  "allocate_stack hhdm_offset s = (let (f, s1) = pfalloc_one s in (hhdm_offset + f + ARCH_PAGE_SIZE, s1))"

text \<open>Start-up: the kernel's root table as a pointer into the direct map, and the map's offset.\<close>

definition x64_init_virtual_memory :: "u64 \<Rightarrow> u64 \<Rightarrow> u64 \<times> u64" where
  "x64_init_virtual_memory response_offset cr3 = (response_offset + cr3, response_offset)"

text \<open>\<^verbatim>\<open>api.c\<close>\<close>

definition vunmap :: "int \<Rightarrow> u64 \<Rightarrow> int \<Rightarrow> int" where
  "vunmap pid va len = -1"

definition vget_mapping ::
    "(u64 \<Rightarrow> u64) \<Rightarrow> u64 \<Rightarrow> u64 option list \<Rightarrow> int \<Rightarrow> u64 \<Rightarrow> pmm \<Rightarrow> u64 option" where
  "vget_mapping tr hhdm_offset roots pid va s =
    (if pid < 0 \<or> int (length roots) \<le> pid then None
     else (case roots ! nat pid of
             None \<Rightarrow> Some 0
           | Some cr3 \<Rightarrow> (let (r, phys_addr) = map_lookup tr hhdm_offset cr3 va s
                           in Some (if r \<noteq> 0 then 0 else phys_addr))))"

definition vis_mapped_to ::
    "(u64 \<Rightarrow> u64) \<Rightarrow> u64 \<Rightarrow> u64 option list \<Rightarrow> int \<Rightarrow> u64 \<Rightarrow> u64 \<Rightarrow> pmm \<Rightarrow> bool option" where
  "vis_mapped_to tr hhdm_offset roots pid va pa s =
    (case vget_mapping tr hhdm_offset roots pid va s of
       None \<Rightarrow> None
     | Some actual_pa \<Rightarrow> Some (if actual_pa = 0 then False else actual_pa = pa))"

section \<open>Abstraction: tables, entries and the walk\<close>

definition direct_map :: "(u64 \<Rightarrow> u64) \<Rightarrow> u64 \<Rightarrow> bool" where
  "direct_map tr hhdm \<longleftrightarrow> (\<forall>p off. page_aligned p \<and> p < 2 ^ 47 \<and> off < 4096 \<longrightarrow>
    tr (p + off) = p + off \<and> tr ((p OR HH_MASK) + off) = p + off \<and> tr (hhdm + p + off) = p + off)"

definition points_to :: "(u64 \<Rightarrow> u64) \<Rightarrow> u64 \<Rightarrow> u64 \<Rightarrow> bool" where
  "points_to tr P t \<longleftrightarrow> (\<forall>i < 512. tr (slot P i) = slot t i)"

definition ent :: "pmm \<Rightarrow> u64 \<Rightarrow> u64 \<Rightarrow> u64" where
  "ent s t i = pmem s (slot t i)"

definition pse_present :: "u64 \<Rightarrow> bool" where
  "pse_present e \<longleftrightarrow> e AND PSE_PRESENT \<noteq> 0"

definition huge :: "nat \<Rightarrow> u64 \<Rightarrow> bool" where
  "huge k e \<longleftrightarrow> k \<le> 3 \<and> e AND PSE_PAGESIZE \<noteq> 0"

text \<open>The index of a virtual address at each level.\<close>

definition vix :: "u64 \<Rightarrow> nat \<Rightarrow> u64" where
  "vix v k = (if k = 4 then EXTRACT_PML4_INDEX v else if k = 3 then EXTRACT_PML3_INDEX v
    else if k = 2 then EXTRACT_PML2_INDEX v else EXTRACT_PML1_INDEX v)"

text \<open>The level at which the walk from table \<open>t\<close> of level \<open>k\<close> ends, and the entry found there.\<close>

fun walk :: "pmm \<Rightarrow> nat \<Rightarrow> u64 \<Rightarrow> (nat \<Rightarrow> u64) \<Rightarrow> (nat \<times> u64) option" where
  "walk s 0 t ix = None"
| "walk s (Suc k) t ix =
    (let e = ent s t (ix (Suc k))
     in if \<not> pse_present e then None
        else if k = 0 \<or> huge (Suc k) e then Some (Suc k, e)
        else walk s k (PSE_PTR e) ix)"

definition lookup_result :: "u64 \<Rightarrow> (nat \<times> u64) option \<Rightarrow> int \<times> u64" where
  "lookup_result v r = (case r of None \<Rightarrow> (ENOMAP, 0)
    | Some (k, e) \<Rightarrow> set_addr (PSE_PTR e)
        (if k = 3 then EXTRACT_1G_PAGE_OFFSET v else if k = 2 then EXTRACT_2M_PAGE_OFFSET v
         else EXTRACT_4K_PAGE_OFFSET v))"

text \<open>
  The tables form a tree. \<open>lv\<close> gives the level of every table frame and \<open>own\<close> the slot that refers to
  it: every present entry that is not a large page leads to a table of the next level which only
  that slot owns. No table is in the pool of free frames \<open>F\<close>.
\<close>

definition tables_ok :: "pmm \<Rightarrow> u64 set \<Rightarrow> (u64 \<Rightarrow> nat option) \<Rightarrow> (u64 \<Rightarrow> u64 \<times> u64) \<Rightarrow> bool" where
  "tables_ok s F lv own \<longleftrightarrow>
    (\<forall>t k. lv t = Some k \<longrightarrow> page_aligned t \<and> t < 2 ^ 47 \<and> t \<notin> F \<and> 1 \<le> k \<and> k \<le> 4 \<and>
      (\<forall>i < 512. 2 \<le> k \<and> pse_present (ent s t i) \<and> \<not> huge k (ent s t i) \<longrightarrow>
        lv (PSE_PTR (ent s t i)) = Some (k - 1) \<and> own (PSE_PTR (ent s t i)) = (t, i)))"

definition pt_ok :: "pmm \<Rightarrow> u64 set \<Rightarrow> (u64 \<Rightarrow> nat option) \<Rightarrow> (u64 \<Rightarrow> u64 \<times> u64) \<Rightarrow> bool" where
  "pt_ok s F lv own \<longleftrightarrow> pmm_pool s F \<and> (\<forall>f \<in> F. f < 2 ^ 47) \<and> tables_ok s F lv own"

section \<open>Entries\<close>

lemma index_bound [simp]:
  "EXTRACT_PML4_INDEX v < 512" "EXTRACT_PML3_INDEX v < 512" "EXTRACT_PML2_INDEX v < 512"
  "EXTRACT_PML1_INDEX v < 512"
proof -
  have "(x AND 0x1ff :: u64) < 512" for x
  proof -
    have "x AND 0x1ff \<le> 0x1ff" by (rule word_and_le1)
    also have "(0x1ff :: u64) < 512" by simp
    finally show ?thesis .
  qed
  then show "EXTRACT_PML4_INDEX v < 512" "EXTRACT_PML3_INDEX v < 512" "EXTRACT_PML2_INDEX v < 512"
    "EXTRACT_PML1_INDEX v < 512"
    by (simp_all add: EXTRACT_PML4_INDEX_def EXTRACT_PML3_INDEX_def EXTRACT_PML2_INDEX_def
        EXTRACT_PML1_INDEX_def)
qed

lemma vix_bound [simp]: "vix v k < 512"
  by (simp add: vix_def)

lemma bit_PSE_PTR: "bit (PSE_PTR v) n \<longleftrightarrow> bit v n \<and> 12 \<le> n \<and> n < 52"
proof -
  have "(0x000ffffffffff000 :: u64) = push_bit 12 (mask 40)"
    by (simp add: mask_eq_exp_minus_1 push_bit_eq_mult)
  then have "PSE_PTR v = v AND push_bit 12 (mask 40)" by (simp only: PSE_PTR_def)
  then show ?thesis by (auto simp: bit_simps)
qed

lemma page_aligned_bits: "page_aligned p \<Longrightarrow> n < 12 \<Longrightarrow> \<not> bit p n"
proof -
  assume "page_aligned p" "n < 12"
  then have "2 ^ 12 dvd unat p" by (simp add: page_aligned_def)
  then have "take_bit 12 (unat p) = 0" by (simp add: take_bit_eq_mod mod_eq_0_iff_dvd)
  then have "\<not> bit (take_bit 12 (unat p)) n" by simp
  then have "\<not> bit (unat p) n" using \<open>n < 12\<close> by (simp add: bit_take_bit_iff)
  then show ?thesis using \<open>n < 12\<close> bit_unsigned_iff [of p n, where 'a = nat] by simp
qed

lemma below_bits: "(p :: u64) < 2 ^ 47 \<Longrightarrow> 47 \<le> n \<Longrightarrow> \<not> bit p n"
proof -
  assume "p < 2 ^ 47" "47 \<le> n"
  then have "unat p < 2 ^ 47" by (simp add: word_less_nat_alt)
  then have "take_bit 47 (unat p) = unat p" by (simp add: take_bit_nat_eq_self)
  then have "\<not> bit (unat p) n" using \<open>47 \<le> n\<close> by (metis bit_take_bit_iff not_less)
  then show ?thesis using bit_unsigned_iff [of p n, where 'a = nat] by simp
qed

lemma PSE_PTR_frame: "page_aligned p \<Longrightarrow> p < 2 ^ 47 \<Longrightarrow> PSE_PTR p = p"
proof (rule bit_word_eqI)
  fix n
  assume "page_aligned p" "p < 2 ^ 47"
  then show "bit (PSE_PTR p) n = bit p n"
    using page_aligned_bits [of p n] below_bits [of p n]
    by (cases "n < 12"; cases "47 \<le> n") (auto simp: bit_PSE_PTR)
qed

text \<open>Flags as \<open>vmap\<close> makes them: below bit 12 and without the page-size bit.\<close>

definition flags_ok :: "u32 \<Rightarrow> bool" where
  "flags_ok flags \<longleftrightarrow> flags < 0x1000 \<and> \<not> bit flags 7"

lemma bit_flags: "(flags :: u32) < 0x1000 \<Longrightarrow> bit (ucast flags :: u64) n \<longleftrightarrow> bit flags n \<and> n < 12"
proof -
  assume "flags < 0x1000"
  then have "unat flags < 2 ^ 12" by (simp add: word_less_nat_alt)
  then have t: "take_bit 12 (unat flags) = unat flags" by (simp add: take_bit_nat_eq_self)
  have "bit flags n \<Longrightarrow> n < 12"
  proof -
    assume b: "bit flags n"
    then have "n < 32" using bit_imp_le_length by fastforce
    then have "bit (unat flags) n" using b bit_unsigned_iff [of flags n, where 'a = nat] by simp
    then have "bit (take_bit 12 (unat flags)) n" by (simp only: t)
    then show ?thesis by (simp add: bit_take_bit_iff)
  qed
  then show ?thesis by (auto simp: bit_simps)
qed

lemma PTR_or_flags: "(flags :: u32) < 0x1000 \<Longrightarrow> PSE_PTR (e OR (ucast flags OR PSE_PRESENT)) = PSE_PTR e"
  by (rule bit_word_eqI) (auto simp: bit_PSE_PTR bit_or_iff bit_flags PSE_PRESENT_def bit_1_iff)

lemma PTR_leaf: "(flags :: u32) < 0x1000 \<Longrightarrow> PSE_PTR (PSE_PTR p OR ucast flags) = PSE_PTR p"
  by (rule bit_word_eqI) (auto simp: bit_PSE_PTR bit_or_iff bit_flags)

lemma pse_present_bit: "pse_present e \<longleftrightarrow> bit e 0"
  unfolding pse_present_def PSE_PRESENT_def by (simp add: and_one_eq odd_iff_mod_2_eq_one bit_0)

lemma pagesize_bit: "e AND PSE_PAGESIZE \<noteq> 0 \<longleftrightarrow> bit e 7"
proof -
  have "PSE_PAGESIZE = push_bit 7 1" by (simp add: PSE_PAGESIZE_def)
  then have "e AND PSE_PAGESIZE = e AND push_bit 7 1" by (simp only:)
  then have b: "bit (e AND PSE_PAGESIZE) n \<longleftrightarrow> n = 7 \<and> bit e 7" for n
    by (auto simp only: bit_and_iff bit_push_bit_iff bit_1_iff) auto
  show ?thesis
  proof
    assume "e AND PSE_PAGESIZE \<noteq> 0"
    then obtain n where "bit (e AND PSE_PAGESIZE) n" by (metis bit_eqI bit_0_eq bot_apply bot_bool_def)
    with b show "bit e 7" by blast
  next
    assume "bit e 7"
    then have "bit (e AND PSE_PAGESIZE) 7" by (simp only: b)
    then show "e AND PSE_PAGESIZE \<noteq> 0" by auto
  qed
qed

lemma huge_bit: "huge k e \<longleftrightarrow> k \<le> 3 \<and> bit e 7"
  by (simp add: huge_def pagesize_bit)

lemma or_flags:
  assumes "flags_ok flags"
  shows "pse_present (e OR (ucast flags OR PSE_PRESENT))"
    and "huge k (e OR (ucast flags OR PSE_PRESENT)) = huge k e"
    and "PSE_PTR (e OR (ucast flags OR PSE_PRESENT)) = PSE_PTR e"
  using assms
  by (auto simp: flags_ok_def pse_present_bit huge_bit bit_or_iff PSE_PRESENT_def bit_1_iff bit_flags PTR_or_flags [unfolded PSE_PRESENT_def])

section \<open>Slots of page-aligned tables\<close>

lemma unat_page_offset:
  assumes "page_aligned t" and "a < 4096"
  shows "unat (t + a) = unat t + unat a" and "unat a < 4096"
proof -
  show a: "unat a < 4096" using assms(2) by (simp add: word_less_nat_alt)
  have lt: "unat t < 2 ^ 64" using unsigned_less [of t] by simp
  have "4096 dvd (2 ^ 64 :: nat) - unat t"
    using assms(1) by (intro dvd_diff_nat) (simp_all add: page_aligned_def)
  then have "4096 \<le> (2 ^ 64 :: nat) - unat t" using lt by (intro dvd_imp_le) auto
  with a lt show "unat (t + a) = unat t + unat a" by (simp add: unat_word_ariths)
qed

lemma page_offset_inj:
  assumes "page_aligned t" and "page_aligned u" and "a < 4096" and "b < 4096" and "t + a = u + b"
  shows "t = u" and "a = b"
proof -
  obtain x y where xy: "unat t = 4096 * x" "unat u = 4096 * y"
    using assms(1,2) by (auto simp: page_aligned_def dvd_def)
  have e: "4096 * x + unat a = 4096 * y + unat b"
    using unat_page_offset(1) [OF assms(1,3)] unat_page_offset(1) [OF assms(2,4)] xy assms(5) by simp
  have ab: "unat a < 4096" "unat b < 4096" using assms(3,4) unat_page_offset(2) by (auto simp: word_less_nat_alt)
  have "(4096 * x + unat a) div 4096 = x" "(4096 * y + unat b) div 4096 = y" using ab by simp_all
  with e have "x = y" by metis
  with e xy show "t = u" "a = b" by (simp_all add: word_unat_eq_iff)
qed

lemma slot_offset: "i < 512 \<Longrightarrow> 8 * i < (4096 :: u64)"
  and unat_slot_offset: "i < (512 :: u64) \<Longrightarrow> unat (8 * i) = 8 * unat i"
proof -
  show u: "unat (8 * i) = 8 * unat i" if "i < (512 :: u64)" for i
    using that by (simp add: word_less_nat_alt unat_word_ariths)
  show "8 * i < (4096 :: u64)" if "i < 512" for i
    using that u [OF that] by (simp add: word_less_nat_alt)
qed

lemma slot_eq_iff:
  assumes "page_aligned t" and "page_aligned u" and "i < 512" and "j < 512"
  shows "slot t i = slot u j \<longleftrightarrow> t = u \<and> i = j"
proof
  assume "slot t i = slot u j"
  then have "t = u" "8 * i = 8 * j"
    using page_offset_inj [OF assms(1,2), of "8 * i" "8 * j"] slot_offset assms(3,4) by (auto simp: slot_def)
  moreover from this(2) have "8 * unat i = 8 * unat j" using unat_slot_offset assms(3,4) by metis
  ultimately show "t = u \<and> i = j" by (simp add: word_unat_eq_iff)
qed simp

lemma slot_notin_markers:
  assumes "page_aligned t" and "i < 512" and "t \<notin> F" and "\<And>f. f \<in> F \<Longrightarrow> page_aligned f"
  shows "slot t i \<notin> marker_words F"
proof
  assume "slot t i \<in> marker_words F"
  then obtain f b where f: "f \<in> F" "b < 4096" "slot t i = f + b"
    unfolding marker_words_def by fastforce
  then have "t = f"
    using page_offset_inj(1) [OF assms(1) assms(4) [OF f(1)] slot_offset [OF assms(2)] f(2)] by (simp add: slot_def)
  with f(1) assms(3) show False by simp
qed

text \<open>A change of memory outside the markers of the free frames keeps the pool.\<close>

lemma pool_frame:
  assumes "pmm_pool s F" and "frame_list s' = frame_list s" and "free_frames s' = free_frames s"
    and "\<And>a. a \<in> marker_words F \<Longrightarrow> pmem s' a = pmem s a"
  shows "pmm_pool s' F"
proof -
  obtain xs where xs: "frames_ok s xs" "set xs = F" using assms(1) by (auto simp: pmm_pool_def)
  have "\<forall>x \<in> set xs. fm_next s' x = fm_next s x \<and> fm_prev s' x = fm_prev s x"
    using assms(4) xs(2) by (auto simp: fm_next_def fm_prev_def)
  then have "frames_ok s' xs"
    using xs(1) assms(2,3) dll_cong [of xs "fm_next s'" "fm_next s" "fm_prev s'" "fm_prev s"]
    by (simp add: frames_ok_def)
  with xs(2) show ?thesis by (auto simp: pmm_pool_def)
qed

lemma wr64_ent:
  assumes "tr e = slot t i" and "page_aligned t" and "i < 512" and "page_aligned u" and "j < 512"
  shows "ent (wr64 tr e v s) u j = (if (u, j) = (t, i) then v else ent s u j)"
  using slot_eq_iff [OF assms(4,2,5,3)] assms(1) by (auto simp: ent_def wr64_def)

lemma wr64_pool:
  assumes "pmm_pool s F" and "tr e = slot t i" and "page_aligned t" and "i < 512" and "t \<notin> F"
  shows "pmm_pool (wr64 tr e v s) F"
proof (rule pool_frame [OF assms(1)])
  fix a
  assume "a \<in> marker_words F"
  moreover have "slot t i \<notin> marker_words F"
    using assms fp.pool_frames [OF assms(1)] by (intro slot_notin_markers) auto
  ultimately show "pmem (wr64 tr e v s) a = pmem s a" using assms(2) by (auto simp: wr64_def)
qed (simp_all add: wr64_def)

lemma zero_loop_ok:
  assumes dm: "direct_map tr hhdm" and n: "page_aligned n" "n < 2 ^ 47" "n \<notin> F" and "pmm_pool s F"
    and "i + k \<le> 512"
  shows "pmm_pool (zero_loop tr n k (of_nat i) s) F \<and>
    (\<forall>u j. page_aligned u \<and> j < 512 \<longrightarrow> ent (zero_loop tr n k (of_nat i) s) u j =
      (if u = n \<and> i \<le> unat j \<and> unat j < i + k then 0 else ent s u j))"
  using assms(5,6)
proof (induction k arbitrary: i s)
  case 0
  then show ?case by auto
next
  case (Suc k)
  have i: "(of_nat i :: u64) < 512" "unat (of_nat i :: u64) = i"
    using Suc.prems(2) by (simp_all add: word_less_nat_alt unat_of_nat)
  have sl: "tr (slot n (of_nat i)) = slot n (of_nat i)"
    using dm n slot_offset [OF i(1)] by (auto simp: direct_map_def slot_def)
  have w: "pmm_pool (wr64 tr (slot n (of_nat i)) 0 s) F"
    using wr64_pool [of s F tr "slot n (of_nat i)" n "of_nat i" 0] Suc.prems(1) sl n i(1) by blast
  have we: "ent (wr64 tr (slot n (of_nat i)) 0 s) u j = (if (u, j) = (n, of_nat i) then 0 else ent s u j)"
    if "page_aligned u" "j < 512" for u j
    using wr64_ent [of tr "slot n (of_nat i)" n "of_nat i" u j] sl n(1) i(1) that by blast
  have z: "zero_loop tr n (Suc k) (of_nat i) s =
      zero_loop tr n k (of_nat (Suc i)) (wr64 tr (slot n (of_nat i)) 0 s)"
    by (simp add: add.commute)
  have j: "j = of_nat i \<longleftrightarrow> unat j = i" for j :: u64 using i(2) by (metis word_unat_eq_iff)
  show ?case unfolding z using Suc.IH [OF w, of "Suc i"] Suc.prems(2) we j by auto
qed

section \<open>One level of the tree\<close>

lemma walk_cong:
  assumes tb: "tables_ok s F lv own" and ix: "\<And>k. ix k < 512"
    and rel: "\<And>u k j. lv u = Some k \<Longrightarrow> j < 512 \<Longrightarrow> ent s1 u j = ent s u j \<or>
      (2 \<le> k \<and> pse_present (ent s1 u j) \<and> \<not> huge k (ent s1 u j) \<and>
        (if pse_present (ent s u j)
         then \<not> huge k (ent s u j) \<and> PSE_PTR (ent s1 u j) = PSE_PTR (ent s u j)
         else \<forall>j' < 512. \<not> pse_present (ent s1 (PSE_PTR (ent s1 u j)) j')))"
  shows "lv u = Some k \<Longrightarrow> walk s1 k u ix = walk s k u ix"
proof (induction k arbitrary: u)
  case 0
  then show ?case by simp
next
  case (Suc k)
  let ?e = "ent s u (ix (Suc k))" and ?e1 = "ent s1 u (ix (Suc k))"
  have step: "lv (PSE_PTR ?e) = Some k" if "1 \<le> k" "pse_present ?e" "\<not> huge (Suc k) ?e"
    using tb Suc.prems ix [of "Suc k"] that by (auto simp: tables_ok_def)
  consider "?e1 = ?e" | "1 \<le> k" "pse_present ?e1" "\<not> huge (Suc k) ?e1" "pse_present ?e" "\<not> huge (Suc k) ?e"
      "PSE_PTR ?e1 = PSE_PTR ?e"
    | "1 \<le> k" "pse_present ?e1" "\<not> huge (Suc k) ?e1" "\<not> pse_present ?e"
      "\<forall>j < 512. \<not> pse_present (ent s1 (PSE_PTR ?e1) j)"
    using rel [OF Suc.prems ix [of "Suc k"]] by (auto split: if_splits)
  then show ?case
  proof cases
    case 1
    show ?thesis
    proof (cases "1 \<le> k \<and> pse_present ?e \<and> \<not> huge (Suc k) ?e")
      case True
      with Suc.IH [OF step] 1 show ?thesis by (auto simp: Let_def)
    next
      case False
      with 1 show ?thesis by (auto simp: Let_def)
    qed
  next
    case 2
    with Suc.IH [OF step] show ?thesis by (auto simp: Let_def)
  next
    case 3
    then obtain m where "k = Suc m" by (cases k) auto
    with 3 ix show ?thesis by (simp add: Let_def)
  qed
qed

lemma pool_alloc:
  assumes pl: "pmm_pool s F" and ne: "F \<noteq> {}"
  shows "\<exists>n s'. pfalloc_one s = (n, s') \<and> n \<in> F \<and> n \<noteq> 0 \<and> page_aligned n \<and> pmm_pool s' (F - {n}) \<and>
    (\<forall>t i. page_aligned t \<and> t \<notin> F \<and> i < 512 \<longrightarrow> ent s' t i = ent s t i)"
proof -
  obtain xs where xs: "frames_ok s xs" "set xs = F" using pl by (auto simp: pmm_pool_def)
  obtain x ys where x: "xs = x # ys" using xs(2) ne by (cases xs) auto
  note one = pfalloc_one_ok [OF xs(1) [unfolded x]]
  have fr: "y \<in> F \<Longrightarrow> y \<noteq> 0 \<and> page_aligned y" for y using fp.pool_frames [OF pl] by blast
  have "distinct xs" using xs(1) by (auto simp: frames_ok_def dest: dll_distinct)
  then have ys: "set ys = F - {x}" using x xs(2) by auto
  have "ent (snd (pfalloc_one s)) t i = ent s t i" if "page_aligned t" "t \<notin> F" "i < 512" for t i
  proof -
    have "slot t i \<notin> marker_words (set ys)"
      using that fr ys by (intro slot_notin_markers) auto
    then show ?thesis using one(3) by (simp add: ent_def)
  qed
  moreover have "pmm_pool (snd (pfalloc_one s)) (F - {x})" using one(2) ys by (auto simp: pmm_pool_def)
  moreover have "pfalloc_one s = (x, snd (pfalloc_one s))" using one(1) by (simp add: prod_eq_iff)
  moreover have "x \<in> F" using x xs(2) by auto
  ultimately show ?thesis using fr by blast
qed

text \<open>The outcome of \<open>next_table\<close> at slot \<open>i\<close> of table \<open>t\<close>: all earlier lookups are as before.\<close>

definition table_step where
  "table_step s F lv own t k i s1 F1 lv1 own1 n \<longleftrightarrow>
    pt_ok s1 F1 lv1 own1 \<and> F1 \<subseteq> F \<and> lv1 n = Some (k - 1) \<and> own1 n = (t, i) \<and>
    (\<forall>u. lv u \<noteq> None \<longrightarrow> lv1 u = lv u \<and> own1 u = own u) \<and>
    pse_present (ent s1 t i) \<and> \<not> huge k (ent s1 t i) \<and> PSE_PTR (ent s1 t i) = n \<and>
    (\<forall>u m j. lv u = Some m \<and> j < 512 \<and> (u, j) \<noteq> (t, i) \<longrightarrow> ent s1 u j = ent s u j) \<and>
    (\<forall>u m ix. lv u = Some m \<and> (\<forall>k. ix k < 512) \<longrightarrow> walk s1 m u ix = walk s m u ix)"

lemma next_table_present:
  assumes pt: "pt_ok s F lv own" and t: "lv t = Some k" "2 \<le> k" "i < 512" and e: "tr e = slot t i"
    and f: "flags_ok flags" and h: "\<not> huge k (ent s t i)" and pr: "pse_present (ent s t i)"
  shows "\<exists>s1. next_table tr flags e s = (Some (PSE_PTR (ent s t i) OR HH_MASK), s1) \<and>
    table_step s F lv own t k i s1 F lv own (PSE_PTR (ent s t i))"
proof -
  let ?e = "ent s t i" and ?v = "ent s t i OR (ucast flags OR PSE_PRESENT)"
  let ?s = "wr64 tr e ?v s"
  have tb: "tables_ok s F lv own" and pl: "pmm_pool s F" using pt by (auto simp: pt_ok_def)
  have al: "page_aligned u" "u \<notin> F" if "lv u = Some m" for u m using tb that by (auto simp: tables_ok_def)
  have en: "ent ?s u j = (if (u, j) = (t, i) then ?v else ent s u j)" if "lv u = Some m" "j < 512" for u m j
    using that e al t by (intro wr64_ent) auto
  note v = or_flags [OF f, where e = ?e]
  have ch: "lv (PSE_PTR ?e) = Some (k - 1) \<and> own (PSE_PTR ?e) = (t, i)"
    using tb t pr h by (auto simp: tables_ok_def)
  have tb1: "tables_ok ?s F lv own"
    using tb en v h t(1) ch unfolding tables_ok_def by (auto split: if_splits)
  have pl1: "pmm_pool ?s F" by (rule wr64_pool [where t = t and i = i]) (use pl e al t in auto)
  have "rd64 tr e s = ?e" by (simp add: rd64_def e ent_def)
  then have "next_table tr flags e s = (Some (PSE_PTR ?e OR HH_MASK), ?s)"
    using pr v(3) by (simp add: next_table_def pse_present_def PSE_GET_PTR_def rd64_def wr64_def)
  moreover have "walk ?s m u ix = walk s m u ix" if "lv u = Some m" "\<forall>k. ix k < 512" for u m ix
    by (rule walk_cong [OF tb _ _ that(1)]) (use that en v h pr t in \<open>auto split: if_splits\<close>)
  ultimately show ?thesis
    using pt pl1 tb1 en t(1,3) v h ch by (auto simp: table_step_def pt_ok_def)
qed

lemma not_pse_present_0 [simp]: "\<not> pse_present 0"
  by (simp add: pse_present_def)

lemma tables_ok_new:
  assumes tb: "tables_ok s F lv own" and t: "lv t = Some k" "2 \<le> k" "i < 512"
    and n: "n \<in> F" "page_aligned n" "n < 2 ^ 47" and v: "pse_present v" "PSE_PTR v = n"
    and en: "\<And>u m j. lv u = Some m \<Longrightarrow> j < 512 \<Longrightarrow> ent s1 u j = (if (u, j) = (t, i) then v else ent s u j)"
    and zn: "\<And>j. j < 512 \<Longrightarrow> ent s1 n j = 0"
  shows "tables_ok s1 (F - {n}) (lv(n := Some (k - 1))) (own(n := (t, i)))"
  unfolding tables_ok_def
proof (intro allI impI)
  fix u m
  assume u: "(lv(n := Some (k - 1))) u = Some m"
  have k: "k \<le> 4" using tb t(1) by (auto simp: tables_ok_def)
  have ln: "lv n = None" using tb n(1) by (cases "lv n") (auto simp: tables_ok_def)
  show "page_aligned u \<and> u < 2 ^ 47 \<and> u \<notin> F - {n} \<and> 1 \<le> m \<and> m \<le> 4 \<and>
      (\<forall>j < 512. 2 \<le> m \<and> pse_present (ent s1 u j) \<and> \<not> huge m (ent s1 u j) \<longrightarrow>
        (lv(n := Some (k - 1))) (PSE_PTR (ent s1 u j)) = Some (m - 1) \<and>
        (own(n := (t, i))) (PSE_PTR (ent s1 u j)) = (u, j))"
  proof (cases "u = n")
    case True
    with u n zn t(2) k show ?thesis by auto
  next
    case False
    with u have lu: "lv u = Some m" by simp
    have old: "page_aligned u \<and> u < 2 ^ 47 \<and> u \<notin> F \<and> 1 \<le> m \<and> m \<le> 4"
      and ch: "\<And>j. j < 512 \<Longrightarrow> 2 \<le> m \<Longrightarrow> pse_present (ent s u j) \<Longrightarrow> \<not> huge m (ent s u j) \<Longrightarrow>
        lv (PSE_PTR (ent s u j)) = Some (m - 1) \<and> own (PSE_PTR (ent s u j)) = (u, j)"
      using tb lu by (auto simp: tables_ok_def)
    have "(lv(n := Some (k - 1))) (PSE_PTR (ent s1 u j)) = Some (m - 1) \<and>
        (own(n := (t, i))) (PSE_PTR (ent s1 u j)) = (u, j)"
      if j: "j < 512" "2 \<le> m" "pse_present (ent s1 u j)" "\<not> huge m (ent s1 u j)" for j
    proof (cases "(u, j) = (t, i)")
      case True
      then show ?thesis using en [OF lu j(1)] v(2) lu t(1) by simp
    next
      case False
      then have "ent s1 u j = ent s u j" using en [OF lu j(1)] by (simp only: if_False)
      then show ?thesis using ch [OF j(1,2)] j(3,4) ln by auto
    qed
    with old show ?thesis by blast
  qed
qed

lemma next_table_new:
  assumes dm: "direct_map tr hhdm" and pt: "pt_ok s F lv own"
    and t: "lv t = Some k" "2 \<le> k" "i < 512" and e: "tr e = slot t i"
    and f: "flags_ok flags" and np: "\<not> pse_present (ent s t i)" and ne: "F \<noteq> {}"
  shows "\<exists>s1 n. next_table tr flags e s = (Some (n OR HH_MASK), s1) \<and>
    table_step s F lv own t k i s1 (F - {n}) (lv(n := Some (k - 1))) (own(n := (t, i))) n"
proof -
  have tb: "tables_ok s F lv own" and pl: "pmm_pool s F" using pt by (auto simp: pt_ok_def)
  have al: "page_aligned u" "u \<notin> F" if "lv u = Some m" for u m using tb that by (auto simp: tables_ok_def)
  obtain n s0 where n: "pfalloc_one s = (n, s0)" "n \<in> F" "n \<noteq> 0" "page_aligned n" "pmm_pool s0 (F - {n})"
      "\<And>u j. page_aligned u \<Longrightarrow> u \<notin> F \<Longrightarrow> j < 512 \<Longrightarrow> ent s0 u j = ent s u j"
    using pool_alloc [OF pl ne] by blast
  have n47: "n < 2 ^ 47" using pt n(2) by (auto simp: pt_ok_def)
  note pn = PSE_PTR_frame [OF n(4) n47]
  define sz where "sz = zero_paging_table tr n s0"
  have z: "pmm_pool sz (F - {n})"
      "\<And>u j. page_aligned u \<Longrightarrow> j < 512 \<Longrightarrow> ent sz u j = (if u = n then 0 else ent s0 u j)"
    using zero_loop_ok [OF dm n(4) n47 _ n(5), of 0 512]
    by (auto simp: sz_def zero_paging_table_def word_less_nat_alt)
  let ?v = "n OR (ucast flags OR PSE_PRESENT)"
  define s2 where "s2 = wr64 tr e n sz"
  define s3 where "s3 = wr64 tr e ?v s2"
  have tn: "t \<noteq> n" "t \<notin> F - {n}" "page_aligned t" using al [OF t(1)] n(2) by auto
  have nt: "next_table tr flags e s = (Some (n OR HH_MASK), s3)"
    using np n(1,3) or_flags(3) [OF f, of n] pn
    by (simp add: next_table_def pse_present_def rd64_def e ent_def [symmetric] sz_def [symmetric]
        s2_def [symmetric] PSE_GET_PTR_def)
      (simp add: s3_def s2_def wr64_def e ent_def)
  have pl3: "pmm_pool s3 (F - {n})" unfolding s3_def s2_def
    by (rule wr64_pool [where t = t and i = i], rule wr64_pool [where t = t and i = i])
      (use z(1) e tn t in auto)
  have en: "ent s3 u j = (if (u, j) = (t, i) then ?v else ent sz u j)" if "page_aligned u" "j < 512" for u j
    using that e tn t wr64_ent [where tr = tr and e = e and t = t and i = i and u = u and j = j]
    by (auto simp: s3_def s2_def)
  have eo: "ent s3 u j = (if (u, j) = (t, i) then ?v else ent s u j)" if "lv u = Some m" "j < 512" for u m j
    using en z(2) n(2,6) al [OF that(1)] that(2) by auto
  have en0: "ent s3 n j = 0" if "j < 512" for j using en z(2) n(4) tn(1) that by auto
  note v = or_flags [OF f, where e = n]
  have h: "\<not> huge k ?v"
    using v(2) page_aligned_bits [OF n(4), of 7] by (simp add: huge_bit)
  have tb3: "tables_ok s3 (F - {n}) (lv(n := Some (k - 1))) (own(n := (t, i)))"
    by (rule tables_ok_new [OF tb t n(2,4) n47]) (use v pn eo en0 in auto)
  have "walk s3 m u ix = walk s m u ix" if "lv u = Some m" "\<forall>k. ix k < 512" for u m ix
    by (rule walk_cong [OF tb _ _ that(1)]) (use that eo v h np t en0 pn in auto)
  moreover have "lv n = None" using tb n(2) by (cases "lv n") (auto simp: tables_ok_def)
  ultimately show ?thesis
    using nt pl3 tb3 eo t(1,3) v(1) h pn pt v(3)
    by (intro exI [of _ s3] exI [of _ n]) (auto simp: table_step_def pt_ok_def)
qed

lemma next_table_ok:
  assumes "direct_map tr hhdm" and "pt_ok s F lv own" and "lv t = Some k" "2 \<le> k" "i < 512"
    and "tr e = slot t i" and "flags_ok flags" and "\<not> huge k (ent s t i) \<or> \<not> pse_present (ent s t i)"
  shows "next_table tr flags e s = (None, s) \<or>
    (\<exists>s1 F1 lv1 own1 n. next_table tr flags e s = (Some (n OR HH_MASK), s1) \<and>
      table_step s F lv own t k i s1 F1 lv1 own1 n)"
proof (cases "pse_present (ent s t i)")
  case True
  then show ?thesis using next_table_present [OF assms(2-5), of tr e flags] assms(6-8) by blast
next
  case False
  show ?thesis
  proof (cases "F = {}")
    case True
    then have "pfalloc_one s = (0, s)" using fp.alloc_empty assms(2) by (auto simp: pt_ok_def)
    then have "next_table tr flags e s = (None, s)"
      using False assms(6) by (simp add: next_table_def rd64_def ent_def pse_present_def)
    then show ?thesis ..
  next
    case ne: False
    then show ?thesis using next_table_new [OF assms(1-7) False ne] by blast
  qed
qed

section \<open>Lookup is the walk\<close>

text \<open>The four indices of a virtual address: two addresses of one page have the same.\<close>

definition vpage :: "u64 \<Rightarrow> u64 \<times> u64 \<times> u64 \<times> u64" where
  "vpage v = (EXTRACT_PML4_INDEX v, EXTRACT_PML3_INDEX v, EXTRACT_PML2_INDEX v, EXTRACT_PML1_INDEX v)"

lemma table_ptr:
  assumes "direct_map tr hhdm" and "tables_ok s F lv own" and "lv t = Some k"
  shows "points_to tr (hhdm + t) t" and "points_to tr (t OR HH_MASK) t"
  using assms slot_offset by (auto simp: points_to_def direct_map_def tables_ok_def slot_def)

lemma rd64_ent: "points_to tr P t \<Longrightarrow> i < 512 \<Longrightarrow> rd64 tr (slot P i) s = ent s t i"
  by (simp add: points_to_def rd64_def ent_def)

lemma walk_4:
  "walk s 4 t ix = (let e4 = ent s t (ix 4) in if \<not> pse_present e4 then None else
    (let e3 = ent s (PSE_PTR e4) (ix 3) in if \<not> pse_present e3 then None else if huge 3 e3 then Some (3, e3) else
    (let e2 = ent s (PSE_PTR e3) (ix 2) in if \<not> pse_present e2 then None else if huge 2 e2 then Some (2, e2) else
    (let e1 = ent s (PSE_PTR e2) (ix 1) in if \<not> pse_present e1 then None else Some (1, e1)))))"
  by (simp add: numeral_eq_Suc Let_def huge_def)

lemma map_lookup_walk:
  assumes dm: "direct_map tr hhdm" and P: "points_to tr P root" and tb: "tables_ok s F lv own"
    and root: "lv root = Some 4"
  shows "map_lookup tr hhdm P v s = lookup_result v (walk s 4 root (vix v))"
proof -
  let ?e4 = "ent s root (EXTRACT_PML4_INDEX v)"
  let ?e3 = "ent s (PSE_PTR ?e4) (EXTRACT_PML3_INDEX v)"
  let ?e2 = "ent s (PSE_PTR ?e3) (EXTRACT_PML2_INDEX v)"
  have child: "lv (PSE_PTR (ent s t i)) = Some (k - 1)"
    if "lv t = Some k" "2 \<le> k" "i < 512" "pse_present (ent s t i)" "\<not> huge k (ent s t i)" for t k i
    using tb that by (auto simp: tables_ok_def)
  have r4: "rd64 tr (slot P (EXTRACT_PML4_INDEX v)) s = ?e4" using P by (simp add: rd64_ent)
  have l3: "pse_present ?e4 \<Longrightarrow> lv (PSE_PTR ?e4) = Some 3"
    using child [OF root, of "EXTRACT_PML4_INDEX v"] by (simp add: huge_def)
  have r3: "pse_present ?e4 \<Longrightarrow> rd64 tr (slot (hhdm + PSE_PTR ?e4) (EXTRACT_PML3_INDEX v)) s = ?e3"
    using table_ptr(1) [OF dm tb l3] by (simp add: rd64_ent)
  have l2: "pse_present ?e4 \<Longrightarrow> pse_present ?e3 \<Longrightarrow> \<not> huge 3 ?e3 \<Longrightarrow> lv (PSE_PTR ?e3) = Some 2"
    using child [OF l3, of "EXTRACT_PML3_INDEX v"] by simp
  have r2: "pse_present ?e4 \<Longrightarrow> pse_present ?e3 \<Longrightarrow> \<not> huge 3 ?e3 \<Longrightarrow>
      rd64 tr (slot (hhdm + PSE_PTR ?e3) (EXTRACT_PML2_INDEX v)) s = ?e2"
    using table_ptr(1) [OF dm tb l2] by (simp add: rd64_ent)
  have l1: "pse_present ?e4 \<Longrightarrow> pse_present ?e3 \<Longrightarrow> \<not> huge 3 ?e3 \<Longrightarrow> pse_present ?e2 \<Longrightarrow> \<not> huge 2 ?e2 \<Longrightarrow>
      lv (PSE_PTR ?e2) = Some 1"
    using child [OF l2, of "EXTRACT_PML2_INDEX v"] by simp
  have r1: "pse_present ?e4 \<Longrightarrow> pse_present ?e3 \<Longrightarrow> \<not> huge 3 ?e3 \<Longrightarrow> pse_present ?e2 \<Longrightarrow> \<not> huge 2 ?e2 \<Longrightarrow>
      rd64 tr (slot (hhdm + PSE_PTR ?e2) (EXTRACT_PML1_INDEX v)) s = ent s (PSE_PTR ?e2) (EXTRACT_PML1_INDEX v)"
    using table_ptr(1) [OF dm tb l1] by (simp add: rd64_ent)
  have h: "(e AND PSE_PAGESIZE \<noteq> 0) = huge 2 e" "huge 3 e = huge 2 e"
    "(e AND PSE_PRESENT = 0) = (\<not> pse_present e)" for e
    by (simp_all add: huge_def pse_present_def)
  have x: "vix v 4 = EXTRACT_PML4_INDEX v" "vix v 3 = EXTRACT_PML3_INDEX v" "vix v 2 = EXTRACT_PML2_INDEX v"
    "vix v (Suc 0) = EXTRACT_PML1_INDEX v" by (simp_all add: vix_def)
  note defs = map_lookup_def walk_4 Let_def r4 x h lookup_result_def
  show ?thesis
  proof (cases "pse_present ?e4")
    case False
    then show ?thesis by (simp only: defs if_True not_False_eq_True option.case)
  next
    case p4: True
    show ?thesis
    proof (cases "pse_present ?e3 \<and> \<not> huge 3 ?e3")
      case False
      then show ?thesis using p4 r3 by (cases "pse_present ?e3") (simp_all add: defs)
    next
      case p3: True
      then have r: "rd64 tr (slot (hhdm + PSE_PTR ?e4) (EXTRACT_PML3_INDEX v)) s = ?e3"
        "rd64 tr (slot (hhdm + PSE_PTR ?e3) (EXTRACT_PML2_INDEX v)) s = ?e2" using p4 r3 r2 by auto
      show ?thesis
      proof (cases "pse_present ?e2 \<and> \<not> huge 2 ?e2")
        case False
        then show ?thesis using p4 p3 r by (cases "pse_present ?e2") (simp_all add: defs)
      next
        case True
        then have "rd64 tr (slot (hhdm + PSE_PTR ?e2) (EXTRACT_PML1_INDEX v)) s =
            ent s (PSE_PTR ?e2) (EXTRACT_PML1_INDEX v)" using p4 p3 r1 by auto
        then show ?thesis using p4 p3 r True by (simp add: defs)
      qed
    qed
  qed
qed

section \<open>Writing the leaf\<close>

lemma leaf_walk:
  assumes tb: "tables_ok s F lv own"
    and lv: "lv root = Some 4" "lv t3 = Some 3" "lv t2 = Some 2" "lv t1 = Some 1"
    and own: "own t3 = (root, i4)" "own t2 = (t3, i3)" "own t1 = (t2, i2)"
    and en: "\<And>u m j. lv u = Some m \<Longrightarrow> j < 512 \<Longrightarrow> (u, j) \<noteq> (t1, i1) \<Longrightarrow> ent s' u j = ent s u j"
    and ix: "\<And>k. ix k < 512" and ne: "(ix 4, ix 3, ix 2, ix 1) \<noteq> (i4, i3, i2, i1)"
  shows "walk s' 4 root ix = walk s 4 root ix"
proof -
  have child: "lv (PSE_PTR (ent s t (ix k))) = Some (k - 1) \<and> own (PSE_PTR (ent s t (ix k))) = (t, ix k)"
    if "lv t = Some k" "2 \<le> k" "pse_present (ent s t (ix k))" "\<not> huge k (ent s t (ix k))" for t k
    using tb that ix [of k] unfolding tables_ok_def by blast
  have same: "ent s' u (ix k) = ent s u (ix k)" if "lv u = Some m" "u \<noteq> t1" for u m k
    using en [OF that(1) ix] that(2) by auto
  have w1: "walk s' 1 u ix = walk s 1 u ix" if "lv u = Some 1" "u \<noteq> t1 \<or> ix 1 \<noteq> i1" for u
    using en [OF that(1) ix [of 1]] that(2) by (auto simp: Let_def)
  have up: "walk s' m u ix = walk s m u ix"
    if m: "m = Suc k" "1 \<le> k" and u: "lv u = Some m"
      and rec: "\<And>c. lv c = Some k \<Longrightarrow> own c = (u, ix m) \<Longrightarrow> walk s' k c ix = walk s k c ix" for u k m
  proof -
    have "u \<noteq> t1" using m u lv(4) by auto
    then have e: "ent s' u (ix m) = ent s u (ix m)" using same [OF u] by blast
    show ?thesis
    proof (cases "pse_present (ent s u (ix m)) \<and> \<not> huge m (ent s u (ix m))")
      case True
      then have "walk s' k (PSE_PTR (ent s u (ix m))) ix = walk s k (PSE_PTR (ent s u (ix m))) ix"
        using child [OF u] m by (intro rec) auto
      with e True m(1) show ?thesis by (simp add: Let_def)
    next
      case False
      with e m(1) show ?thesis by (auto simp: Let_def)
    qed
  qed
  have w2: "walk s' 2 u ix = walk s 2 u ix" if "lv u = Some 2" "(u, ix 2, ix 1) \<noteq> (t2, i2, i1)" for u
  proof (rule up [where k = 1])
    fix c
    assume "lv c = Some 1" "own c = (u, ix 2)"
    then show "walk s' 1 c ix = walk s 1 c ix" using that own(3) by (intro w1) auto
  qed (use that in auto)
  have w3: "walk s' 3 u ix = walk s 3 u ix" if "lv u = Some 3" "(u, ix 3, ix 2, ix 1) \<noteq> (t3, i3, i2, i1)" for u
  proof (rule up [where k = 2])
    fix c
    assume "lv c = Some 2" "own c = (u, ix 3)"
    then show "walk s' 2 c ix = walk s 2 c ix" using that own(2) by (intro w2) auto
  qed (use that in auto)
  show ?thesis
  proof (rule up [where k = 3])
    fix c
    assume "lv c = Some 3" "own c = (root, ix 4)"
    then show "walk s' 3 c ix = walk s 3 c ix" using ne own(1) by (intro w3) auto
  qed (use lv(1) in auto)
qed

lemma table_stepD:
  assumes "table_step s F lv own t k i s1 F1 lv1 own1 n"
  shows "pt_ok s1 F1 lv1 own1" "tables_ok s1 F1 lv1 own1" "lv1 n = Some (k - 1)" "own1 n = (t, i)"
    "\<And>u. lv u \<noteq> None \<Longrightarrow> lv1 u = lv u \<and> own1 u = own u" "pse_present (ent s1 t i)" "\<not> huge k (ent s1 t i)"
    "PSE_PTR (ent s1 t i) = n"
    "\<And>u m j. lv u = Some m \<Longrightarrow> j < 512 \<Longrightarrow> (u, j) \<noteq> (t, i) \<Longrightarrow> ent s1 u j = ent s u j"
    "\<And>u m ix. lv u = Some m \<Longrightarrow> (\<And>k. ix k < 512) \<Longrightarrow> walk s1 m u ix = walk s m u ix"
    "F1 \<subseteq> F"
  using assms by (auto simp: table_step_def pt_ok_def)

text \<open>The whole success path of \<open>map_page_4k\<close> after its three table steps.\<close>

lemma map_leaf:
  assumes st: "table_step s F lv own root 4 i4 s1 F1 lv1 own1 t3"
      "table_step s1 F1 lv1 own1 t3 3 i3 s2 F2 lv2 own2 t2"
      "table_step s2 F2 lv2 own2 t2 2 i2 s3 F3 lv3 own3 t1"
    and root: "lv root = Some 4" and i: "i4 < 512" "i3 < 512" "i2 < 512" "i1 < 512"
    and e: "tr e = slot t1 i1" and s': "s' = wr64 tr e v s3" and v: "pse_present v"
  shows "pt_ok s' F3 lv3 own3" and "lv3 root = Some 4"
    and "(\<And>k. ix k < 512) \<Longrightarrow> (ix 4, ix 3, ix 2, ix 1) \<noteq> (i4, i3, i2, i1) \<Longrightarrow>
      walk s' 4 root ix = walk s 4 root ix"
    and "(ix 4, ix 3, ix 2, ix 1) = (i4, i3, i2, i1) \<Longrightarrow> walk s' 4 root ix = Some (1, v)"
proof -
  note d1 = table_stepD [OF st(1)] and d2 = table_stepD [OF st(2)] and d3 = table_stepD [OF st(3)]
  have l1: "lv1 root = Some 4" "lv1 t3 = Some 3" "own1 t3 = (root, i4)" using d1(3,4,5) root by auto
  have l2: "lv2 root = Some 4" "lv2 t3 = Some 3" "own2 t3 = (root, i4)" "lv2 t2 = Some 2" "own2 t2 = (t3, i3)"
    using d2(3,4,5) l1 by auto
  have l3: "lv3 root = Some 4" "lv3 t3 = Some 3" "own3 t3 = (root, i4)" "lv3 t2 = Some 2"
    "own3 t2 = (t3, i3)" "lv3 t1 = Some 1" "own3 t1 = (t2, i2)" using d3(3,4,5) l2 by auto
  then show "lv3 root = Some 4" by simp
  have al: "page_aligned u" "u \<notin> F3" if "lv3 u = Some m" for u m
    using d3(2) that by (auto simp: tables_ok_def)
  have en: "ent s' u j = (if (u, j) = (t1, i1) then v else ent s3 u j)" if "lv3 u = Some m" "j < 512" for u m j
    unfolding s' using e al l3(6) i(4) that by (intro wr64_ent) auto
  have "tables_ok s' F3 lv3 own3"
    using d3(2) en l3(6) unfolding tables_ok_def by (auto split: if_splits)
  moreover have "pmm_pool s' F3" unfolding s'
    by (rule wr64_pool [where t = t1 and i = i1]) (use d3(1) e al l3(6) i(4) in \<open>auto simp: pt_ok_def\<close>)
  ultimately show "pt_ok s' F3 lv3 own3" using d3(1) by (simp add: pt_ok_def)
  have df: "root \<noteq> t2" "root \<noteq> t3" "t3 \<noteq> t2" using l2 by auto
  have e4: "ent s3 root i4 = ent s1 root i4"
    using d3(9) [OF l2(1) i(1)] d2(9) [OF l1(1) i(1)] df by auto
  have e3: "ent s3 t3 i3 = ent s2 t3 i3" using d3(9) [OF l2(2) i(2)] df by auto
  have ne: "root \<noteq> t1" "t3 \<noteq> t1" "t2 \<noteq> t1" using l3 by auto
  show "walk s' 4 root ix = Some (1, v)" if "(ix 4, ix 3, ix 2, ix 1) = (i4, i3, i2, i1)"
  proof -
    have x: "ix 4 = i4" "ix 3 = i3" "ix 2 = i2" "ix (Suc 0) = i1" using that by simp_all
    have "ent s' root i4 = ent s1 root i4" "ent s' t3 i3 = ent s2 t3 i3" "ent s' t2 i2 = ent s3 t2 i2"
      "ent s' t1 i1 = v" using en l3 i e4 e3 ne by auto
    then show ?thesis using d1(6,7,8) d2(6,7,8) d3(6,7,8) v by (simp add: walk_4 x)
  qed
  show "walk s' 4 root ix = walk s 4 root ix"
    if ix: "\<And>k. ix k < 512" and n: "(ix 4, ix 3, ix 2, ix 1) \<noteq> (i4, i3, i2, i1)"
  proof -
    have "walk s' 4 root ix = walk s3 4 root ix"
      by (rule leaf_walk [OF d3(2) l3(1,2,4,6) l3(3,5,7) _ ix n]) (use en in auto)
    then show ?thesis using d3(10) [OF l2(1) ix] d2(10) [OF l1(1) ix] d1(10) [OF root ix] by simp
  qed
qed

text \<open>The specification of a mapping step: only lookups in the page of \<open>virt\<close> change.\<close>

definition map_post where
  "map_post tr hhdm P root phys virt s F r s' \<longleftrightarrow>
    (\<exists>F' lv' own'. pt_ok s' F' lv' own' \<and> lv' root = Some 4 \<and> F' \<subseteq> F) \<and>
    (\<forall>v. map_lookup tr hhdm P v s' =
      (if r = 0 \<and> vpage v = vpage virt then set_addr (PSE_PTR phys) (EXTRACT_4K_PAGE_OFFSET v)
       else map_lookup tr hhdm P v s))"

lemma map_postI_unchanged:
  assumes "direct_map tr hhdm" and "points_to tr P root"
    and "pt_ok s F lv own" "lv root = Some 4" and "pt_ok s' F' lv' own'" "lv' root = Some 4" "F' \<subseteq> F"
    and "\<And>ix. (\<And>k. ix k < 512) \<Longrightarrow> walk s' 4 root ix = walk s 4 root ix" and "r \<noteq> 0"
  shows "map_post tr hhdm P root phys virt s F r s'"
  using assms map_lookup_walk [OF assms(1,2)] unfolding map_post_def pt_ok_def
  by (metis (no_types, lifting) vix_bound)

text \<open>The part of \<open>map_page_4k\<close> after its first two table steps.\<close>

lemma map_page_tail:
  assumes dm: "direct_map tr hhdm" and P: "points_to tr P root" and pt: "pt_ok s F lv own"
    and root: "lv root = Some 4" and f: "flags_ok flags" "bit flags 0"
    and st1: "table_step s F lv own root 4 (EXTRACT_PML4_INDEX virt) s1 F1 lv1 own1 t3"
    and st2: "table_step s1 F1 lv1 own1 t3 3 (EXTRACT_PML3_INDEX virt) s2 F2 lv2 own2 t2"
    and q1: "next_table tr flags (slot P (EXTRACT_PML4_INDEX virt)) s = (Some (t3 OR HH_MASK), s1)"
    and r3: "rd64 tr (slot (t3 OR HH_MASK) (EXTRACT_PML3_INDEX virt)) s1 = ent s1 t3 (EXTRACT_PML3_INDEX virt)"
    and h3: "\<not> ent s1 t3 (EXTRACT_PML3_INDEX virt) AND PSE_PAGESIZE \<noteq> 0"
    and q2: "next_table tr flags (slot (t3 OR HH_MASK) (EXTRACT_PML3_INDEX virt)) s1 = (Some (t2 OR HH_MASK), s2)"
  shows "\<exists>r s'. map_page_4k tr P phys virt flags s = (r, s') \<and> r \<in> {0, ENOMEM, EGENERIC} \<and>
    map_post tr hhdm P root phys virt s F r s'"
proof -
  let ?i2 = "EXTRACT_PML2_INDEX virt" and ?i1 = "EXTRACT_PML1_INDEX virt"
  let ?res = "map_page_4k tr P phys virt flags s"
  note d1 = table_stepD [OF st1] and d2 = table_stepD [OF st2]
  have nz: "ENOMEM \<noteq> 0" "EGENERIC \<noteq> 0" by (simp_all add: ENOMEM_def EGENERIC_def)
  have l1: "lv1 root = Some 4" and l2: "lv2 root = Some 4" "lv2 t2 = Some 2" using d1(3,5) d2(3,5) root by auto
  have w: "walk s2 4 root ix = walk s 4 root ix" if "\<And>k. ix k < 512" for ix
    using d2(10) [OF l1 that] d1(10) [OF root that] by simp
  have un2: "map_post tr hhdm P root phys virt s F r s2" if "r \<noteq> 0" for r
    by (rule map_postI_unchanged [OF dm P pt root d2(1) l2(1)]) (use that w d1(11) d2(11) in auto)
  have p2: "points_to tr (t2 OR HH_MASK) t2" by (rule table_ptr [OF dm d2(2) l2(2)])
  then have e2: "tr (slot (t2 OR HH_MASK) ?i2) = slot t2 ?i2" by (simp add: points_to_def)
  have r2: "rd64 tr (slot (t2 OR HH_MASK) ?i2) s2 = ent s2 t2 ?i2" by (simp add: rd64_ent [OF p2])
  show ?thesis
  proof (cases "ent s2 t2 ?i2 AND PSE_PAGESIZE \<noteq> 0 \<or>
      next_table tr flags (slot (t2 OR HH_MASK) ?i2) s2 = (None, s2)")
    case True
    then have "?res = (EGENERIC, s2) \<or> ?res = (ENOMEM, s2)"
      using q1 r3 h3 q2 r2 by (auto simp: map_page_4k_def Let_def)
    then show ?thesis using un2 nz by auto
  next
    case False
    then have h2: "ent s2 t2 ?i2 AND PSE_PAGESIZE = 0" and "\<not> huge 2 (ent s2 t2 ?i2)" by (simp_all add: huge_def)
    with False obtain s3 F3 lv3 own3 t1 where
        q3: "next_table tr flags (slot (t2 OR HH_MASK) ?i2) s2 = (Some (t1 OR HH_MASK), s3)"
        and st3: "table_step s2 F2 lv2 own2 t2 2 ?i2 s3 F3 lv3 own3 t1"
      using next_table_ok [OF dm d2(1) l2(2) _ _ e2 f(1)] by auto
    note d3 = table_stepD [OF st3]
    have l3: "lv3 t1 = Some 1" "lv3 root = Some 4" using d3(3,5) l2 by auto
    let ?v = "PSE_PTR phys OR ucast flags" and ?e = "slot (t1 OR HH_MASK) ?i1"
    define s' where "s' = wr64 tr ?e ?v s3"
    have res: "?res = (0, s')" using q1 r3 h3 q2 r2 h2 q3 by (simp add: map_page_4k_def Let_def s'_def)
    have e1: "tr ?e = slot t1 ?i1" using table_ptr(2) [OF dm d3(2) l3(1)] by (simp add: points_to_def)
    have v: "pse_present ?v" "PSE_PTR ?v = PSE_PTR phys"
      using f PTR_leaf [of flags phys] bit_flags [of flags 0] by (auto simp: pse_present_bit bit_or_iff flags_ok_def)
    note ml = map_leaf [OF st1 st2 st3 root _ _ _ _ e1 s'_def v(1), simplified]
    have "map_lookup tr hhdm P u s' = (if vpage u = vpage virt
        then set_addr (PSE_PTR phys) (EXTRACT_4K_PAGE_OFFSET u) else map_lookup tr hhdm P u s)" for u
    proof -
      have lk: "map_lookup tr hhdm P u x = lookup_result u (walk x 4 root (vix u))"
        if "pt_ok x F' lv' own'" "lv' root = Some 4" for x F' lv' own'
        using dm P that by (intro map_lookup_walk [where lv = lv']) (auto simp: pt_ok_def)
      have x: "(vix u 4, vix u 3, vix u 2, vix u 1) = vpage u" by (simp add: vix_def vpage_def)
      show ?thesis
      proof (cases "vpage u = vpage virt")
        case True
        then have "walk s' 4 root (vix u) = Some (1, ?v)" using ml(4) [of "vix u"] x by (simp add: vpage_def)
        then show ?thesis using True v(2) lk [OF ml(1) l3(2)] by (simp add: lookup_result_def)
      next
        case False
        then have "walk s' 4 root (vix u) = walk s 4 root (vix u)"
          using ml(3) [of "vix u"] x by (auto simp: vpage_def)
        then show ?thesis using False lk [OF ml(1) l3(2)] lk [OF pt root] by simp
      qed
    qed
    then have "map_post tr hhdm P root phys virt s F 0 s'"
      using ml(1) l3(2) subset_trans [OF d3(11) subset_trans [OF d2(11) d1(11)]]
      unfolding map_post_def by simp blast
    then show ?thesis using res by auto
  qed
qed

lemma map_page_4k_ok:
  assumes dm: "direct_map tr hhdm" and P: "points_to tr P root" and pt: "pt_ok s F lv own"
    and root: "lv root = Some 4" and f: "flags_ok flags" "bit flags 0"
  shows "\<exists>r s'. map_page_4k tr P phys virt flags s = (r, s') \<and> r \<in> {0, ENOMEM, EGENERIC} \<and>
    map_post tr hhdm P root phys virt s F r s'"
proof -
  let ?i4 = "EXTRACT_PML4_INDEX virt" and ?i3 = "EXTRACT_PML3_INDEX virt"
  let ?i2 = "EXTRACT_PML2_INDEX virt" and ?i1 = "EXTRACT_PML1_INDEX virt"
  let ?res = "map_page_4k tr P phys virt flags s"
  have e4: "tr (slot P ?i4) = slot root ?i4" using P by (simp add: points_to_def)
  have nz: "ENOMEM \<noteq> 0" "EGENERIC \<noteq> 0" by (simp_all add: ENOMEM_def EGENERIC_def)
  have same: "map_post tr hhdm P root phys virt s F r s" if "r \<noteq> 0" for r
    by (rule map_postI_unchanged [OF dm P pt root pt root]) (use that in auto)
  have n4: "\<not> huge 4 (ent s root ?i4)" by (simp add: huge_def)
  show ?thesis
  proof (cases "next_table tr flags (slot P ?i4) s = (None, s)")
    case True
    then have "?res = (ENOMEM, s)" by (simp add: map_page_4k_def)
    then show ?thesis using same nz by auto
  next
    case False
    then obtain s1 F1 lv1 own1 t3 where q1: "next_table tr flags (slot P ?i4) s = (Some (t3 OR HH_MASK), s1)"
        and st1: "table_step s F lv own root 4 ?i4 s1 F1 lv1 own1 t3"
      using next_table_ok [OF dm pt root _ _ e4 f(1)] n4 by auto
    note d1 = table_stepD [OF st1]
    have l1: "lv1 root = Some 4" "lv1 t3 = Some 3" using d1(3,5) root by auto
    have un1: "map_post tr hhdm P root phys virt s F r s1" if "r \<noteq> 0" for r
      by (rule map_postI_unchanged [OF dm P pt root d1(1) l1(1)]) (use that d1(10) [OF root] d1(11) in auto)
    have p3: "points_to tr (t3 OR HH_MASK) t3" by (rule table_ptr [OF dm d1(2) l1(2)])
    then have e3: "tr (slot (t3 OR HH_MASK) ?i3) = slot t3 ?i3" by (simp add: points_to_def)
    have r3: "rd64 tr (slot (t3 OR HH_MASK) ?i3) s1 = ent s1 t3 ?i3" by (simp add: rd64_ent [OF p3])
    show ?thesis
    proof (cases "ent s1 t3 ?i3 AND PSE_PAGESIZE \<noteq> 0")
      case True
      then have "?res = (EGENERIC, s1)" using q1 r3 by (simp add: map_page_4k_def Let_def)
      then show ?thesis using un1 nz by auto
    next
      case h3: False
      then have n3: "\<not> huge 3 (ent s1 t3 ?i3)" by (simp add: huge_def)
      show ?thesis
      proof (cases "next_table tr flags (slot (t3 OR HH_MASK) ?i3) s1 = (None, s1)")
        case True
        then have "?res = (ENOMEM, s1)" using q1 r3 h3 by (simp add: map_page_4k_def Let_def)
        then show ?thesis using un1 nz by auto
      next
        case False
        then obtain s2 F2 lv2 own2 t2 where
            q2: "next_table tr flags (slot (t3 OR HH_MASK) ?i3) s1 = (Some (t2 OR HH_MASK), s2)"
            and st2: "table_step s1 F1 lv1 own1 t3 3 ?i3 s2 F2 lv2 own2 t2"
          using next_table_ok [OF dm d1(1) l1(2) _ _ e3 f(1)] n3 by auto
        show ?thesis using map_page_tail [OF dm P pt root f st1 st2] q1 r3 h3 q2 by blast
      qed
    qed
  qed
qed

section \<open>Properties\<close>

lemma set_addr_eq:
  assumes "page_aligned p" and "p < 2 ^ 47" and "off < 4096"
  shows "set_addr (PSE_PTR p) off = (0, of_nat ((unat p + unat off) mod 2 ^ 32))"
proof -
  have u: "unat (ucast x :: u32) = unat x mod 2 ^ 32" for x :: u64
    by (simp add: unsigned_ucast_eq take_bit_eq_mod)
  have "unat ((ucast p :: u32) + ucast off) = (unat p + unat off) mod 2 ^ 32"
    by (simp add: unat_word_ariths u mod_add_eq)
  then have "(ucast ((ucast p :: u32) + ucast off) :: u64) = of_nat ((unat p + unat off) mod 2 ^ 32)"
    by (metis of_nat_unat)
  then show ?thesis using assms PSE_PTR_frame by (simp add: set_addr_def)
qed

text \<open>
  C10: the specification of \<open>map_page_4k\<close>. For a tree of page tables outside the frame pool it returns 0,
  \<open>ENOMEM\<close> or \<open>EGENERIC\<close>, the tables are a tree again and take frames only from the pool, and the
  result of \<open>map_lookup\<close> changes for the addresses of the page of \<open>virt\<close> only, and only on success: there
  it becomes the frame \<open>phys\<close> plus the page offset (in the 32-bit arithmetic of \<open>map_lookup\<close>). Every
  other translation of the address space, present or absent, is as before, even where new tables
  were inserted or the call failed half way.
\<close>

theorem map_page_4k_changes_one_page:
  assumes "direct_map tr hhdm" and "points_to tr P root" and "pt_ok s F lv own" and "lv root = Some 4"
    and "flags_ok flags" and "bit flags 0"
  shows "\<exists>r s' F' lv' own'. map_page_4k tr P phys virt flags s = (r, s') \<and> r \<in> {0, ENOMEM, EGENERIC} \<and>
    pt_ok s' F' lv' own' \<and> lv' root = Some 4 \<and> F' \<subseteq> F \<and>
    (\<forall>v. map_lookup tr hhdm P v s' =
      (if r = 0 \<and> vpage v = vpage virt then set_addr (PSE_PTR phys) (EXTRACT_4K_PAGE_OFFSET v)
       else map_lookup tr hhdm P v s))"
  using map_page_4k_ok [OF assms, of phys virt] unfolding map_post_def by blast

text \<open>A concrete instance: the boot loader's map, an empty root table at \<open>0x8000\<close> and three free frames.\<close>

definition limine_tr :: "u64 \<Rightarrow> u64" where
  "limine_tr v = take_bit 47 v"

lemma limine_tr_frame: "page_aligned p \<Longrightarrow> p < 2 ^ 47 \<Longrightarrow> off < 4096 \<Longrightarrow> take_bit 47 (p + off) = p + off"
proof -
  assume p: "page_aligned p" "p < 2 ^ 47" and o: "off < 4096"
  have "4096 dvd (2 ^ 47 :: nat) - unat p"
    using p(1) by (intro dvd_diff_nat) (simp_all add: page_aligned_def)
  moreover have lt: "unat p < 2 ^ 47" using p(2) by (simp add: word_less_nat_alt)
  ultimately have "4096 \<le> (2 ^ 47 :: nat) - unat p" by (intro dvd_imp_le) auto
  then have "unat (p + off) < 2 ^ 47" using unat_page_offset [OF p(1) o] lt by simp
  then have "unat (take_bit 47 (p + off)) = unat (p + off)"
    by (simp add: unsigned_take_bit_eq take_bit_nat_eq_self)
  then show ?thesis by (simp add: word_unat_eq_iff)
qed

lemma limine_direct_map: "direct_map limine_tr HH_MASK"
  unfolding direct_map_def limine_tr_def
proof (intro allI impI)
  fix p off :: u64
  assume a: "page_aligned p \<and> p < 2 ^ 47 \<and> off < 4096"
  have h: "take_bit 47 (HH_MASK + x) = take_bit 47 x" for x :: u64
  proof -
    have u: "unat (take_bit 47 w) = unat w mod 2 ^ 47" for w :: u64
      unfolding unsigned_take_bit_eq by (rule take_bit_eq_mod)
    have "unat (HH_MASK + x) mod 2 ^ 47 = (unat HH_MASK + unat x) mod 2 ^ 64 mod 2 ^ 47"
      by (simp add: unat_word_ariths)
    also have "\<dots> = (unat HH_MASK + unat x) mod 2 ^ 47" by (intro mod_mod_cancel le_imp_power_dvd) simp
    also have "unat HH_MASK = 131071 * 2 ^ 47" by (simp add: HH_MASK_def)
    finally have "unat (HH_MASK + x) mod 2 ^ 47 = unat x mod 2 ^ 47" by (simp only: mod_mult_self3)
    then show ?thesis by (simp only: word_unat_eq_iff u)
  qed
  have "HH_MASK = push_bit 47 (mask 17)" by (simp add: HH_MASK_def mask_eq_exp_minus_1 push_bit_eq_mult)
  then have "bit HH_MASK n \<Longrightarrow> 47 \<le> n" for n by (metis bit_push_bit_iff)
  then have "\<not> bit p n \<or> \<not> bit HH_MASK n" for n using a below_bits [of p n] by blast
  then have "p + HH_MASK = p OR HH_MASK" by (rule disjunctive_add)
  then have "p OR HH_MASK = HH_MASK + p" by (simp add: add.commute)
  then show "take_bit 47 (p + off) = p + off \<and> take_bit 47 ((p OR HH_MASK) + off) = p + off \<and>
      take_bit 47 (HH_MASK + p + off) = p + off"
    using a limine_tr_frame [of p off] h [of "p + off"] by (simp add: add.assoc)
qed

definition lv0 :: "u64 \<Rightarrow> nat option" where
  "lv0 = (\<lambda>_. None)(0x8000 := Some 4)"

lemma boot_tables: "pt_ok three_frames {4096, 8192, 20480} lv0 (\<lambda>_. (0, 0))" "points_to limine_tr 0x8000 0x8000"
proof -
  have "ent three_frames 0x8000 i = 0" if "i < 512" for i
  proof -
    have "slot 0x8000 i \<notin> marker_words {4096, 8192, 20480}"
      using that by (intro slot_notin_markers) (auto simp: page_aligned_def)
    then show ?thesis by (auto simp: ent_def three_frames_def marker_words_def)
  qed
  then show "pt_ok three_frames {4096, 8192, 20480} lv0 (\<lambda>_. (0, 0))"
    using three_frames by (auto simp: pt_ok_def pmm_pool_def tables_ok_def lv0_def page_aligned_def split: if_splits)
  show "points_to limine_tr 0x8000 0x8000"
    using limine_direct_map slot_offset by (simp add: points_to_def direct_map_def slot_def page_aligned_def)
qed

theorem map_page_4k_changes_one_page_witness:
  "\<exists>r s'. map_page_4k limine_tr 0x8000 0x100000 0x200000000 3 three_frames = (r, s') \<and>
    r \<in> {0, ENOMEM, EGENERIC}"
  using map_page_4k_changes_one_page [OF limine_direct_map boot_tables(2,1), of 3 "0x100000" "0x200000000"]
  by (auto simp: lv0_def flags_ok_def)

text \<open>
  C12: map and look up. After a successful \<open>map_page_4k\<close>, \<open>map_lookup\<close> of any address of the page
  succeeds, but it gives the physical address modulo \<open>2^32\<close>: it is right exactly for frames below
  4 GiB, and wrong for every frame above.
\<close>

theorem map_then_lookup:
  assumes "direct_map tr hhdm" and "points_to tr P root" and "pt_ok s F lv own" and "lv root = Some 4"
    and "flags_ok flags" and "bit flags 0" and "page_aligned phys" and "phys < 2 ^ 47"
    and "map_page_4k tr P phys virt flags s = (0, s')" and "vpage v = vpage virt"
  shows "map_lookup tr hhdm P v s' =
    (0, of_nat ((unat phys + unat (EXTRACT_4K_PAGE_OFFSET v)) mod 2 ^ 32))"
proof -
  have "EXTRACT_4K_PAGE_OFFSET v \<le> 0xfff" unfolding EXTRACT_4K_PAGE_OFFSET_def by (rule word_and_le1)
  then have "EXTRACT_4K_PAGE_OFFSET v < 4096" by (rule order.strict_trans1) simp
  moreover have "map_lookup tr hhdm P v s' = set_addr (PSE_PTR phys) (EXTRACT_4K_PAGE_OFFSET v)"
    using map_page_4k_ok [OF assms(1-6), of phys virt] assms(9,10) by (auto simp: map_post_def)
  ultimately show ?thesis using set_addr_eq [OF assms(7,8)] by simp
qed

text \<open>A concrete tree with the path for address 0 in place, and an empty pool.\<close>

definition path_tables :: pmm where
  "path_tables = \<lparr>frame_list = 0, free_frames = 0,
    pmem = (\<lambda>_. 0)(0x8000 := 0x9003, 0x9000 := 0xA003, 0xA000 := 0xB003)\<rparr>"

definition path_lv :: "u64 \<Rightarrow> nat option" where
  "path_lv = (\<lambda>_. None)(0x8000 := Some 4, 0x9000 := Some 3, 0xA000 := Some 2, 0xB000 := Some 1)"

definition path_own :: "u64 \<Rightarrow> u64 \<times> u64" where
  "path_own = (\<lambda>_. (0, 0))(0x9000 := (0x8000, 0), 0xA000 := (0x9000, 0), 0xB000 := (0xA000, 0))"

lemma path_tables: "pt_ok path_tables {} path_lv path_own" "path_lv 0x8000 = Some 4"
proof -
  have s0: "slot t i = a \<longleftrightarrow> t = a \<and> i = 0" if "page_aligned t" "page_aligned a" "i < 512" for t a i
    using slot_eq_iff [of t a i 0] that by (simp add: slot_def)
  have e: "ent path_tables t i = (if i = 0 then pmem path_tables t else 0)"
    if "i < 512" "t \<in> {0x8000, 0x9000, 0xA000, 0xB000}" for t i
  proof -
    have "page_aligned t" using that(2) by (auto simp: page_aligned_def)
    then have "slot t i = 0x8000 \<longleftrightarrow> t = 0x8000 \<and> i = 0" "slot t i = 0x9000 \<longleftrightarrow> t = 0x9000 \<and> i = 0"
      "slot t i = 0xA000 \<longleftrightarrow> t = 0xA000 \<and> i = 0" using s0 that(1) by (auto simp: page_aligned_def)
    then show ?thesis by (cases "i = 0") (simp_all add: ent_def path_tables_def slot_def [of _ 0])
  qed
  have pl: "pmm_pool path_tables {}" by (auto simp: pmm_pool_def frames_ok_def path_tables_def)
  have v: "PSE_PTR 0x9003 = 0x9000" "PSE_PTR 0xA003 = 0xA000" "PSE_PTR 0xB003 = 0xB000" by (simp_all add: PSE_PTR_def)
  have pm: "pmem path_tables 0x8000 = 0x9003" "pmem path_tables 0x9000 = 0xA003"
    "pmem path_tables 0xA000 = 0xB003" by (simp_all add: path_tables_def)
  have "tables_ok path_tables {} path_lv path_own"
    unfolding tables_ok_def
  proof (intro allI impI)
    fix t k
    assume "path_lv t = Some k"
    then consider "t = 0x8000" "k = 4" | "t = 0x9000" "k = 3" | "t = 0xA000" "k = 2" | "t = 0xB000" "k = 1"
      by (auto simp: path_lv_def split: if_splits)
    then show "page_aligned t \<and> t < 2 ^ 47 \<and> t \<notin> {} \<and> 1 \<le> k \<and> k \<le> 4 \<and>
      (\<forall>i < 512. 2 \<le> k \<and> pse_present (ent path_tables t i) \<and> \<not> huge k (ent path_tables t i) \<longrightarrow>
        path_lv (PSE_PTR (ent path_tables t i)) = Some (k - 1) \<and> path_own (PSE_PTR (ent path_tables t i)) = (t, i))"
      by cases (simp_all add: e pm v path_lv_def path_own_def page_aligned_def)
  qed
  with pl show "pt_ok path_tables {} path_lv path_own" by (simp add: pt_ok_def)
  show "path_lv 0x8000 = Some 4" by (simp add: path_lv_def)
qed

lemma path_map: "\<exists>s'. map_page_4k limine_tr 0x8000 0x180000000 0 3 path_tables = (0, s')"
  by (simp add: map_page_4k_def next_table_def rd64_def wr64_def slot_def path_tables_def limine_tr_def
      EXTRACT_PML4_INDEX_def EXTRACT_PML3_INDEX_def EXTRACT_PML2_INDEX_def EXTRACT_PML1_INDEX_def
      PSE_PRESENT_def PSE_PAGESIZE_def PSE_PTR_def PSE_GET_PTR_def HH_MASK_def take_bit_eq_mod)

theorem map_then_lookup_witness:
  "\<exists>s'. map_page_4k limine_tr 0x8000 0x180000000 0 3 path_tables = (0, s') \<and>
    map_lookup limine_tr HH_MASK 0x8000 5 s' = (0, 0x80000005)"
proof -
  obtain s' where s': "map_page_4k limine_tr 0x8000 0x180000000 0 3 path_tables = (0, s')" using path_map by blast
  have "vpage 5 = vpage 0"
    by (simp add: vpage_def EXTRACT_PML4_INDEX_def EXTRACT_PML3_INDEX_def EXTRACT_PML2_INDEX_def EXTRACT_PML1_INDEX_def)
  then show ?thesis
    using map_then_lookup [OF limine_direct_map boot_tables(2) path_tables _ _ _ _ s', of 5] s'
    by (simp add: flags_ok_def page_aligned_def EXTRACT_4K_PAGE_OFFSET_def)
qed

text \<open>
  \<open>vmap\<close> ignores \<open>VMAP_EXEC\<close>. It puts the no-execute bit, bit 63, into its mapping flags, but passes
  them to \<open>map_page_4k\<close> as an \<^verbatim>\<open>unsigned int\<close>, so asking for an executable page and not asking for one
  do exactly the same.
\<close>

theorem vmap_ignores_exec:
  "vmap tr kernel_pml4 roots pid pa va (flags OR VMAP_EXEC) s = vmap tr kernel_pml4 roots pid pa va flags s"
proof -
  have b: "(flags OR VMAP_EXEC) AND VMAP_USER = flags AND VMAP_USER"
    "(flags OR VMAP_EXEC) AND VMAP_WRIT = flags AND VMAP_WRIT"
    "(flags OR VMAP_EXEC) AND VMAP_4K = flags AND VMAP_4K"
    by (simp_all add: bit.conj_disj_distrib2 VMAP_EXEC_def VMAP_USER_def VMAP_WRIT_def VMAP_4K_def)
  have xd: "(ucast PSE_XD :: u32) = 0" by (simp add: PSE_XD_def)
  have u: "(ucast (x OR y) :: u32) = ucast x OR ucast y" for x y :: u64
    by (rule bit_word_eqI) (auto simp: bit_simps)
  have "(ucast (vmap_flags (flags OR VMAP_EXEC) OR PSE_PRESENT) :: u32) = ucast (vmap_flags flags OR PSE_PRESENT)"
    unfolding vmap_flags_def b u by (simp add: xd)
  then show ?thesis by (simp only: vmap_def b Let_def)
qed

end
