(* ===== verification/CString.thy ===== *)
theory CString
  imports Prelude
begin

text \<open>
  The string library \<^verbatim>\<open>generic/forslib/string.c\<close> over byte-addressed memory. A \<^verbatim>\<open>char\<close> is signed on
  the target, so a comparison of a \<^verbatim>\<open>char\<close> with an \<^verbatim>\<open>int\<close> reads the byte with \<open>sint\<close>. A loop bounded by
  a \<^verbatim>\<open>size_t\<close> is a recursion on the number of rounds left; a loop that runs to the next NUL byte is a
  \<open>partial_function\<close>, undefined (\<open>None\<close>) when the memory holds no NUL byte. A routine that writes
  returns its result and the memory.
\<close>

section \<open>Model\<close>

fun memccpy_loop :: "nat \<Rightarrow> u64 \<Rightarrow> u64 \<Rightarrow> u64 \<Rightarrow> int \<Rightarrow> mem \<Rightarrow> u64 \<times> mem" where
  "memccpy_loop 0 i d s c m = (i, m)"
| "memccpy_loop (Suc k) i d s c m =
    (if sint (m (s + i)) \<noteq> c then memccpy_loop k (i + 1) d s c (m(d + i := m (s + i)))
     else (i, m))"

definition memccpy :: "u64 \<Rightarrow> u64 \<Rightarrow> int \<Rightarrow> u64 \<Rightarrow> mem \<Rightarrow> u64 \<times> mem" where
  "memccpy dest src c n m =
    (let (i, m') = memccpy_loop (unat n) 0 dest src c m
     in (if i = n then 0 else dest + i, m'))"

fun memchr_loop :: "nat \<Rightarrow> u64 \<Rightarrow> u64 \<Rightarrow> int \<Rightarrow> mem \<Rightarrow> u64" where
  "memchr_loop 0 i p c m = 0"
| "memchr_loop (Suc k) i p c m =
    (if sint (m (p + i)) = c then p + i else memchr_loop k (i + 1) p c m)"

definition memchr :: "u64 \<Rightarrow> int \<Rightarrow> u64 \<Rightarrow> mem \<Rightarrow> u64" where
  "memchr p c n m = memchr_loop (unat n) 0 p c m"

text \<open>The index of \<open>memrchr\<close> is a \<^verbatim>\<open>long\<close> that starts at \<open>n - 1\<close>; round \<open>Suc k\<close> has index \<open>k\<close>.\<close>

fun memrchr_loop :: "nat \<Rightarrow> u64 \<Rightarrow> int \<Rightarrow> mem \<Rightarrow> u64" where
  "memrchr_loop 0 p c m = 0"
| "memrchr_loop (Suc k) p c m =
    (if sint (m (p + of_nat k)) = c then p + of_nat k else memrchr_loop k p c m)"

definition memrchr :: "u64 \<Rightarrow> int \<Rightarrow> u64 \<Rightarrow> mem \<Rightarrow> u64" where
  "memrchr p c n m = memrchr_loop (nat (sint (n - 1) + 1)) p c m"

fun memcmp_loop :: "nat \<Rightarrow> u64 \<Rightarrow> u64 \<Rightarrow> u64 \<Rightarrow> mem \<Rightarrow> int" where
  "memcmp_loop 0 i a b m = 0"
| "memcmp_loop (Suc k) i a b m =
    (if m (a + i) \<noteq> m (b + i) then sint (m (a + i)) - sint (m (b + i))
     else memcmp_loop k (i + 1) a b m)"

definition memcmp :: "u64 \<Rightarrow> u64 \<Rightarrow> u64 \<Rightarrow> mem \<Rightarrow> int" where
  "memcmp a b n m = memcmp_loop (unat n) 0 a b m"

fun memcpy_loop :: "nat \<Rightarrow> u64 \<Rightarrow> u64 \<Rightarrow> u64 \<Rightarrow> mem \<Rightarrow> mem" where
  "memcpy_loop 0 i d s m = m"
| "memcpy_loop (Suc k) i d s m = memcpy_loop k (i + 1) d s (m(d + i := m (s + i)))"

definition memcpy :: "u64 \<Rightarrow> u64 \<Rightarrow> u64 \<Rightarrow> mem \<Rightarrow> u64 \<times> mem" where
  "memcpy dest src n m = (dest, memcpy_loop (unat n) 0 dest src m)"

fun memset_loop :: "nat \<Rightarrow> u64 \<Rightarrow> u64 \<Rightarrow> u8 \<Rightarrow> mem \<Rightarrow> mem" where
  "memset_loop 0 i p c m = m"
| "memset_loop (Suc k) i p c m = memset_loop k (i + 1) p c (m(p + i := c))"

definition memset :: "u64 \<Rightarrow> int \<Rightarrow> u64 \<Rightarrow> mem \<Rightarrow> u64 \<times> mem" where
  "memset p c n m = (p, memset_loop (unat n) 0 p (word_of_int c) m)"

partial_function (option) strlen_loop :: "mem \<Rightarrow> u64 \<Rightarrow> u64 \<Rightarrow> u64 option" where
  "strlen_loop m s i = (if m s = 0 then Some i else strlen_loop m (s + 1) (i + 1))"

definition strlen :: "u64 \<Rightarrow> mem \<Rightarrow> u64 option" where
  "strlen s m = strlen_loop m s 0"

fun strnlen_loop :: "nat \<Rightarrow> u64 \<Rightarrow> u64 \<Rightarrow> mem \<Rightarrow> u64" where
  "strnlen_loop 0 s i m = i"
| "strnlen_loop (Suc n) s i m = (if m s = 0 then i else strnlen_loop n (s + 1) (i + 1) m)"

definition strnlen :: "u64 \<Rightarrow> u64 \<Rightarrow> mem \<Rightarrow> u64" where
  "strnlen s n m = strnlen_loop (unat n) s 0 m"

text \<open>The copy loop of \<open>stpcpy\<close>: it returns the final \<open>dest\<close> and \<open>src\<close>.\<close>

partial_function (option) stpcpy_loop :: "u64 \<Rightarrow> u64 \<Rightarrow> mem \<Rightarrow> (u64 \<times> u64 \<times> mem) option" where
  "stpcpy_loop dest src m =
    (if m src = 0 then Some (dest, src, m)
     else stpcpy_loop (dest + 1) (src + 1) (m(dest := m src)))"

definition stpcpy :: "u64 \<Rightarrow> u64 \<Rightarrow> mem \<Rightarrow> (u64 \<times> mem) option" where
  "stpcpy dest src m =
    (case stpcpy_loop dest src m of
       None \<Rightarrow> None
     | Some (d, s, m') \<Rightarrow> Some (s, m'(d := 0)))"

fun stpncpy_loop :: "nat \<Rightarrow> u64 \<Rightarrow> u64 \<Rightarrow> mem \<Rightarrow> u64 \<times> mem" where
  "stpncpy_loop 0 dest src m = (dest, m)"
| "stpncpy_loop (Suc k) dest src m =
    (if m src = 0 then (dest, m)
     else stpncpy_loop k (dest + 1) (src + 1) (m(dest := m src)))"

definition stpncpy :: "u64 \<Rightarrow> u64 \<Rightarrow> u64 \<Rightarrow> mem \<Rightarrow> u64 \<times> mem" where
  "stpncpy dest src n m = (let (d, m') = stpncpy_loop (unat n) dest src m in (d, m'(d := 0)))"

definition strcat :: "u64 \<Rightarrow> u64 \<Rightarrow> mem \<Rightarrow> (u64 \<times> mem) option" where
  "strcat dest src m =
    do { l \<leftarrow> strlen dest m; (_, m') \<leftarrow> stpcpy (dest + l) src m; Some (dest, m') }"

definition strncat :: "u64 \<Rightarrow> u64 \<Rightarrow> u64 \<Rightarrow> mem \<Rightarrow> (u64 \<times> mem) option" where
  "strncat dest src n m =
    do { l \<leftarrow> strlen dest m; Some (dest, snd (stpncpy (dest + l) src n m)) }"

definition strchr :: "u64 \<Rightarrow> int \<Rightarrow> mem \<Rightarrow> u64 option" where
  "strchr s c m = do { l \<leftarrow> strlen s m; Some (memchr s c l m) }"

definition strchrnul :: "u64 \<Rightarrow> int \<Rightarrow> mem \<Rightarrow> u64 option" where
  "strchrnul s c m =
    do { l \<leftarrow> strlen s m; let ret = memchr s c l m; Some (if ret = 0 then s + l else ret) }"

definition strrchr :: "u64 \<Rightarrow> int \<Rightarrow> mem \<Rightarrow> u64 option" where
  "strrchr s c m = do { l \<leftarrow> strlen s m; Some (memrchr s c l m) }"

definition strnchr :: "u64 \<Rightarrow> int \<Rightarrow> u64 \<Rightarrow> mem \<Rightarrow> u64" where
  "strnchr s c n m = memchr s c (strnlen s n m) m"

definition strnrchr :: "u64 \<Rightarrow> int \<Rightarrow> u64 \<Rightarrow> mem \<Rightarrow> u64" where
  "strnrchr s c n m = memrchr s c (strnlen s n m) m"

text \<open>The inner loop of \<open>strpbrk\<close>: is the byte \<open>x\<close> among the \<open>k\<close> bytes of \<open>accept\<close> from index \<open>i\<close>?\<close>

fun strpbrk_inner :: "nat \<Rightarrow> u64 \<Rightarrow> u8 \<Rightarrow> u64 \<Rightarrow> mem \<Rightarrow> bool" where
  "strpbrk_inner 0 i x accept m = False"
| "strpbrk_inner (Suc k) i x accept m =
    (if x = m (accept + i) then True else strpbrk_inner k (i + 1) x accept m)"

partial_function (option) strpbrk_loop :: "u64 \<Rightarrow> u64 \<Rightarrow> u64 \<Rightarrow> mem \<Rightarrow> u64 option" where
  "strpbrk_loop l s accept m =
    (if m s = 0 then Some 0
     else if strpbrk_inner (unat l) 0 (m s) accept m then Some s
     else strpbrk_loop l (s + 1) accept m)"

definition strpbrk :: "u64 \<Rightarrow> u64 \<Rightarrow> mem \<Rightarrow> u64 option" where
  "strpbrk s accept m = do { l \<leftarrow> strlen accept m; strpbrk_loop l s accept m }"

definition strcmp :: "u64 \<Rightarrow> u64 \<Rightarrow> mem \<Rightarrow> int option" where
  "strcmp s1 s2 m =
    do { l1 \<leftarrow> strlen s1 m; l2 \<leftarrow> strlen s2 m;
         Some (memcmp s1 s2 (if l1 \<le> l2 then l1 else l2) m) }"

definition strncmp :: "u64 \<Rightarrow> u64 \<Rightarrow> u64 \<Rightarrow> mem \<Rightarrow> int" where
  "strncmp s1 s2 n m =
    (let l1 = strnlen s1 n m; l2 = strnlen s2 n m
     in memcmp s1 s2 (if l1 \<le> l2 then l1 else l2) m)"

definition strcpy :: "u64 \<Rightarrow> u64 \<Rightarrow> mem \<Rightarrow> (u64 \<times> mem) option" where
  "strcpy dest src m = do { (_, m') \<leftarrow> stpcpy dest src m; Some (dest, m') }"

definition strncpy :: "u64 \<Rightarrow> u64 \<Rightarrow> u64 \<Rightarrow> mem \<Rightarrow> u64 \<times> mem" where
  "strncpy dest src n m = (dest, snd (stpncpy dest src n m))"

text \<open>
  The outer loops of \<open>strspn\<close> and \<open>strcspn\<close>. Both branches of the test in their inner loops leave
  that loop, so of a non-empty second string only the first byte is looked at, and with an empty
  one (\<open>l = 0\<close>) the inner loop does nothing.
\<close>

partial_function (option) strspn_loop :: "u64 \<Rightarrow> u64 \<Rightarrow> u64 \<Rightarrow> u64 \<Rightarrow> mem \<Rightarrow> u64 option" where
  "strspn_loop l n s accept m =
    (if m s = 0 then Some n
     else if 0 < l then
       (if m s = m accept then strspn_loop l (n + 1) (s + 1) accept m else Some n)
     else strspn_loop l n (s + 1) accept m)"

definition strspn :: "u64 \<Rightarrow> u64 \<Rightarrow> mem \<Rightarrow> u64 option" where
  "strspn s accept m = do { l \<leftarrow> strlen accept m; strspn_loop l 0 s accept m }"

partial_function (option) strcspn_loop :: "u64 \<Rightarrow> u64 \<Rightarrow> u64 \<Rightarrow> u64 \<Rightarrow> mem \<Rightarrow> u64 option" where
  "strcspn_loop l n s reject m =
    (if m s = 0 then Some n
     else if 0 < l then
       (if m s = m reject then Some n else strcspn_loop l (n + 1) (s + 1) reject m)
     else strcspn_loop l n (s + 1) reject m)"

definition strcspn :: "u64 \<Rightarrow> u64 \<Rightarrow> mem \<Rightarrow> u64 option" where
  "strcspn s reject m = do { l \<leftarrow> strlen reject m; strcspn_loop l 0 s reject m }"

section \<open>Strings and byte ranges in memory\<close>

text \<open>\<open>cstr m p xs\<close>: at \<open>p\<close> there is a NUL-terminated string with the bytes \<open>xs\<close>.\<close>

primrec cstr :: "mem \<Rightarrow> u64 \<Rightarrow> u8 list \<Rightarrow> bool" where
  "cstr m p [] \<longleftrightarrow> m p = 0"
| "cstr m p (x # xs) \<longleftrightarrow> m p = x \<and> x \<noteq> 0 \<and> cstr m (p + 1) xs"

definition bytes_at :: "mem \<Rightarrow> u64 \<Rightarrow> nat \<Rightarrow> u8 list" where
  "bytes_at m p n = map (\<lambda>i. m (p + of_nat i)) [0..<n]"

definition range_of :: "u64 \<Rightarrow> nat \<Rightarrow> u64 set" where
  "range_of p n = (\<lambda>i. p + of_nat i) ` {0..<n}"

lemma bytes_at_0 [simp]: "bytes_at m p 0 = []"
  by (simp add: bytes_at_def)

lemma bytes_at_Suc: "bytes_at m p (Suc n) = m p # bytes_at m (p + 1) n"
  by (simp add: bytes_at_def upt_conv_Cons map_Suc_upt [symmetric] add.assoc del: upt_Suc map_Suc_upt)

lemma length_bytes_at [simp]: "length (bytes_at m p n) = n"
  by (simp add: bytes_at_def)

lemma range_of_0 [simp]: "range_of p 0 = {}"
  by (simp add: range_of_def)

lemma range_of_Suc: "range_of p (Suc n) = insert p (range_of (p + 1) n)"
proof -
  have "{0..<Suc n} = insert 0 (Suc ` {0..<n})" by (auto simp: image_iff less_Suc_eq_0_disj)
  then show ?thesis unfolding range_of_def by (simp only: image_insert image_image) (simp add: add.assoc)
qed

lemma bytes_at_cong:
  "(\<And>a. a \<in> range_of p n \<Longrightarrow> m a = m' a) \<Longrightarrow> bytes_at m p n = bytes_at m' p n"
  by (auto simp: bytes_at_def range_of_def)

lemma bytes_at_upd: "a \<notin> range_of p n \<Longrightarrow> bytes_at (m(a := x)) p n = bytes_at m p n"
  by (rule bytes_at_cong) auto

lemma of_nat_u64_inj: "i < 2 ^ 64 \<Longrightarrow> j < 2 ^ 64 \<Longrightarrow> (of_nat i :: u64) = of_nat j \<longleftrightarrow> i = j"
proof -
  assume "i < 2 ^ 64" "j < 2 ^ 64"
  then have "unat (of_nat i :: u64) = i" "unat (of_nat j :: u64) = j" by (simp_all add: unat_of_nat)
  then show ?thesis by metis
qed

lemma start_notin_range: "n < 2 ^ 64 \<Longrightarrow> p \<notin> range_of (p + 1) n"
proof
  assume n: "n < 2 ^ 64" and "p \<in> range_of (p + 1) n"
  then obtain i where "i < n" "p = p + 1 + of_nat i" by (auto simp: range_of_def)
  then have "of_nat (Suc i) = (0 :: u64)" by (simp add: algebra_simps)
  with n \<open>i < n\<close> show False using of_nat_u64_inj [of "Suc i" 0] by simp
qed

lemma cstr_iff:
  "cstr m p xs \<longleftrightarrow> bytes_at m p (length xs) = xs \<and> 0 \<notin> set xs \<and> m (p + of_nat (length xs)) = 0"
  by (induction xs arbitrary: p) (auto simp: bytes_at_Suc add.assoc)

lemma cstr_nth: "cstr m p xs \<Longrightarrow> i < length xs \<Longrightarrow> m (p + of_nat i) = xs ! i \<and> xs ! i \<noteq> 0"
proof (induction xs arbitrary: p i)
  case (Cons x xs)
  then show ?case by (cases i) (auto simp: add.assoc [symmetric])
qed simp

lemma cstr_end: "cstr m p xs \<Longrightarrow> m (p + of_nat (length xs)) = 0"
  by (simp add: cstr_iff)

text \<open>A string never fills the whole address space.\<close>

lemma cstr_length: "cstr m p xs \<Longrightarrow> length xs < 2 ^ 64"
proof (rule ccontr)
  assume c: "cstr m p xs" and "\<not> length xs < 2 ^ 64"
  then obtain i where i: "length xs = i + 2 ^ 64" by (metis add.commute le_Suc_ex not_less)
  have "m (p + of_nat i) \<noteq> 0" using cstr_nth [OF c, of i] i by simp
  moreover have "of_nat (length xs) = (of_nat i :: u64)" by (simp add: i)
  ultimately show False using cstr_end [OF c] by simp
qed

lemma cstr_unique: "cstr m p xs \<Longrightarrow> cstr m p ys \<Longrightarrow> xs = ys"
proof (induction xs arbitrary: p ys)
  case Nil
  then show ?case by (cases ys) auto
next
  case (Cons x xs)
  then show ?case by (cases ys) auto
qed

lemma cstr_cong:
  "cstr m p xs \<Longrightarrow> (\<And>a. a \<in> range_of p (Suc (length xs)) \<Longrightarrow> m' a = m a) \<Longrightarrow> cstr m' p xs"
proof (induction xs arbitrary: p)
  case (Cons x xs)
  have "range_of p (Suc (length (x # xs))) = insert p (range_of (p + 1) (Suc (length xs)))"
    by (simp add: range_of_Suc)
  with Cons show ?case by simp
qed (simp add: range_of_Suc)

lemma cstr_upd: "cstr m p xs \<Longrightarrow> a \<notin> range_of p (Suc (length xs)) \<Longrightarrow> cstr (m(a := x)) p xs"
  by (erule cstr_cong) auto

lemma range_of_mono: "k \<le> n \<Longrightarrow> range_of p k \<subseteq> range_of p n"
  by (auto simp: range_of_def)

lemma range_of_end: "p + of_nat n \<in> range_of p (Suc n)"
  by (auto simp: range_of_def)

lemma range_of_add: "range_of p (i + k) = range_of p i \<union> range_of (p + of_nat i) k"
  by (induction i arbitrary: p) (auto simp: range_of_Suc add.assoc)

lemma range_of_disjoint:
  assumes "i + k \<le> 2 ^ 64"
  shows "range_of p i \<inter> range_of (p + of_nat i) k = {}"
proof (rule ccontr)
  assume "\<not> ?thesis"
  then obtain a b where ab: "a < i" "b < k" "p + of_nat a = p + of_nat i + (of_nat b :: u64)"
    by (auto simp: range_of_def)
  then have "(of_nat a :: u64) = of_nat (i + b)" by (simp add: add.assoc)
  with ab assms show False using of_nat_u64_inj [of a "i + b"] by simp
qed

section \<open>Lengths\<close>

lemma strlen_loop_cstr: "cstr m s xs \<Longrightarrow> strlen_loop m s i = Some (i + of_nat (length xs))"
proof (induction xs arbitrary: s i)
  case Nil
  then show ?case by (simp add: strlen_loop.simps)
next
  case (Cons x xs)
  then have "strlen_loop m s i = strlen_loop m (s + 1) (i + 1)" by (subst strlen_loop.simps) simp
  with Cons show ?case by (simp add: add.assoc)
qed

lemma strlen_cstr: "cstr m s xs \<Longrightarrow> strlen s m = Some (of_nat (length xs))"
  by (simp add: strlen_def strlen_loop_cstr)

lemma strnlen_loop_cstr:
  "cstr m s xs \<Longrightarrow> strnlen_loop n s i m = i + of_nat (min n (length xs))"
proof (induction xs arbitrary: n s i)
  case Nil
  then show ?case by (cases n) auto
next
  case (Cons x xs)
  then show ?case by (cases n) (auto simp: add.assoc)
qed

lemma strnlen_cstr: "cstr m s xs \<Longrightarrow> strnlen s n m = of_nat (min (unat n) (length xs))"
  by (simp add: strnlen_def strnlen_loop_cstr)

section \<open>Block operations\<close>

lemma memcpy_loop_ok:
  assumes "k \<le> 2 ^ 64" and "range_of (d + i) k \<inter> range_of (s + i) k = {}"
  shows "bytes_at (memcpy_loop k i d s m) (d + i) k = bytes_at m (s + i) k \<and>
    (\<forall>a. a \<notin> range_of (d + i) k \<longrightarrow> memcpy_loop k i d s m a = m a)"
  using assms
proof (induction k arbitrary: i m)
  case 0
  then show ?case by simp
next
  case (Suc k)
  define m1 where "m1 = m(d + i := m (s + i))"
  have m1: "m1 (d + i) = m (s + i)" "\<And>a. a \<noteq> d + i \<Longrightarrow> m1 a = m a" by (simp_all add: m1_def)
  have dis: "range_of (d + (i + 1)) k \<inter> range_of (s + (i + 1)) k = {}"
    and di: "d + i \<notin> range_of (s + (i + 1)) k"
    using Suc.prems(2) by (auto simp: range_of_Suc add.assoc)
  have k: "k \<le> 2 ^ 64" "k < 2 ^ 64" using Suc.prems(1) by simp_all
  have eq: "memcpy_loop (Suc k) i d s m = memcpy_loop k (i + 1) d s m1" by (simp add: m1_def)
  have bs: "bytes_at m1 (s + (i + 1)) k = bytes_at m (s + (i + 1)) k"
    using di by (simp add: m1_def bytes_at_upd)
  have nd: "d + i \<notin> range_of (d + (i + 1)) k"
    using start_notin_range [OF k(2), of "d + i"] by (simp add: add.assoc)
  show ?case using Suc.IH [OF k(1) dis, of m1] nd m1 bs eq
    by (simp add: bytes_at_Suc range_of_Suc add.assoc)
qed

lemma memset_loop_ok:
  assumes "k \<le> 2 ^ 64"
  shows "bytes_at (memset_loop k i p c m) (p + i) k = replicate k c \<and>
    (\<forall>a. a \<notin> range_of (p + i) k \<longrightarrow> memset_loop k i p c m a = m a)"
  using assms
proof (induction k arbitrary: i m)
  case 0
  then show ?case by simp
next
  case (Suc k)
  have k: "k \<le> 2 ^ 64" "k < 2 ^ 64" using Suc.prems by simp_all
  have nd: "p + i \<notin> range_of (p + (i + 1)) k"
    using start_notin_range [OF k(2), of "p + i"] by (simp add: add.assoc)
  define m1 where "m1 = m(p + i := c)"
  have m1: "m1 (p + i) = c" "\<And>a. a \<noteq> p + i \<Longrightarrow> m1 a = m a" by (simp_all add: m1_def)
  have "memset_loop (Suc k) i p c m = memset_loop k (i + 1) p c m1" by (simp add: m1_def)
  with Suc.IH [OF k(1), of "i + 1" m1] nd m1 show ?case
    by (simp add: bytes_at_Suc range_of_Suc add.assoc)
qed

text \<open>The value of a comparison: the difference of the first two bytes that differ.\<close>

fun byte_diff :: "u8 list \<Rightarrow> u8 list \<Rightarrow> int" where
  "byte_diff (x # xs) (y # ys) = (if x \<noteq> y then sint x - sint y else byte_diff xs ys)"
| "byte_diff _ _ = 0"

lemma memcmp_loop_diff:
  "memcmp_loop k i a b m = byte_diff (bytes_at m (a + i) k) (bytes_at m (b + i) k)"
  by (induction k arbitrary: i) (auto simp: bytes_at_Suc add.assoc)

lemma memcmp_diff: "memcmp a b n m = byte_diff (bytes_at m a (unat n)) (bytes_at m b (unat n))"
  by (simp add: memcmp_def memcmp_loop_diff)

lemma byte_diff_zero:
  "byte_diff xs ys = 0 \<longleftrightarrow> (\<exists>zs. xs = ys @ zs \<or> ys = xs @ zs)"
proof (induction xs ys rule: byte_diff.induct)
  case (1 x xs y ys)
  have "x \<noteq> y \<Longrightarrow> sint x \<noteq> sint y" using signed_word_eqI by blast
  with 1 show ?case by auto
qed auto

lemma bytes_at_cstr: "cstr m p xs \<Longrightarrow> k \<le> length xs \<Longrightarrow> bytes_at m p k = take k xs"
proof (induction k arbitrary: p xs)
  case 0
  then show ?case by simp
next
  case (Suc k)
  then show ?case by (cases xs) (auto simp: bytes_at_Suc)
qed

lemma byte_diff_take_min:
  "byte_diff (take (min (length xs) (length ys)) xs) (take (min (length xs) (length ys)) ys) = byte_diff xs ys"
  by (induction xs ys rule: byte_diff.induct) auto

lemma strcmp_cstr:
  assumes "cstr m a xs" and "cstr m b ys"
  shows "strcmp a b m = Some (byte_diff xs ys)"
proof -
  have len: "length xs < 2 ^ 64" "length ys < 2 ^ 64" using assms cstr_length by auto
  let ?n = "min (length xs) (length ys)"
  have "(if (of_nat (length xs) :: u64) \<le> of_nat (length ys) then of_nat (length xs)
      else of_nat (length ys) :: u64) = of_nat ?n"
    using len by (auto simp: word_le_nat_alt unat_of_nat min_def)
  moreover have "unat (of_nat ?n :: u64) = ?n" using len by (simp add: unat_of_nat min_def)
  moreover have "bytes_at m a ?n = take ?n xs" "bytes_at m b ?n = take ?n ys"
    using assms by (auto intro: bytes_at_cstr)
  ultimately show ?thesis
    using assms by (simp add: strcmp_def strlen_cstr memcmp_diff byte_diff_take_min)
qed

section \<open>Searches\<close>

lemma memchr_loop_find:
  "memchr_loop k (of_nat i) p c m =
    (case find (\<lambda>j. sint (m (p + of_nat j)) = c) [i..<i + k] of None \<Rightarrow> 0 | Some j \<Rightarrow> p + of_nat j)"
proof (induction k arbitrary: i)
  case 0
  then show ?case by simp
next
  case (Suc k)
  show ?case using Suc.IH [of "Suc i"] by (simp add: upt_conv_Cons add.commute del: upt_Suc)
qed

lemma memchr_find:
  "memchr p c n m = (case find (\<lambda>j. sint (m (p + of_nat j)) = c) [0..<unat n] of
     None \<Rightarrow> 0 | Some j \<Rightarrow> p + of_nat j)"
  using memchr_loop_find [of "unat n" 0] by (simp add: memchr_def)

lemma memrchr_loop_find:
  "memrchr_loop k p c m = (case find (\<lambda>j. sint (m (p + of_nat j)) = c) (rev [0..<k]) of
     None \<Rightarrow> 0 | Some j \<Rightarrow> p + of_nat j)"
  by (induction k) auto

section \<open>Copies of strings\<close>

lemma stpcpy_loop_cstr:
  assumes "cstr m src xs" and "range_of dest (length xs) \<inter> range_of src (Suc (length xs)) = {}"
  shows "\<exists>m'. stpcpy_loop dest src m = Some (dest + of_nat (length xs), src + of_nat (length xs), m') \<and>
    bytes_at m' dest (length xs) = xs \<and> (\<forall>a. a \<notin> range_of dest (length xs) \<longrightarrow> m' a = m a)"
  using assms
proof (induction xs arbitrary: dest src m)
  case Nil
  then show ?case by (simp add: stpcpy_loop.simps)
next
  case (Cons x xs)
  let ?m = "m(dest := m src)"
  have len: "length xs < 2 ^ 64" using cstr_length [OF Cons.prems(1)] by simp
  have dn: "dest \<notin> range_of (dest + 1) (length xs)" by (rule start_notin_range [OF len])
  have ds: "dest \<notin> range_of (src + 1) (Suc (length xs))"
    and dis: "range_of (dest + 1) (length xs) \<inter> range_of (src + 1) (Suc (length xs)) = {}"
    using Cons.prems(2) by (auto simp: range_of_Suc)
  have "cstr ?m (src + 1) xs" using Cons.prems(1) ds by (simp add: cstr_upd)
  then obtain m' where m': "stpcpy_loop (dest + 1) (src + 1) ?m =
        Some (dest + 1 + of_nat (length xs), src + 1 + of_nat (length xs), m')"
      "bytes_at m' (dest + 1) (length xs) = xs"
      "\<forall>a. a \<notin> range_of (dest + 1) (length xs) \<longrightarrow> m' a = ?m a"
    using Cons.IH [OF _ dis] by blast
  have "stpcpy_loop dest src m = stpcpy_loop (dest + 1) (src + 1) ?m"
    using Cons.prems(1) by (subst stpcpy_loop.simps) simp
  with m' dn Cons.prems(1) show ?case
    by (intro exI [of _ m']) (auto simp: bytes_at_Suc range_of_Suc add.assoc)
qed

lemma cstrI_bytes:
  assumes "bytes_at m' dest (length xs) = xs" and "cstr m src xs"
  shows "cstr (m'(dest + of_nat (length xs) := 0)) dest xs"
proof -
  have "dest + of_nat (length xs) \<notin> range_of dest (length xs)"
    using range_of_disjoint [of "length xs" 1 dest] cstr_length [OF assms(2)]
    by (simp add: range_of_Suc) 
  then show ?thesis using assms by (simp add: cstr_iff bytes_at_upd)
qed

lemma stpcpy_cstr:
  assumes "cstr m src xs" and dis: "range_of dest (Suc (length xs)) \<inter> range_of src (Suc (length xs)) = {}"
  shows "\<exists>m'. stpcpy dest src m = Some (src + of_nat (length xs), m') \<and> cstr m' dest xs \<and>
    (\<forall>a. a \<notin> range_of dest (Suc (length xs)) \<longrightarrow> m' a = m a)"
proof -
  have "range_of dest (length xs) \<inter> range_of src (Suc (length xs)) = {}"
    using dis range_of_mono [of "length xs" "Suc (length xs)" dest] by auto
  from stpcpy_loop_cstr [OF assms(1) this] obtain m' where m':
      "stpcpy_loop dest src m = Some (dest + of_nat (length xs), src + of_nat (length xs), m')"
      "bytes_at m' dest (length xs) = xs" "\<forall>a. a \<notin> range_of dest (length xs) \<longrightarrow> m' a = m a" by blast
  have "range_of dest (Suc (length xs)) = insert (dest + of_nat (length xs)) (range_of dest (length xs))"
    using range_of_add [of dest "length xs" 1] by (simp add: range_of_Suc)
  with m' cstrI_bytes [OF m'(2) assms(1)] show ?thesis by (auto simp: stpcpy_def)
qed

lemma strcat_cstr:
  assumes d: "cstr m dest ys" and s: "cstr m src xs"
    and dis: "range_of dest (Suc (length ys + length xs)) \<inter> range_of src (Suc (length xs)) = {}"
    and fit: "length ys + length xs < 2 ^ 64"
  shows "\<exists>m'. strcat dest src m = Some (dest, m') \<and> cstr m' dest (ys @ xs) \<and>
    (\<forall>a. a \<notin> range_of dest (Suc (length ys + length xs)) \<longrightarrow> m' a = m a)"
proof -
  let ?e = "dest + of_nat (length ys)"
  have r: "range_of dest (Suc (length ys + length xs)) =
      range_of dest (length ys) \<union> range_of ?e (Suc (length xs))"
    using range_of_add [of dest "length ys" "Suc (length xs)"] by simp
  then obtain m' where m': "stpcpy ?e src m = Some (src + of_nat (length xs), m')" "cstr m' ?e xs"
      "\<forall>a. a \<notin> range_of ?e (Suc (length xs)) \<longrightarrow> m' a = m a"
    using stpcpy_cstr [OF s, of ?e] dis by auto
  have "range_of dest (length ys) \<inter> range_of ?e (Suc (length xs)) = {}"
    using range_of_disjoint [of "length ys" "Suc (length xs)" dest] fit by simp
  then have "bytes_at m' dest (length ys) = ys"
    using d m'(3) by (subst bytes_at_cong [of _ _ _ m]) (auto simp: cstr_iff)
  moreover have "cstr m' (p + of_nat (length ys)) xs \<Longrightarrow> bytes_at m' p (length ys) = ys \<Longrightarrow> 0 \<notin> set ys \<Longrightarrow>
      cstr m' p (ys @ xs)" for p ys
    by (induction ys arbitrary: p) (auto simp: bytes_at_Suc add.assoc)
  ultimately have "cstr m' dest (ys @ xs)" using m'(2) d by (simp add: cstr_iff)
  with m' r show ?thesis by (auto simp: strcat_def strlen_cstr [OF d])
qed

lemma stpncpy_loop_cstr:
  assumes "cstr m src xs" and "range_of dest (min n (length xs)) \<inter> range_of src (Suc (length xs)) = {}"
  shows "\<exists>m'. stpncpy_loop n dest src m = (dest + of_nat (min n (length xs)), m') \<and>
    bytes_at m' dest (min n (length xs)) = take n xs \<and>
    (\<forall>a. a \<notin> range_of dest (min n (length xs)) \<longrightarrow> m' a = m a)"
  using assms
proof (induction xs arbitrary: n dest src m)
  case Nil
  then show ?case by (cases n) auto
next
  case (Cons x xs)
  show ?case
  proof (cases n)
    case 0
    then show ?thesis by simp
  next
    case (Suc k)
    let ?m = "m(dest := m src)" and ?l = "min k (length xs)"
    have "?l < 2 ^ 64" using cstr_length [OF Cons.prems(1)] by simp
    note dn = start_notin_range [OF this, of dest]
    have ds: "dest \<notin> range_of (src + 1) (Suc (length xs))"
      and dis: "range_of (dest + 1) ?l \<inter> range_of (src + 1) (Suc (length xs)) = {}"
      using Cons.prems(2) Suc by (auto simp: range_of_Suc)
    have "cstr ?m (src + 1) xs" using Cons.prems(1) ds by (simp add: cstr_upd)
    then obtain m' where m': "stpncpy_loop k (dest + 1) (src + 1) ?m = (dest + 1 + of_nat ?l, m')"
        "bytes_at m' (dest + 1) ?l = take k xs"
        "\<forall>a. a \<notin> range_of (dest + 1) ?l \<longrightarrow> m' a = ?m a"
      using Cons.IH [OF _ dis] by blast
    then show ?thesis using Suc dn Cons.prems(1)
      by (intro exI [of _ m']) (auto simp: bytes_at_Suc range_of_Suc add.assoc)
  qed
qed

lemma strncpy_cstr:
  assumes s: "cstr m src xs"
    and dis: "range_of dest (Suc (min (unat n) (length xs))) \<inter> range_of src (Suc (length xs)) = {}"
  shows "\<exists>m'. strncpy dest src n m = (dest, m') \<and> cstr m' dest (take (unat n) xs) \<and>
    (\<forall>a. a \<notin> range_of dest (Suc (min (unat n) (length xs))) \<longrightarrow> m' a = m a)"
proof -
  let ?l = "min (unat n) (length xs)"
  have r: "range_of dest (Suc ?l) = insert (dest + of_nat ?l) (range_of dest ?l)"
    using range_of_add [of dest ?l 1] by (simp add: range_of_Suc)
  then obtain m' where m': "stpncpy_loop (unat n) dest src m = (dest + of_nat ?l, m')"
      "bytes_at m' dest ?l = take (unat n) xs" "\<forall>a. a \<notin> range_of dest ?l \<longrightarrow> m' a = m a"
    using stpncpy_loop_cstr [OF s, of dest "unat n"] dis by auto
  have l: "length (take (unat n) xs) = ?l" "?l < 2 ^ 64" using cstr_length [OF s] by auto
  have "dest + of_nat ?l \<notin> range_of dest ?l"
    using range_of_disjoint [of ?l 1 dest] l by (simp add: range_of_Suc)
  moreover have "0 \<notin> set (take (unat n) xs)" using s by (auto simp: cstr_iff dest: in_set_takeD)
  ultimately have "cstr (m'(dest + of_nat ?l := 0)) dest (take (unat n) xs)"
    using m'(2) l(1) by (simp add: cstr_iff bytes_at_upd)
  with m' r show ?thesis by (auto simp: strncpy_def stpncpy_def)
qed

lemma strspn_loop_first:
  assumes "cstr m s xs" and "0 < l"
  shows "strspn_loop l n s acc m = Some (n + of_nat (length (takeWhile (\<lambda>x. x = m acc) xs)))"
  using assms(1)
proof (induction xs arbitrary: n s)
  case Nil
  then show ?case by (simp add: strspn_loop.simps)
next
  case (Cons x xs)
  then show ?case using assms(2) by (subst strspn_loop.simps) (auto simp: add.assoc)
qed

lemma strcspn_loop_first:
  assumes "cstr m s xs" and "0 < l"
  shows "strcspn_loop l n s rej m = Some (n + of_nat (length (takeWhile (\<lambda>x. x \<noteq> m rej) xs)))"
  using assms(1)
proof (induction xs arbitrary: n s)
  case Nil
  then show ?case by (simp add: strcspn_loop.simps)
next
  case (Cons x xs)
  then show ?case using assms(2) by (subst strcspn_loop.simps) (auto simp: add.assoc)
qed

section \<open>Properties\<close>

text \<open>A memory with the strings ``ab'' at 100 and ``abc'' at 200, zero elsewhere.\<close>

definition two_strings :: mem where
  "two_strings = (\<lambda>_. 0)(100 := 97, 101 := 98, 200 := 97, 201 := 98, 202 := 99)"

lemma two_strings: "cstr two_strings 100 [97, 98]" "cstr two_strings 200 [97, 98, 99]"
  by (simp_all add: two_strings_def)

lemma numeral_range_of: "range_of p (numeral k) = insert p (range_of (p + 1) (pred_numeral k))"
  by (simp add: numeral_eq_Suc range_of_Suc)

text \<open>
  \<open>strcmp\<close> of two strings returns the difference of the first two bytes in which they differ,
  read as signed characters, but only within the shorter of the two: it returns 0 exactly when one
  string is a prefix of the other.
\<close>

theorem strcmp_compares_common_prefix:
  assumes "cstr m a xs" and "cstr m b ys"
  shows "\<exists>r. strcmp a b m = Some r \<and> r = byte_diff xs ys \<and>
    (r = 0) = (\<exists>zs. xs = ys @ zs \<or> ys = xs @ zs)"
  using strcmp_cstr [OF assms] byte_diff_zero [of xs ys] by simp

theorem strcmp_compares_common_prefix_witness:
  "strcmp 100 200 two_strings = Some 0"
  using strcmp_compares_common_prefix [OF two_strings] by auto

text \<open>
  \<open>memcpy\<close> returns \<open>dest\<close>; for ranges that do not overlap the destination then holds the bytes
  the source held, and no byte outside the destination changes, whatever the length (wrapping
  around the end of the address space included).
\<close>

theorem memcpy_copies:
  assumes "range_of dest (unat n) \<inter> range_of src (unat n) = {}"
  shows "fst (memcpy dest src n m) = dest \<and>
    bytes_at (snd (memcpy dest src n m)) dest (unat n) = bytes_at m src (unat n) \<and>
    (\<forall>a. a \<in> range_of dest (unat n) \<or> snd (memcpy dest src n m) a = m a)"
proof -
  have "unat n < 2 ^ 64" using unsigned_less [of n] by simp
  then have "unat n \<le> 2 ^ 64" by simp
  from memcpy_loop_ok [OF this, of dest 0 src m] assms show ?thesis by (auto simp: memcpy_def)
qed

theorem memcpy_copies_witness:
  "bytes_at (snd (memcpy 300 200 3 two_strings)) 300 3 = [97, 98, 99]"
  using memcpy_copies [of 300 3 200 two_strings] bytes_at_cstr [OF two_strings(2), of 3]
  by (simp add: numeral_range_of range_of_Suc)

text \<open>
  \<open>strcat\<close> appends. When the source lies outside the bytes written, the result is \<open>dest\<close>, which
  then holds the concatenation, NUL-terminated; nothing else changes.
\<close>

theorem strcat_appends:
  assumes "cstr m dest ys" and "cstr m src xs"
    and "range_of dest (Suc (length ys + length xs)) \<inter> range_of src (Suc (length xs)) = {}"
    and "length ys + length xs < 2 ^ 64"
  shows "\<exists>m'. strcat dest src m = Some (dest, m') \<and> cstr m' dest (ys @ xs) \<and>
    (\<forall>a. a \<in> range_of dest (Suc (length ys + length xs)) \<or> m' a = m a)"
  using strcat_cstr [OF assms] by blast

theorem strcat_appends_witness:
  "\<exists>m'. strcat 200 100 two_strings = Some (200, m') \<and> cstr m' 200 [97, 98, 99, 97, 98]"
  using strcat_appends [OF two_strings(2,1)] by (auto simp: numeral_range_of range_of_Suc)

text \<open>
  \<open>strncpy\<close> copies at most \<open>n\<close> bytes and then writes a NUL byte behind them, so a source of \<open>n\<close>
  bytes or more makes it write \<open>n + 1\<close> bytes: the byte \<open>dest[n]\<close>, outside a buffer of \<open>n\<close> bytes,
  becomes 0.
\<close>

theorem strncpy_writes_past_n:
  assumes "cstr m src xs" and "unat n \<le> length xs"
    and "range_of dest (Suc (unat n)) \<inter> range_of src (Suc (length xs)) = {}"
  shows "\<exists>m'. strncpy dest src n m = (dest, m') \<and> bytes_at m' dest (unat n) = take (unat n) xs \<and>
    m' (dest + n) = 0 \<and> (\<forall>a. a \<in> range_of dest (Suc (unat n)) \<or> m' a = m a)"
proof -
  have l: "min (unat n) (length xs) = unat n" "length (take (unat n) xs) = unat n" using assms(2) by simp_all
  then obtain m' where m': "strncpy dest src n m = (dest, m')" "cstr m' dest (take (unat n) xs)"
      "\<forall>a. a \<notin> range_of dest (Suc (unat n)) \<longrightarrow> m' a = m a"
    using strncpy_cstr [OF assms(1), of dest n] assms(3) by auto
  from m'(2) l(2) have "bytes_at m' dest (unat n) = take (unat n) xs" "m' (dest + n) = 0"
    by (simp_all only: cstr_iff) simp
  with m' show ?thesis by blast
qed

theorem strncpy_writes_past_n_witness:
  "\<exists>m'. strncpy 300 200 2 two_strings = (300, m') \<and> m' 302 = 0"
  using strncpy_writes_past_n [OF two_strings(2), of 2 300]
  by (auto simp: numeral_range_of range_of_Suc)

text \<open>
  \<open>strspn\<close> and \<open>strcspn\<close> look only at the first character of their second argument: with a
  non-empty second string they measure the longest prefix of bytes equal to, respectively different
  from, that one character.
\<close>

theorem strspn_first_character_only:
  assumes "cstr m s xs" and "cstr m acc (c # cs)"
  shows "strspn s acc m = Some (of_nat (length (takeWhile (\<lambda>x. x = c) xs))) \<and>
    strcspn s acc m = Some (of_nat (length (takeWhile (\<lambda>x. x \<noteq> c) xs)))"
proof -
  let ?l = "of_nat (length (c # cs)) :: u64"
  have "?l \<noteq> 0" using of_nat_u64_inj [of "length (c # cs)" 0] cstr_length [OF assms(2)] by simp
  then have "0 < ?l" by (simp add: word_neq_0_conv)
  then show ?thesis
    using assms strspn_loop_first [OF assms(1), of ?l 0 acc] strcspn_loop_first [OF assms(1), of ?l 0 acc]
    by (simp add: strspn_def strcspn_def strlen_cstr [OF assms(2)])
qed

theorem strspn_first_character_only_witness:
  "strspn 200 100 two_strings = Some 1 \<and> strcspn 200 100 two_strings = Some 0"
  using strspn_first_character_only [OF two_strings(2,1)] by simp

end
