(* ===== verification/Sched.thy ===== *)
theory Sched
  imports Prelude
begin

text \<open>
  The round-robin run queue of \<^verbatim>\<open>generic/proc/thread.c\<close>: a ring buffer of thread ids with a head, a
  tail and a count of the slots left. \<open>proc_queue\<close> is the contract of a bounded FIFO queue in terms
  of a list; the ring buffer is an interpretation of it, and the scheduler's fairness is proved once
  for the contract.
\<close>

section \<open>Model\<close>

definition MAX_PROCS :: nat where
  "MAX_PROCS = 32"

record sched =
  sched_queue :: "int list"   \<comment> \<open>\<^verbatim>\<open>long sched_queue[MAX_PROCS]\<close>\<close>
  sq_head :: nat
  sq_tail :: nat
  sq_space_left :: nat

definition sched_init :: sched where
  "sched_init = \<lparr>sched_queue = replicate MAX_PROCS 0, sq_head = 0, sq_tail = 0,
    sq_space_left = MAX_PROCS\<rparr>"

definition sq_full :: "sched \<Rightarrow> bool" where
  "sq_full s \<longleftrightarrow> sq_space_left s = 0"

definition sq_empty :: "sched \<Rightarrow> bool" where
  "sq_empty s \<longleftrightarrow> sq_space_left s = MAX_PROCS"

definition enqueue_proc :: "int \<Rightarrow> sched \<Rightarrow> int \<times> sched" where
  "enqueue_proc tid s =
    (if sq_full s then (-1, s)
     else (0, s\<lparr>sched_queue := (sched_queue s)[sq_tail s := tid],
                sq_tail := (sq_tail s + 1) mod MAX_PROCS,
                sq_space_left := sq_space_left s - 1\<rparr>))"

definition dequeue_proc :: "sched \<Rightarrow> int \<times> sched" where
  "dequeue_proc s =
    (if sq_empty s then (-1, s)
     else (sched_queue s ! sq_head s,
           s\<lparr>sq_head := (sq_head s + 1) mod MAX_PROCS,
             sq_space_left := sq_space_left s + 1\<rparr>))"

definition schedule :: "sched \<Rightarrow> int \<times> sched" where
  "schedule s =
    (let (to_run, s1) = dequeue_proc s; (_, s2) = enqueue_proc to_run s1 in (to_run, s2))"

text \<open>A run of the scheduler: the threads chosen by \<open>n\<close> calls, in order.\<close>

primrec schedules :: "nat \<Rightarrow> sched \<Rightarrow> int list \<times> sched" where
  "schedules 0 s = ([], s)"
| "schedules (Suc n) s =
    (let (t, s1) = schedule s; (ts, s2) = schedules n s1 in (t # ts, s2))"

text \<open>Abstraction of the ring buffer and its invariant.\<close>

definition sq_len :: "sched \<Rightarrow> nat" where
  "sq_len s = MAX_PROCS - sq_space_left s"

definition sq_list :: "sched \<Rightarrow> int list" where
  "sq_list s = map (\<lambda>i. sched_queue s ! ((sq_head s + i) mod MAX_PROCS)) [0..<sq_len s]"

definition sq_inv :: "sched \<Rightarrow> bool" where
  "sq_inv s \<longleftrightarrow> length (sched_queue s) = MAX_PROCS \<and> sq_head s < MAX_PROCS \<and>
    sq_tail s < MAX_PROCS \<and> sq_space_left s \<le> MAX_PROCS \<and>
    sq_tail s = (sq_head s + sq_len s) mod MAX_PROCS"

section \<open>The contract of a bounded FIFO queue\<close>

locale proc_queue =
  fixes enq :: "int \<Rightarrow> 'q \<Rightarrow> int \<times> 'q"
    and deq :: "'q \<Rightarrow> int \<times> 'q"
    and lst :: "'q \<Rightarrow> int list"
    and inv :: "'q \<Rightarrow> bool"
    and cap :: nat
  assumes cap_pos: "0 < cap"
    and len_cap: "inv q \<Longrightarrow> length (lst q) \<le> cap"
    and enq_full: "inv q \<Longrightarrow> length (lst q) = cap \<Longrightarrow> enq t q = (-1, q)"
    and enq_ok: "inv q \<Longrightarrow> length (lst q) < cap \<Longrightarrow>
      fst (enq t q) = 0 \<and> inv (snd (enq t q)) \<and> lst (snd (enq t q)) = lst q @ [t]"
    and deq_empty: "inv q \<Longrightarrow> lst q = [] \<Longrightarrow> deq q = (-1, q)"
    and deq_ok: "inv q \<Longrightarrow> lst q \<noteq> [] \<Longrightarrow>
      fst (deq q) = hd (lst q) \<and> inv (snd (deq q)) \<and> lst (snd (deq q)) = tl (lst q)"
begin

text \<open>Dequeue then enqueue the same thread: one turn of the queue.\<close>

lemma turn_nonempty:
  assumes "inv q" and "lst q \<noteq> []"
  shows "fst (deq q) = hd (lst q)"
    and "inv (snd (enq (fst (deq q)) (snd (deq q))))"
    and "lst (snd (enq (fst (deq q)) (snd (deq q)))) = rotate1 (lst q)"
proof -
  note d = deq_ok [OF assms]
  have "length (lst (snd (deq q))) < cap"
    using d len_cap [OF assms(1)] assms(2) by (cases "lst q") auto
  note e = enq_ok [OF conjunct1 [OF conjunct2 [OF d]] this, of "fst (deq q)"]
  show "fst (deq q) = hd (lst q)" using d by simp
  show "inv (snd (enq (fst (deq q)) (snd (deq q))))" using e by simp
  show "lst (snd (enq (fst (deq q)) (snd (deq q)))) = rotate1 (lst q)"
    using d e assms(2) by (cases "lst q") auto
qed

text \<open>On an empty queue the turn queues the error value itself.\<close>

lemma turn_empty:
  assumes "inv q" and "lst q = []"
  shows "lst (snd (enq (fst (deq q)) (snd (deq q)))) = [-1]"
  using assms cap_pos by (simp add: deq_empty enq_ok)

end

section \<open>The ring buffer is such a queue\<close>

lemma sq_lenI: "sq_inv s \<Longrightarrow> length (sq_list s) = MAX_PROCS - sq_space_left s"
  by (simp add: sq_list_def sq_len_def)

lemma enqueue_proc_list:
  assumes "sq_inv s" and "\<not> sq_full s"
  shows "fst (enqueue_proc t s) = 0" and "sq_inv (snd (enqueue_proc t s))"
    and "sq_list (snd (enqueue_proc t s)) = sq_list s @ [t]"
proof -
  let ?s = "snd (enqueue_proc t s)"
  have len: "sq_len ?s = Suc (sq_len s)"
    using assms by (auto simp: enqueue_proc_def sq_inv_def sq_full_def sq_len_def)
  show "fst (enqueue_proc t s) = 0" using assms(2) by (simp add: enqueue_proc_def)
  show "sq_inv ?s" using assms len
    by (auto simp: enqueue_proc_def sq_inv_def sq_full_def mod_Suc_eq)
  have old: "sched_queue ?s ! ((sq_head s + i) mod MAX_PROCS)
      = sched_queue s ! ((sq_head s + i) mod MAX_PROCS)" if "i < sq_len s" for i
  proof -
    have "sq_len s < MAX_PROCS"
      using assms by (simp add: sq_inv_def sq_full_def sq_len_def MAX_PROCS_def)
    with that assms have "(sq_head s + i) mod MAX_PROCS \<noteq> (sq_head s + sq_len s) mod MAX_PROCS"
      by (auto simp: sq_inv_def MAX_PROCS_def mod_if split: if_splits)
    with assms show ?thesis by (simp add: enqueue_proc_def sq_inv_def)
  qed
  have new: "sched_queue ?s ! ((sq_head s + sq_len s) mod MAX_PROCS) = t"
    using assms by (simp add: enqueue_proc_def sq_inv_def)
  have "sq_head ?s = sq_head s" using assms(2) by (simp add: enqueue_proc_def)
  with len new old show "sq_list ?s = sq_list s @ [t]" by (simp add: sq_list_def)
qed

lemma dequeue_proc_list:
  assumes "sq_inv s" and "\<not> sq_empty s"
  shows "fst (dequeue_proc s) = hd (sq_list s)" and "sq_inv (snd (dequeue_proc s))"
    and "sq_list (snd (dequeue_proc s)) = tl (sq_list s)"
proof -
  let ?s = "snd (dequeue_proc s)"
  have pos: "0 < sq_len s" and len: "sq_len s = Suc (sq_len ?s)"
    using assms by (auto simp: dequeue_proc_def sq_inv_def sq_empty_def sq_len_def)
  have split: "[0..<sq_len s] = 0 # map Suc [0..<sq_len ?s]"
    by (simp add: len upt_conv_Cons map_Suc_upt)
  have hd: "sq_head s mod MAX_PROCS = sq_head s" using assms(1) by (simp add: sq_inv_def)
  show "fst (dequeue_proc s) = hd (sq_list s)"
    using assms(2) by (simp add: sq_list_def split hd dequeue_proc_def)
  have h: "sq_head ?s = Suc (sq_head s) mod MAX_PROCS" and q: "sched_queue ?s = sched_queue s"
    and t: "sq_tail ?s = sq_tail s" and sp: "sq_space_left ?s = Suc (sq_space_left s)"
    using assms(2) by (auto simp: dequeue_proc_def)
  have "(sq_head ?s + i) mod MAX_PROCS = (sq_head s + Suc i) mod MAX_PROCS" for i
    by (simp add: h mod_add_left_eq)
  then show "sq_list ?s = tl (sq_list s)"
    by (simp add: sq_list_def split q)
  have "sq_tail s = (sq_head ?s + sq_len ?s) mod MAX_PROCS"
    using assms(1) len by (simp add: sq_inv_def h mod_add_left_eq)
  moreover have "sq_head ?s < MAX_PROCS" by (simp add: h MAX_PROCS_def)
  moreover have "sq_space_left ?s \<le> MAX_PROCS" using pos by (simp add: sp sq_len_def)
  ultimately show "sq_inv ?s" using assms(1) by (simp add: sq_inv_def q t)
qed

interpretation rq: proc_queue enqueue_proc dequeue_proc sq_list sq_inv MAX_PROCS
proof
  show "0 < MAX_PROCS" by (simp add: MAX_PROCS_def)
next
  fix q :: sched and t
  assume "sq_inv q"
  note len = sq_lenI [OF this]
  show "length (sq_list q) \<le> MAX_PROCS" by (simp add: len)
  show "enqueue_proc t q = (-1, q)" if "length (sq_list q) = MAX_PROCS"
    using that len \<open>sq_inv q\<close> by (simp add: enqueue_proc_def sq_full_def sq_inv_def MAX_PROCS_def)
  show "fst (enqueue_proc t q) = 0 \<and> sq_inv (snd (enqueue_proc t q)) \<and>
      sq_list (snd (enqueue_proc t q)) = sq_list q @ [t]" if "length (sq_list q) < MAX_PROCS"
    using that len \<open>sq_inv q\<close> enqueue_proc_list [of q t] by (auto simp: sq_full_def)
  show "dequeue_proc q = (-1, q)" if "sq_list q = []"
    using that len \<open>sq_inv q\<close> by (simp add: dequeue_proc_def sq_empty_def sq_inv_def)
  show "fst (dequeue_proc q) = hd (sq_list q) \<and> sq_inv (snd (dequeue_proc q)) \<and>
      sq_list (snd (dequeue_proc q)) = tl (sq_list q)" if "sq_list q \<noteq> []"
    using that \<open>sq_inv q\<close> dequeue_proc_list [of q]
    by (auto simp: sq_empty_def sq_list_def sq_len_def)
qed

section \<open>Facts the properties rest on\<close>

lemma sq_inv_init: "sq_inv sched_init"
  by (simp add: sq_inv_def sched_init_def sq_len_def MAX_PROCS_def)

lemma sq_list_init: "sq_list sched_init = []"
  by (simp add: sq_list_def sched_init_def sq_len_def)

lemma schedule_eq:
  "schedule s = (fst (dequeue_proc s), snd (enqueue_proc (fst (dequeue_proc s)) (snd (dequeue_proc s))))"
  by (simp add: schedule_def Let_def split: prod.splits)

lemma schedule_rotates:
  assumes "sq_inv s" and "sq_list s \<noteq> []"
  shows "fst (schedule s) = hd (sq_list s)" and "sq_inv (snd (schedule s))"
    and "sq_list (snd (schedule s)) = rotate1 (sq_list s)"
  using rq.turn_nonempty [OF assms] by (simp_all add: schedule_eq)

lemma schedules_list:
  assumes "sq_inv s" and "sq_list s \<noteq> []"
  shows "fst (schedules k s) = map (\<lambda>i. sq_list s ! (i mod length (sq_list s))) [0..<k]
    \<and> sq_inv (snd (schedules k s)) \<and> sq_list (snd (schedules k s)) = rotate k (sq_list s)"
  using assms
proof (induction k arbitrary: s)
  case 0
  then show ?case by simp
next
  case (Suc k)
  let ?q = "sq_list s" and ?s = "snd (schedule s)"
  note r = schedule_rotates [OF Suc.prems]
  have ne: "sq_list ?s \<noteq> []" using r(3) Suc.prems(2) by simp
  note IH = Suc.IH [OF r(2) ne]
  have "rotate1 ?q ! (i mod length ?q) = ?q ! (Suc i mod length ?q)" for i
    using Suc.prems(2) by (simp add: nth_rotate1 mod_Suc_eq)
  then have "fst (schedules (Suc k) s) = map (\<lambda>i. ?q ! (i mod length ?q)) (0 # map Suc [0..<k])"
    using IH r(1,3) Suc.prems(2) by (simp add: Let_def split_beta hd_conv_nth)
  moreover have "rotate k (rotate1 ?q) = rotate (Suc k) ?q"
    by (simp add: rotate1_rotate_swap rotate_Suc)
  ultimately show ?case using IH r(3)
    by (simp add: Let_def split_beta upt_conv_Cons map_Suc_upt del: upt_Suc)
qed

lemma upt_4: "[0..<4] = [0, 1, 2, 3]" and upt_5: "[0..<5] = [0, 1, 2, 3, 4]"
  by (simp_all add: upt_conv_Cons)

section \<open>Properties\<close>

text \<open>
  C3: the ring buffer refines a FIFO list of at most \<open>MAX_PROCS\<close> entries. \<open>enqueue_proc\<close> appends
  and returns 0 unless the queue is full, when it returns -1 and changes nothing; \<open>dequeue_proc\<close>
  removes and returns the first entry unless the queue is empty, when it returns -1 and changes
  nothing; both keep the ring buffer's invariant.
\<close>

theorem run_queue_refines_fifo:
  assumes "sq_inv s"
  shows "length (sq_list s) \<le> MAX_PROCS \<and>
    (if length (sq_list s) = MAX_PROCS then enqueue_proc t s = (-1, s)
     else \<exists>s'. enqueue_proc t s = (0, s') \<and> sq_inv s' \<and> sq_list s' = sq_list s @ [t]) \<and>
    (case sq_list s of
       [] \<Rightarrow> dequeue_proc s = (-1, s)
     | x # xs \<Rightarrow> \<exists>s'. dequeue_proc s = (x, s') \<and> sq_inv s' \<and> sq_list s' = xs)"
  using rq.len_cap [OF assms] rq.enq_full [OF assms, of t] rq.enq_ok [OF assms, of t]
    rq.deq_empty [OF assms] rq.deq_ok [OF assms]
  by (auto simp: prod_eq_iff split: list.splits)

theorem run_queue_refines_fifo_witness:
  "\<exists>s'. enqueue_proc 7 sched_init = (0, s') \<and> sq_inv s' \<and> sq_list s' = [7]"
  using run_queue_refines_fifo [OF sq_inv_init, of 7] by (simp add: sq_list_init MAX_PROCS_def)

text \<open>
  Round robin. With a queue that is not empty, the threads that \<open>k\<close> successive calls of
  \<open>schedule\<close> choose are the queued threads cyclically, in queue order, so each of \<open>m\<close> threads runs
  once in every \<open>m\<close> calls; the queue is rotated and no thread is lost.
\<close>

theorem schedule_round_robin:
  assumes "sq_inv s" and "sq_list s \<noteq> []"
  shows "fst (schedules k s) = map (\<lambda>i. sq_list s ! (i mod length (sq_list s))) [0..<k] \<and>
    sq_inv (snd (schedules k s)) \<and> sq_list (snd (schedules k s)) = rotate k (sq_list s)"
  by (rule schedules_list [OF assms])

definition two_threads :: sched where
  "two_threads = snd (enqueue_proc 6 (snd (enqueue_proc 5 sched_init)))"

lemma two_threads: "sq_inv two_threads" "sq_list two_threads = [5, 6]"
  by (simp_all add: two_threads_def sq_inv_def sq_list_def sq_len_def enqueue_proc_def sq_full_def
      sched_init_def MAX_PROCS_def upt_conv_Cons)

theorem schedule_round_robin_witness:
  "fst (schedules 5 two_threads) = [5, 6, 5, 6, 5] \<and> sq_list two_threads = [5, 6]"
  using schedule_round_robin [of two_threads 5] by (simp add: two_threads upt_5 numeral_2_eq_2 [symmetric])

text \<open>
  On an empty queue \<open>schedule\<close> returns -1, and it also puts that -1 into the queue, where it
  stays: every later call with no other thread queued returns -1, and once a thread \<open>t\<close> is queued
  every second call still returns -1.
\<close>

theorem schedule_empty_queues_error:
  assumes "sq_inv s" and "sq_list s = []"
  shows "fst (schedule s) = -1 \<and> sq_list (snd (schedule s)) = [-1] \<and>
    fst (schedules 4 (snd (enqueue_proc t (snd (schedule s))))) = [-1, t, -1, t]"
proof -
  let ?s = "snd (schedule s)"
  have f: "fst (schedule s) = -1" and l: "sq_list ?s = [-1]"
    using rq.deq_empty [OF assms] rq.turn_empty [OF assms] by (simp_all add: schedule_eq)
  have i: "sq_inv ?s"
    using assms rq.enq_ok [OF assms(1), of "-1"] rq.cap_pos
    by (simp add: schedule_eq rq.deq_empty)
  have e: "sq_inv (snd (enqueue_proc t ?s))" "sq_list (snd (enqueue_proc t ?s)) = [-1, t]"
    using rq.enq_ok [OF i, of t] l by (simp_all add: MAX_PROCS_def)
  show ?thesis using f l schedules_list [OF e(1), of 4] e(2)
    by (simp add: upt_4 numeral_2_eq_2 [symmetric])
qed

theorem schedule_empty_queues_error_witness:
  "fst (schedules 4 (snd (enqueue_proc 9 (snd (schedule sched_init))))) = [-1, 9, -1, 9]"
  using schedule_empty_queues_error [OF sq_inv_init sq_list_init, of 9] by blast

end
