(* ===== verification/Timer.thy ===== *)
theory Timer
  imports Prelude
begin

text \<open>
  The system timer of \<^verbatim>\<open>generic/timer.c\<close>: a tick counter and a table of callbacks, each to be called
  every \<open>n\<close> ticks. The callbacks of the source change the rest of the kernel's state, which is the
  type parameter \<open>'s\<close>; a function pointer is \<open>Some f\<close>, NULL is \<open>None\<close>. A tick that divides by a
  zero period or calls NULL does not return.
\<close>

section \<open>Model\<close>

definition MAX_TIMER_HANDLES :: nat where
  "MAX_TIMER_HANDLES = 8"

record 's timer_handle =
  cbk :: "('s \<Rightarrow> 's) option"
  hperiod :: u64   \<comment> \<open>the field \<^verbatim>\<open>n\<close>\<close>

record 's timer =
  ticks :: u64
  handles :: "'s timer_handle list"   \<comment> \<open>\<^verbatim>\<open>handles[MAX_TIMER_HANDLES]\<close>\<close>
  next_handle_ind :: nat

definition timer_init :: "'s timer" where
  "timer_init = \<lparr>ticks = 0, handles = replicate MAX_TIMER_HANDLES \<lparr>cbk = None, hperiod = 0\<rparr>,
    next_handle_ind = 0\<rparr>"

definition add_timer_handle ::
    "('s \<Rightarrow> 's) option \<Rightarrow> u64 \<Rightarrow> 's timer \<Rightarrow> int \<times> 's timer" where
  "add_timer_handle f n tm =
    (if next_handle_ind tm \<ge> MAX_TIMER_HANDLES then (-1, tm)
     else (int (next_handle_ind tm),
           tm\<lparr>handles := (handles tm)[next_handle_ind tm := \<lparr>cbk = f, hperiod = n\<rparr>],
              next_handle_ind := next_handle_ind tm + 1\<rparr>))"

text \<open>The loop of \<open>timer_tick\<close> over the registered handles, at tick \<open>t\<close>.\<close>

fun fire_handles :: "u64 \<Rightarrow> 's timer_handle list \<Rightarrow> 's \<Rightarrow> 's option" where
  "fire_handles t [] s = Some s"
| "fire_handles t (h # hs) s =
    (if hperiod h = 0 then None
     else if t mod hperiod h = 0
     then (case cbk h of None \<Rightarrow> None | Some f \<Rightarrow> fire_handles t hs (f s))
     else fire_handles t hs s)"

definition timer_tick :: "'s timer \<Rightarrow> 's \<Rightarrow> ('s timer \<times> 's) option" where
  "timer_tick tm s =
    (let tm1 = tm\<lparr>ticks := ticks tm + 1\<rparr>
     in map_option (Pair tm1)
          (fire_handles (ticks tm1) (take (next_handle_ind tm1) (handles tm1)) s))"

primrec timer_ticks :: "nat \<Rightarrow> 's timer \<Rightarrow> 's \<Rightarrow> ('s timer \<times> 's) option" where
  "timer_ticks 0 tm s = Some (tm, s)"
| "timer_ticks (Suc k) tm s =
    (case timer_ticks k tm s of None \<Rightarrow> None | Some (tm', s') \<Rightarrow> timer_tick tm' s')"

text \<open>The table is well formed: every registered handle can be called.\<close>

definition timer_inv :: "'s timer \<Rightarrow> bool" where
  "timer_inv tm \<longleftrightarrow> length (handles tm) = MAX_TIMER_HANDLES \<and>
    next_handle_ind tm \<le> MAX_TIMER_HANDLES \<and>
    (\<forall>i < next_handle_ind tm. hperiod (handles tm ! i) \<noteq> 0 \<and> cbk (handles tm ! i) \<noteq> None)"

text \<open>What a tick at time \<open>t\<close> does to the rest of the kernel: the due callbacks, in table order.\<close>

definition due_callbacks :: "u64 \<Rightarrow> 's timer \<Rightarrow> ('s \<Rightarrow> 's) list" where
  "due_callbacks t tm =
    map (\<lambda>h. the (cbk h))
      (filter (\<lambda>h. t mod hperiod h = 0) (take (next_handle_ind tm) (handles tm)))"

section \<open>Lemmas\<close>

lemma timer_inv_init: "timer_inv timer_init"
  by (simp add: timer_inv_def timer_init_def)

lemma timer_inv_take:
  "timer_inv tm \<Longrightarrow> h \<in> set (take (next_handle_ind tm) (handles tm)) \<Longrightarrow>
    hperiod h \<noteq> 0 \<and> cbk h \<noteq> None"
  by (auto simp: timer_inv_def in_set_conv_nth)

lemma add_timer_handle_inv:
  assumes "timer_inv tm" and "f \<noteq> None" and "n \<noteq> 0"
  shows "timer_inv (snd (add_timer_handle f n tm))"
  using assms by (auto simp: timer_inv_def add_timer_handle_def nth_list_update less_Suc_eq)

lemma fire_handles_fold:
  assumes "\<forall>h \<in> set hs. hperiod h \<noteq> 0 \<and> cbk h \<noteq> None"
  shows "fire_handles t hs s =
    Some (fold (\<lambda>f. f) (map (\<lambda>h. the (cbk h)) (filter (\<lambda>h. t mod hperiod h = 0) hs)) s)"
  using assms by (induction hs arbitrary: s) (auto split: option.splits)

lemma timer_tick_total:
  assumes "timer_inv tm"
  shows "timer_tick tm s =
    Some (tm\<lparr>ticks := ticks tm + 1\<rparr>, fold (\<lambda>f. f) (due_callbacks (ticks tm + 1) tm) s)"
proof -
  have "\<forall>h \<in> set (take (next_handle_ind tm) (handles tm)). hperiod h \<noteq> 0 \<and> cbk h \<noteq> None"
    using timer_inv_take [OF assms] by blast
  then show ?thesis
    by (simp add: timer_tick_def due_callbacks_def fire_handles_fold Let_def)
qed

lemma timer_inv_ticks: "timer_inv (tm\<lparr>ticks := t\<rparr>) = timer_inv tm"
  by (simp add: timer_inv_def)

lemma of_nat_mod_u64:
  assumes "k < 2 ^ 64"
  shows "(of_nat k :: u64) mod n = 0 \<longleftrightarrow> k mod unat n = 0"
proof -
  have "unat (of_nat k :: u64) = k" using assms by (simp add: unat_of_nat)
  then show ?thesis by (metis unat_mod_distrib unat_0 word_unat_eq_iff)
qed

lemma Suc_div_iff: "0 < n \<Longrightarrow> Suc k div n = (if Suc k mod n = 0 then Suc (k div n) else k div n)"
  by (simp add: div_Suc)

lemma timer_ticks_single:
  assumes tm: "timer_inv tm" "next_handle_ind tm = 1" "ticks tm = 0"
    and h: "cbk (handles tm ! 0) = Some f"
  shows "k < 2 ^ 64 \<Longrightarrow> timer_ticks k tm s =
    Some (tm\<lparr>ticks := of_nat k\<rparr>, (f ^^ (k div unat (hperiod (handles tm ! 0)))) s)"
proof (induction k)
  case 0
  then show ?case using tm(3) by simp
next
  case (Suc k)
  let ?n = "hperiod (handles tm ! 0)"
  have n: "0 < unat ?n" using tm(1,2) by (simp add: timer_inv_def unat_gt_0)
  have t1: "take (Suc 0) (handles tm) = [handles tm ! 0]"
    using tm(1) by (cases "handles tm") (auto simp: timer_inv_def MAX_TIMER_HANDLES_def)
  have due: "due_callbacks (of_nat (Suc k)) (tm\<lparr>ticks := of_nat k\<rparr>) =
      (if Suc k mod unat ?n = 0 then [f] else [])"
    using of_nat_mod_u64 [OF Suc.prems, of ?n] t1 tm(2) h by (simp add: due_callbacks_def)
  have "timer_tick (tm\<lparr>ticks := of_nat k\<rparr>) s' = Some (tm\<lparr>ticks := of_nat (Suc k)\<rparr>,
      (if Suc k mod unat ?n = 0 then f s' else s'))" for s'
    using timer_tick_total [of "tm\<lparr>ticks := of_nat k\<rparr>" s'] tm(1) due
    by (simp add: timer_inv_ticks add.commute)
  moreover have "timer_ticks k tm s =
      Some (tm\<lparr>ticks := of_nat k\<rparr>, (f ^^ (k div unat ?n)) s)"
    using Suc by simp
  ultimately show ?case using n by (simp add: Suc_div_iff)
qed

text \<open>
  The reference for a period of time: the registered handles due at a tick, by their number in the table, and those called in the
  \<open>k\<close> ticks after tick \<open>t\<close>, in the order of the calls.
\<close>

definition due_handles :: "nat \<Rightarrow> 's timer \<Rightarrow> nat list" where
  "due_handles t tm = filter (\<lambda>i. t mod unat (hperiod (handles tm ! i)) = 0) [0..<next_handle_ind tm]"

definition fired :: "nat \<Rightarrow> nat \<Rightarrow> 's timer \<Rightarrow> nat list" where
  "fired t k tm = concat (map (\<lambda>j. due_handles (t + j + 1) tm) [0..<k])"

lemma due_callbacks_handles:
  assumes "timer_inv tm" and "t < 2 ^ 64"
  shows "due_callbacks (of_nat t) tm = map (\<lambda>i. the (cbk (handles tm ! i))) (due_handles t tm)"
proof -
  have "take (next_handle_ind tm) (handles tm) = map ((!) (handles tm)) [0..<next_handle_ind tm]"
    using assms(1) by (intro nth_equalityI) (simp_all add: timer_inv_def)
  then show ?thesis
    using of_nat_mod_u64 [OF assms(2)] by (simp add: due_callbacks_def due_handles_def filter_map o_def)
qed

lemma timer_ticks_fired:
  assumes "timer_inv tm" and "unat (ticks tm) + k < 2 ^ 64"
  shows "timer_ticks k tm s = Some (tm\<lparr>ticks := of_nat (unat (ticks tm) + k)\<rparr>,
    fold (\<lambda>i. the (cbk (handles tm ! i))) (fired (unat (ticks tm)) k tm) s)"
  using assms(2)
proof (induction k)
  case (Suc k)
  let ?t = "unat (ticks tm)" and ?tm = "tm\<lparr>ticks := of_nat (unat (ticks tm) + k)\<rparr>"
  have w: "ticks ?tm + 1 = of_nat (?t + k + 1)" by simp
  have "due_callbacks (ticks ?tm + 1) ?tm = map (\<lambda>i. the (cbk (handles tm ! i))) (due_handles (?t + k + 1) tm)"
    unfolding w using due_callbacks_handles [of ?tm "?t + k + 1"] assms(1) Suc.prems
    by (simp add: timer_inv_ticks due_handles_def del: of_nat_add)
  then have "timer_tick ?tm s' = Some (tm\<lparr>ticks := of_nat (?t + k + 1)\<rparr>,
      fold (\<lambda>i. the (cbk (handles tm ! i))) (due_handles (?t + k + 1) tm) s')" for s'
    using timer_tick_total [of ?tm s'] assms(1) unfolding w
    by (simp add: timer_inv_ticks fold_map o_def del: of_nat_add)
  then show ?case using Suc by (simp add: fired_def del: of_nat_add)
qed (simp add: fired_def)

lemma count_filter_upt: "count_list (filter P [0..<n]) i = (if i < n \<and> P i then 1 else 0)"
  by (induction n) auto

lemma count_fired:
  assumes "timer_inv tm" and "i < next_handle_ind tm"
  shows "count_list (fired t k tm) i =
    (t + k) div unat (hperiod (handles tm ! i)) - t div unat (hperiod (handles tm ! i))"
proof -
  let ?n = "unat (hperiod (handles tm ! i))"
  have n: "0 < ?n" using assms by (simp add: timer_inv_def unat_gt_0)
  have "count_list (fired t k tm) i + t div ?n = (t + k) div ?n"
  proof (induction k)
    case (Suc k)
    then show ?case using Suc_div_iff [OF n, of "t + k"] assms(2)
      by (simp add: fired_def due_handles_def count_filter_upt)
  qed (simp add: fired_def)
  then show ?thesis by simp
qed

section \<open>Properties\<close>

text \<open>
  A tick of a well-formed timer returns. It advances the counter by one (modulo \<open>2^64\<close>), calls
  exactly the registered callbacks whose period divides the new count, in the order they were
  registered, and leaves the table as it was; the table stays well formed, and so it does when a
  callback with a non-zero period is registered.
\<close>

theorem timer_tick_calls_due:
  assumes "timer_inv tm" and "n \<noteq> 0"
  shows "timer_tick tm s =
      Some (tm\<lparr>ticks := ticks tm + 1\<rparr>, fold (\<lambda>f. f) (due_callbacks (ticks tm + 1) tm) s) \<and>
    timer_inv (tm\<lparr>ticks := ticks tm + 1\<rparr>) \<and> timer_inv (snd (add_timer_handle (Some f) n tm))"
  using timer_tick_total [OF assms(1)] add_timer_handle_inv [OF assms(1) _ assms(2)] assms(1)
  by (simp add: timer_inv_ticks)

definition counting_timer :: "nat timer" where
  "counting_timer = snd (add_timer_handle (Some Suc) 3 timer_init)"

lemma counting_timer: "timer_inv counting_timer" "next_handle_ind counting_timer = 1"
  "ticks counting_timer = 0" "cbk (handles counting_timer ! 0) = Some Suc"
  "hperiod (handles counting_timer ! 0) = 3"
  by (simp_all add: counting_timer_def add_timer_handle_inv timer_inv_init)
    (simp_all add: add_timer_handle_def timer_init_def MAX_TIMER_HANDLES_def)

theorem timer_tick_calls_due_witness:
  "timer_tick counting_timer 0 = Some (counting_timer\<lparr>ticks := 1\<rparr>,
    fold (\<lambda>f. f) (due_callbacks 1 counting_timer) 0)"
  using timer_tick_calls_due [OF counting_timer(1), of 5 0] by (simp add: counting_timer)

text \<open>
  C24: the promise ``every \<open>n\<close> ticks'', for every table of handles and every start. From a well-formed timer at tick \<open>t\<close>, \<open>k\<close> further
  ticks (before the counter wraps) return; they call the registered handles that are due, tick by tick and in table
  order within a tick, and change nothing else of the timer. A handle of period \<open>n\<close> is called \<open>(t + k) div n - t div n\<close> times, which is once for every
  multiple of \<open>n\<close> in \<open>t < \<dots> \<le> t + k\<close>.
\<close>

theorem timer_every_n_ticks:
  assumes "timer_inv tm" and "t = unat (ticks tm)" and "t + k < 2 ^ 64"
  shows "timer_ticks k tm s = Some (tm\<lparr>ticks := of_nat (t + k)\<rparr>,
      fold (\<lambda>i. the (cbk (handles tm ! i))) (fired t k tm) s) \<and>
    (\<forall>i < next_handle_ind tm. count_list (fired t k tm) i =
      (t + k) div unat (hperiod (handles tm ! i)) - t div unat (hperiod (handles tm ! i)))"
  using timer_ticks_fired [OF assms(1)] count_fired [OF assms(1)] assms(2,3) by simp

text \<open>Two handles, of periods 2 and 3, that note down their calls, from tick 4 to tick 10.\<close>

definition two_handles :: "nat list timer" where
  "two_handles = (snd (add_timer_handle (Some (\<lambda>l. l @ [1])) 3 (snd (add_timer_handle (Some (\<lambda>l. l @ [0])) 2 timer_init))))\<lparr>ticks := 4\<rparr>"

lemma two_handles:
  "timer_inv two_handles" "ticks two_handles = 4" "next_handle_ind two_handles = 2"
  "handles two_handles ! 0 = \<lparr>cbk = Some (\<lambda>l. l @ [0]), hperiod = 2\<rparr>"
  "handles two_handles ! 1 = \<lparr>cbk = Some (\<lambda>l. l @ [1]), hperiod = 3\<rparr>"
  by (simp_all add: two_handles_def timer_inv_ticks add_timer_handle_inv timer_inv_init)
    (simp_all add: add_timer_handle_def timer_init_def MAX_TIMER_HANDLES_def nth_list_update)

theorem timer_every_n_ticks_witness:
  "timer_ticks 6 two_handles [] = Some (two_handles\<lparr>ticks := 10\<rparr>, [0, 1, 0, 1, 0]) \<and> count_list (fired 4 6 two_handles) 1 = 2"
proof -
  have "[0..<2] = [0, 1 :: nat]" "[0..<6] = [0, 1, 2, 3, 4, 5 :: nat]" by (simp_all add: upt_rec)
  then have "fired 4 6 two_handles = [0, 1, 0, 1, 0]"
    using two_handles(3-5) by (simp add: fired_def due_handles_def)
  then show ?thesis
    using timer_every_n_ticks [OF two_handles(1), of 4 6 "[]"] two_handles(2-5) by simp
qed

text \<open>
  Registration does not look at the period. A handle registered with period 0 makes the next
  tick divide by zero: the tick does not return.
\<close>

theorem timer_zero_period_faults:
  assumes "timer_inv tm" and "next_handle_ind tm < MAX_TIMER_HANDLES"
  shows "fst (add_timer_handle f 0 tm) = int (next_handle_ind tm) \<and>
    timer_tick (snd (add_timer_handle f 0 tm)) s = None"
proof -
  let ?hs = "handles tm" and ?i = "next_handle_ind tm"
  have z: "fire_handles t (hs @ \<lparr>cbk = f, hperiod = 0\<rparr> # hs') s = None" for t hs hs' s
    by (induction hs arbitrary: s) (auto split: option.splits)
  have "take (Suc ?i) (?hs[?i := \<lparr>cbk = f, hperiod = 0\<rparr>]) = take ?i ?hs @ [\<lparr>cbk = f, hperiod = 0\<rparr>]"
    using assms by (simp add: timer_inv_def take_Suc_conv_app_nth)
  then show ?thesis using assms z [of _ _ "[]"]
    by (simp add: add_timer_handle_def timer_tick_def Let_def)
qed

theorem timer_zero_period_faults_witness:
  "timer_tick (snd (add_timer_handle (Some Suc) 0 timer_init)) 0 = None"
  using timer_zero_period_faults [OF timer_inv_init, of "Some Suc" 0]
  by (simp add: timer_init_def MAX_TIMER_HANDLES_def)

end
