(* ===== verification/Process.thy ===== *)
theory Process
  imports Paging CString Sched Timer
begin

text \<open>
  Processes: \<^verbatim>\<open>fors/process.h\<close>, \<^verbatim>\<open>arch/x64/cpu.h\<close>, \<^verbatim>\<open>arch/x64/thread/process.c\<close> and \<open>find_free_tid\<close> of
  \<^verbatim>\<open>generic/proc/thread.c\<close>. The fields \<open>name\<close> and \<open>cwd\<close> of a process live in the byte memory, next to each
  other as in the C struct, because \<open>strncpy\<close> works on them; the other fields are record fields. What
  the boot loader and the linker provide is the record \<open>boot_info\<close>. \<open>KPANIC\<close>, an access through NULL
  and an endless loop are \<open>None\<close>.
\<close>

section \<open>Model\<close>

definition PROC_NAME_LENGTH :: u64 where "PROC_NAME_LENGTH = 32"
definition FDS_PER_PROC :: nat where "FDS_PER_PROC = 32"

datatype proc_status = PROC_RUNNING | PROC_READY | PROC_BLOCKED | PROC_KILLED

record register_ctx =
  cr3 :: u64
  r15 :: u64
  r14 :: u64
  r13 :: u64
  r12 :: u64
  r11 :: u64
  r10 :: u64
  r9 :: u64
  r8 :: u64
  rbp :: u64
  rdi :: u64
  rsi :: u64
  rdx :: u64
  rcx :: u64
  rbx :: u64
  rax :: u64
  vector :: u64
  error_code :: u64
  rip :: u64
  cs :: u64
  rflags :: u64
  rsp :: u64
  ss :: u64

record process =
  present :: bool
  tid :: int
  gid :: int
  uid :: int
  pstatus :: proc_status
  fdmap :: "int list"
  ctx :: register_ctx

record kproc =
  frames :: pmm
  kmem :: mem
  procs :: "process list"
  current_proc :: int

record boot_info =
  trans :: "u64 \<Rightarrow> u64"          \<comment> \<open>the address translation of the kernel\<close>
  memmap :: "memmap_entry list"
  hhdm :: u64
  virtual_base :: u64
  physical_base :: u64
  code_offset :: u64
  code_end_offset :: u64
  ro_offset :: u64
  ro_end_offset :: u64
  rw_offset :: u64
  rw_end_offset :: u64
  heap_start :: u64
  kernel_pml4_table :: u64
  procs_base :: u64               \<comment> \<open>the address of the array \<^verbatim>\<open>procs\<close>\<close>
  default_cwd :: u64              \<comment> \<open>the address of the literal \<^verbatim>\<open>"/"\<close>\<close>

definition LIMINE_MEMMAP_RESERVED :: u64 where "LIMINE_MEMMAP_RESERVED = 1"
definition KERNEL_CS :: u64 where "KERNEL_CS = 0x08"
definition KERNEL_SS :: u64 where "KERNEL_SS = 0x10"
definition USER_CS :: u64 where "USER_CS = 0x1b"
definition USER_SS :: u64 where "USER_SS = 0x23"
definition RFLAGS_BASE :: u64 where "RFLAGS_BASE = 2"
definition RFLAGS_IF :: u64 where "RFLAGS_IF = 0x200"

definition find_free_tid_in :: "process list \<Rightarrow> int" where
  "find_free_tid_in ps = scan_from (\<lambda>p. \<not> present p) 0 ps"

definition find_free_tid :: "'x kproc_scheme \<Rightarrow> int" where
  "find_free_tid s = find_free_tid_in (procs s)"

text \<open>The addresses of the fields \<open>name\<close> and \<open>cwd\<close> of slot \<open>i\<close>: \<open>sizeof(process) = 520\<close>.\<close>

definition proc_name_addr :: "boot_info \<Rightarrow> nat \<Rightarrow> u64" where
  "proc_name_addr bi i = procs_base bi + 520 * of_nat i + 32"

definition proc_cwd_addr :: "boot_info \<Rightarrow> nat \<Rightarrow> u64" where
  "proc_cwd_addr bi i = proc_name_addr bi i + PROC_NAME_LENGTH"

text \<open>A pointer in byte memory, little endian.\<close>

definition store_ptr :: "u64 \<Rightarrow> u64 \<Rightarrow> mem \<Rightarrow> mem" where
  "store_ptr p v m = fold (\<lambda>k m. m(p + of_nat k := ucast (drop_bit (8 * k) v))) [0..<8] m"

definition load_ptr :: "u64 \<Rightarrow> mem \<Rightarrow> u64" where
  "load_ptr p m = fold (\<lambda>k v. v OR push_bit (8 * k) (ucast (m (p + of_nat k)))) [0..<8] 0"

definition proc_cwd :: "boot_info \<Rightarrow> nat \<Rightarrow> 'x kproc_scheme \<Rightarrow> u64" where
  "proc_cwd bi i s = load_ptr (proc_cwd_addr bi i) (kmem s)"

text \<open>
  One of the mapping loops of \<open>new_blank_user_pml4\<close>: pages at \<open>phys + off\<close> to \<open>virt + off\<close> while
  \<open>off < limit\<close>; a failed mapping is a panic (two of the loops test for a negative result, two for a
  result that is not 0; \<open>map_page_4k\<close> returns no positive value).
\<close>

partial_function (option) map_loop ::
    "(u64 \<Rightarrow> u64) \<Rightarrow> u64 \<Rightarrow> u64 \<Rightarrow> u64 \<Rightarrow> u32 \<Rightarrow> u64 \<Rightarrow> u64 \<Rightarrow> pmm \<Rightarrow> pmm option" where
  "map_loop tr pml4 phys virt flags limit off s =
    (if off < limit
     then (case map_page_4k tr pml4 (phys + off) (virt + off) flags s of
             (r, s1) \<Rightarrow> if r \<noteq> 0 then None
                        else map_loop tr pml4 phys virt flags limit (off + ARCH_PAGE_SIZE) s1)
     else Some s)"

text \<open>The virtual address of the first loop is \<^verbatim>\<open>hhdm_request.response->offset + off\<close>, without the base.\<close>

fun map_memmap :: "boot_info \<Rightarrow> u64 \<Rightarrow> memmap_entry list \<Rightarrow> pmm \<Rightarrow> pmm option" where
  "map_memmap bi pml4 [] s = Some s"
| "map_memmap bi pml4 (e # ents) s =
    (if me_type e \<noteq> LIMINE_MEMMAP_RESERVED
     then do {
       s1 \<leftarrow> map_loop (trans bi) pml4 (me_base e) (hhdm bi)
              (ucast (PSE_PRESENT OR PSE_WRITABLE)) (me_length e) 0 s;
       map_memmap bi pml4 ents s1 }
     else map_memmap bi pml4 ents s)"

definition new_blank_user_pml4 :: "boot_info \<Rightarrow> pmm \<Rightarrow> (u64 \<times> pmm) option" where
  "new_blank_user_pml4 bi s =
    (let (new_pml4, s0) = pfalloc_one s; tr = trans bi;
         load = virtual_base bi; phys = physical_base bi
     in if new_pml4 = 0 then None
        else do {
          s1 \<leftarrow> map_memmap bi new_pml4 (rev (memmap bi)) s0;
          s2 \<leftarrow> map_loop tr new_pml4 phys load (ucast PSE_PRESENT)
                 (code_end_offset bi + ARCH_PAGE_SIZE) (code_offset bi) s1;
          s3 \<leftarrow> map_loop tr new_pml4 phys load (ucast PSE_PRESENT)
                 (ro_end_offset bi + ARCH_PAGE_SIZE) (ro_offset bi) s2;
          s4 \<leftarrow> map_loop tr new_pml4 phys load (ucast (PSE_PRESENT OR PSE_WRITABLE))
                 (rw_end_offset bi + ARCH_PAGE_SIZE) (rw_offset bi) s3;
          let (suc, kheap_phys) = map_lookup tr (hhdm bi) (kernel_pml4_table bi) (heap_start bi) s4;
          (if suc < 0 then None
           else Some (new_pml4, snd (map_page_4k tr new_pml4 kheap_phys (heap_start bi)
                                (ucast (PSE_PRESENT OR PSE_WRITABLE)) s4))) })"

text \<open>
  \<open>create_process\<close> writes the fields in the order of the source: \<open>cwd\<close> first, then \<open>name\<close> with
  \<open>strncpy\<close>, then the descriptors and the context. \<open>stack = 0\<close> asks for a fresh stack.
\<close>

definition create_process ::
    "boot_info \<Rightarrow> u64 \<Rightarrow> u64 \<Rightarrow> u64 \<Rightarrow> u64 \<Rightarrow> bool \<Rightarrow> 'x kproc_scheme \<Rightarrow> (int \<times> 'x kproc_scheme) option" where
  "create_process bi pname entry arg stack user s =
    (let t = find_free_tid s
     in if t < 0 then Some (-1, s)
        else do {
          let i = nat t;
          let m1 = store_ptr (proc_cwd_addr bi i) (default_cwd bi) (kmem s);
          let m2 = snd (strncpy (proc_name_addr bi i) pname PROC_NAME_LENGTH m1);
          (root, f1) \<leftarrow> (if user then new_blank_user_pml4 bi (frames s)
                         else Some (kernel_pml4_table bi, frames s));
          let (sp, f2) = (if stack \<noteq> 0 then (stack, f1) else allocate_stack (hhdm bi) f1);
          let p = procs s ! i;
          let c = (ctx p)\<lparr>cs := (if user then USER_CS else KERNEL_CS),
                          ss := (if user then USER_SS else KERNEL_SS),
                          cr3 := root, rflags := RFLAGS_BASE OR RFLAGS_IF, rsp := sp,
                          rip := entry, rdi := arg, rbp := 0\<rparr>;
          Some (t, s\<lparr>kmem := m2, frames := f2,
            procs := (procs s)[i := p\<lparr>tid := t, present := True, pstatus := PROC_READY,
                                     fdmap := replicate FDS_PER_PROC (-1), ctx := c\<rparr>]\<rparr>) })"

text \<open>The timer callback that picks the next thread, on the run queue and \<open>current_proc\<close>.\<close>

definition schedule_set_current_proc :: "sched \<times> int \<Rightarrow> sched \<times> int" where
  "schedule_set_current_proc c = (let (t, q) = schedule (fst c) in (q, t))"

definition arch_start_running_procs :: "(sched \<times> int) timer \<Rightarrow> (sched \<times> int) timer" where
  "arch_start_running_procs tm = snd (add_timer_handle (Some schedule_set_current_proc) 1 tm)"

section \<open>The process table\<close>

interpretation pt: slot_table "\<lambda>p. \<not> present p" find_free_tid_in
  by unfold_locales (simp add: find_free_tid_in_def)

lemma create_process_full:
  "find_free_tid s < 0 \<Longrightarrow> create_process bi pname entry arg stack user s = Some (-1, s)"
  by (simp add: create_process_def Let_def)

lemma create_process_cases:
  assumes "create_process bi pname entry arg stack user s = Some (t, s')" and "0 \<le> find_free_tid s"
  shows "t = find_free_tid s" and "current_proc s' = current_proc s"
    and "\<exists>c. procs s' = (procs s)[nat t := (procs s ! nat t)\<lparr>tid := t, present := True, pstatus := PROC_READY,
      fdmap := replicate FDS_PER_PROC (-1), ctx := c\<rparr>] \<and> rip c = entry \<and> rdi c = arg \<and>
      cs c = (if user then USER_CS else KERNEL_CS) \<and> ss c = (if user then USER_SS else KERNEL_SS) \<and>
      rflags c = 0x202 \<and> (user \<or> cr3 c = kernel_pml4_table bi) \<and> (stack = 0 \<or> rsp c = stack)"
proof -
  obtain root f1 where r: "(if user then new_blank_user_pml4 bi (frames s)
      else Some (kernel_pml4_table bi, frames s)) = Some (root, f1)"
    using assms by (auto simp: create_process_def Let_def bind_eq_Some_conv)
  have eq: "(t, s') = (let (sp, f2) = (if stack \<noteq> 0 then (stack, f1) else allocate_stack (hhdm bi) f1);
      p = procs s ! nat (find_free_tid s);
      c = (ctx p)\<lparr>cs := (if user then USER_CS else KERNEL_CS), ss := (if user then USER_SS else KERNEL_SS),
            cr3 := root, rflags := RFLAGS_BASE OR RFLAGS_IF, rsp := sp, rip := entry, rdi := arg, rbp := 0\<rparr>
      in (find_free_tid s, s\<lparr>kmem := snd (strncpy (proc_name_addr bi (nat (find_free_tid s))) pname PROC_NAME_LENGTH
              (store_ptr (proc_cwd_addr bi (nat (find_free_tid s))) (default_cwd bi) (kmem s))), frames := f2,
            procs := (procs s)[nat (find_free_tid s) := p\<lparr>tid := find_free_tid s, present := True, pstatus := PROC_READY,
                                     fdmap := replicate FDS_PER_PROC (-1), ctx := c\<rparr>]\<rparr>))"
    using assms r by (simp add: create_process_def Let_def case_prod_beta split: if_splits)
  have root: "user \<or> root = kernel_pml4_table bi" using r by (auto split: if_splits)
  show "t = find_free_tid s" and "current_proc s' = current_proc s"
    using eq by (auto simp: Let_def case_prod_beta)
  show "\<exists>c. procs s' = (procs s)[nat t := (procs s ! nat t)\<lparr>tid := t, present := True, pstatus := PROC_READY,
      fdmap := replicate FDS_PER_PROC (-1), ctx := c\<rparr>] \<and> rip c = entry \<and> rdi c = arg \<and>
      cs c = (if user then USER_CS else KERNEL_CS) \<and> ss c = (if user then USER_SS else KERNEL_SS) \<and>
      rflags c = 0x202 \<and> (user \<or> cr3 c = kernel_pml4_table bi) \<and> (stack = 0 \<or> rsp c = stack)"
    using eq root
    by (intro exI [of _ "(ctx (procs s ! nat t))\<lparr>cs := (if user then USER_CS else KERNEL_CS),
          ss := (if user then USER_SS else KERNEL_SS), cr3 := root, rflags := RFLAGS_BASE OR RFLAGS_IF,
          rsp := (if stack \<noteq> 0 then stack else fst (allocate_stack (hhdm bi) f1)), rip := entry, rdi := arg, rbp := 0\<rparr>"])
      (auto simp: Let_def case_prod_beta RFLAGS_BASE_def RFLAGS_IF_def)
qed

lemma create_kernel_process_returns:
  assumes "0 \<le> find_free_tid s"
  shows "\<exists>s'. create_process bi pname entry arg stack False s = Some (find_free_tid s, s')"
  using assms by (simp add: create_process_def Let_def split: prod.splits)

section \<open>Pointers in byte memory\<close>

lemma upt_8: "[0..<8] = [0, 1, 2, 3, 4, 5, 6, 7]"
  by (simp add: upt_conv_Cons)

lemma ptr_offset_neq:
  assumes "i < 8" and "j < 8" and "i \<noteq> j"
  shows "p + of_nat i \<noteq> (p + of_nat j :: u64)"
  using of_nat_u64_inj [of i j] assms by simp

lemma store_ptr_byte:
  assumes "k < 8"
  shows "store_ptr p v m (p + of_nat k) = ucast (drop_bit (8 * k) v)"
proof -
  have k: "k \<in> {0, 1, 2, 3, 4, 5, 6, 7}" using assms by auto
  show ?thesis unfolding store_ptr_def upt_8 using k by auto
qed

lemma bit_u8_high: "8 \<le> j \<Longrightarrow> \<not> bit (w :: u8) j"
  using bit_imp_le_length [of w j] by auto

lemma bit_load_ptr:
  assumes "k < 8" and "r < 8"
  shows "bit (load_ptr p m) (8 * k + r) \<longleftrightarrow> bit (m (p + of_nat k)) r"
proof -
  have k: "k \<in> {0, 1, 2, 3, 4, 5, 6, 7}" using assms(1) by auto
  then show ?thesis unfolding load_ptr_def upt_8 using assms(2)
    by (elim insertE) (auto simp: bit_or_iff bit_push_bit_iff bit_unsigned_iff bit_u8_high)
qed

lemma load_ptr_eqI:
  assumes "\<And>k r. k < 8 \<Longrightarrow> r < 8 \<Longrightarrow> bit (m (p + of_nat k)) r \<longleftrightarrow> bit v (8 * k + r)"
  shows "load_ptr p m = v"
proof (rule bit_word_eqI)
  fix n
  assume "n < LENGTH(64)"
  then have "8 * (n div 8) + n mod 8 = n" "n div 8 < 8" "n mod 8 < 8" by simp_all
  then show "bit (load_ptr p m) n = bit v n"
    using bit_load_ptr [of "n div 8" "n mod 8" p m] assms [of "n div 8" "n mod 8"] by simp
qed

lemma load_store_ptr: "load_ptr p (store_ptr p v m) = v"
  by (rule load_ptr_eqI) (simp add: store_ptr_byte bit_unsigned_iff bit_drop_bit_eq)

text \<open>Clearing the lowest byte of a stored pointer.\<close>

lemma load_ptr_low_byte_cleared:
  assumes "m' p = 0" and "\<And>k. 1 \<le> k \<Longrightarrow> k < 8 \<Longrightarrow> m' (p + of_nat k) = store_ptr p v m (p + of_nat k)"
  shows "load_ptr p m' = v AND NOT 0xff"
proof (rule load_ptr_eqI)
  fix k r :: nat
  assume k: "k < 8" "r < 8"
  have ff: "(0xff :: u64) = mask 8" by (simp add: mask_eq_exp_minus_1)
  have b: "bit (v AND NOT 0xff) n \<longleftrightarrow> bit v n \<and> 8 \<le> n" for n
    unfolding ff by (auto simp: bit_and_iff bit_not_iff bit_mask_iff dest: bit_imp_le_length)
  show "bit (m' (p + of_nat k)) r \<longleftrightarrow> bit (v AND NOT 0xff) (8 * k + r)"
  proof (cases "k = 0")
    case True
    then show ?thesis unfolding b using assms(1) k by simp
  next
    case False
    then show ?thesis unfolding b using assms(2) [of k] k by (simp add: store_ptr_byte bit_unsigned_iff bit_drop_bit_eq)
  qed
qed

section \<open>Lemmas on the new process\<close>

lemma find_free_tid_eq: "find_free_tid s = -1 \<longleftrightarrow> (\<forall>p \<in> set (procs s). present p)"
  and find_free_tid_nonneg: "find_free_tid s \<noteq> -1 \<Longrightarrow> 0 \<le> find_free_tid s"
  using pt.find_none_iff [of "procs s"] pt.find_in_range [of "procs s"]
  by (simp_all add: find_free_tid_def)

lemma create_process_slot:
  assumes c: "create_process bi pname entry arg stack user s = Some (t, s')" and f: "find_free_tid s \<noteq> -1"
  shows "t = find_free_tid s" and "0 \<le> t" and "nat t < length (procs s)" and "\<not> present (procs s ! nat t)"
    and "\<forall>j < nat t. present (procs s ! j)"
    and "length (filter (\<lambda>p. \<not> present p) (procs s)) = Suc (length (filter (\<lambda>p. \<not> present p) (procs s')))"
proof -
  note nn = find_free_tid_nonneg [OF f]
  note cases = create_process_cases [OF c nn]
  show t: "t = find_free_tid s" and "0 \<le> t" using cases(1) nn by simp_all
  have f': "find_free_tid_in (procs s) \<noteq> -1" "nat t = nat (find_free_tid_in (procs s))"
    using f t by (simp_all add: find_free_tid_def)
  show "nat t < length (procs s)" "\<not> present (procs s ! nat t)" "\<forall>j < nat t. present (procs s ! j)"
    using pt.find_in_range [OF f'(1)] pt.find_is_free [OF f'(1)] pt.find_first [OF f'(1)] f'(2) by auto
  obtain p where "procs s' = (procs s)[nat t := p]" "present p" using cases(3) by auto
  then show "length (filter (\<lambda>p. \<not> present p) (procs s)) = Suc (length (filter (\<lambda>p. \<not> present p) (procs s')))"
    using pt.fill_count [OF f'(1), of p] f'(2) by simp
qed

lemma create_process_mem:
  assumes "create_process bi pname entry arg stack user s = Some (t, s')" and "find_free_tid s \<noteq> -1"
  shows "kmem s' = snd (strncpy (proc_name_addr bi (nat t)) pname PROC_NAME_LENGTH
    (store_ptr (proc_cwd_addr bi (nat t)) (default_cwd bi) (kmem s)))"
  using assms find_free_tid_nonneg [OF assms(2)]
  by (auto simp: create_process_def Let_def bind_eq_Some_conv case_prod_beta)

lemma store_ptr_other:
  assumes "a \<notin> range_of p 8"
  shows "store_ptr p v m a = m a"
proof -
  have "a \<noteq> p + of_nat k" if "k < 8" for k using assms that by (auto simp: range_of_def)
  from this [of 0] this [of 1] this [of 2] this [of 3] this [of 4] this [of 5] this [of 6] this [of 7]
  show ?thesis by (simp add: store_ptr_def upt_8)
qed

lemma preempt_timer:
  "timer_inv (arch_start_running_procs timer_init)" "next_handle_ind (arch_start_running_procs timer_init) = 1"
  "ticks (arch_start_running_procs timer_init) = 0"
  "cbk (handles (arch_start_running_procs timer_init) ! 0) = Some schedule_set_current_proc"
  "hperiod (handles (arch_start_running_procs timer_init) ! 0) = 1"
  by (simp_all add: arch_start_running_procs_def add_timer_handle_inv timer_inv_init)
    (simp_all add: add_timer_handle_def timer_init_def MAX_TIMER_HANDLES_def)

lemma funpow_schedule:
  assumes "sq_inv q" and "sq_list q \<noteq> []"
  shows "\<exists>q'. (schedule_set_current_proc ^^ Suc k) (q, c) = (q', sq_list q ! (k mod length (sq_list q))) \<and>
    sq_inv q' \<and> sq_list q' = rotate (Suc k) (sq_list q)"
  using assms
proof (induction k)
  case 0
  then show ?case using schedule_rotates [OF assms]
    by (auto simp: schedule_set_current_proc_def Let_def case_prod_beta hd_conv_nth)
next
  case (Suc k)
  then obtain q' x where q': "(schedule_set_current_proc ^^ Suc k) (q, c) = (q', x)"
      "sq_inv q'" "sq_list q' = rotate (Suc k) (sq_list q)" by blast
  note r = schedule_rotates [OF q'(2)]
  have ne: "sq_list q' \<noteq> []" using q'(3) Suc.prems(2) by simp
  have "hd (sq_list q') = sq_list q ! (Suc k mod length (sq_list q))"
    unfolding q'(3) using Suc.prems(2) by (rule hd_rotate_conv_nth)
  moreover have "sq_list (snd (schedule q')) = rotate (Suc (Suc k)) (sq_list q)" using r(3) [OF ne] q'(3) by simp
  moreover have "(schedule_set_current_proc ^^ Suc (Suc k)) (q, c) = (snd (schedule q'), fst (schedule q'))"
    using q'(1) by (simp add: schedule_set_current_proc_def Let_def case_prod_beta)
  ultimately show ?case using r(1,2) ne by auto
qed

section \<open>Properties\<close>

text \<open>
  C25: \<open>create_process\<close> takes the first slot that is not in use. With every slot in use it returns -1
  and changes nothing; otherwise the slot it returns gets its own index as thread id, is ready, has no
  open file, starts at \<open>entry\<close> with \<open>arg\<close> as first argument, with interrupts enabled and with the
  segments of its privilege level; every other slot is as before and one slot fewer is free. The
  creation of a kernel thread always returns.
\<close>

theorem create_process_takes_free_slot:
  assumes "create_process bi pname entry arg stack user s = Some (t, s')"
  shows "(if \<forall>p \<in> set (procs s). present p then t = -1 \<and> s' = s
     else 0 \<le> t \<and> nat t < length (procs s) \<and> \<not> present (procs s ! nat t) \<and>
      (\<forall>j < nat t. present (procs s ! j)) \<and>
      (\<exists>c. procs s' = (procs s)[nat t := (procs s ! nat t)\<lparr>tid := t, present := True, pstatus := PROC_READY,
          fdmap := replicate FDS_PER_PROC (-1), ctx := c\<rparr>] \<and> rip c = entry \<and> rdi c = arg \<and>
          cs c = (if user then USER_CS else KERNEL_CS) \<and> ss c = (if user then USER_SS else KERNEL_SS) \<and>
          rflags c = 0x202 \<and> (user \<or> cr3 c = kernel_pml4_table bi) \<and> (stack = 0 \<or> rsp c = stack)) \<and>
      length (filter (\<lambda>p. \<not> present p) (procs s)) = Suc (length (filter (\<lambda>p. \<not> present p) (procs s')))) \<and>
    (\<exists>r. create_process bi pname entry arg stack False s = Some r)"
proof (cases "find_free_tid s = -1")
  case True
  then show ?thesis using assms create_process_full [of s] find_free_tid_eq [of s] by auto
next
  case False
  note nn = find_free_tid_nonneg [OF False]
  show ?thesis
    using create_process_slot [OF assms False] create_process_cases(3) [OF assms nn] False find_free_tid_eq [of s]
      create_kernel_process_returns [OF nn, of bi pname entry arg stack] by auto
qed

text \<open>A table of two slots, the first in use, and a boot record of zeros but for the array's address.\<close>

definition zero_ctx :: register_ctx where
  "zero_ctx = \<lparr>cr3 = 0, r15 = 0, r14 = 0, r13 = 0, r12 = 0, r11 = 0, r10 = 0, r9 = 0, r8 = 0, rbp = 0, rdi = 0,
    rsi = 0, rdx = 0, rcx = 0, rbx = 0, rax = 0, vector = 0, error_code = 0, rip = 0, cs = 0, rflags = 0,
    rsp = 0, ss = 0\<rparr>"

definition free_proc :: process where
  "free_proc = \<lparr>present = False, tid = 0, gid = 0, uid = 0, pstatus = PROC_KILLED, fdmap = [], ctx = zero_ctx\<rparr>"

definition two_slots :: kproc where
  "two_slots = \<lparr>frames = three_frames, kmem = two_strings,
    procs = [free_proc\<lparr>present := True\<rparr>, free_proc], current_proc = 0\<rparr>"

definition demo_boot :: boot_info where
  "demo_boot = \<lparr>trans = (\<lambda>a. a), memmap = [], hhdm = 0, virtual_base = 0, physical_base = 0, code_offset = 0,
    code_end_offset = 0, ro_offset = 0, ro_end_offset = 0, rw_offset = 0, rw_end_offset = 0, heap_start = 0,
    kernel_pml4_table = 0x1000, procs_base = 0x8000, default_cwd = 0x4321\<rparr>"

lemma two_slots: "procs two_slots = [free_proc\<lparr>present := True\<rparr>, free_proc]" "\<not> present free_proc"
    "kmem two_slots = two_strings" "find_free_tid two_slots = 1"
  by (simp_all add: two_slots_def free_proc_def find_free_tid_def find_free_tid_in_def)

theorem create_process_takes_free_slot_witness:
  "\<exists>s'. create_process demo_boot 200 0x5000 7 0x9000 False two_slots = Some (1, s') \<and>
    rip (ctx (procs s' ! 1)) = 0x5000 \<and> procs s' ! 0 = procs two_slots ! 0"
proof -
  obtain s' where s': "create_process demo_boot 200 0x5000 7 0x9000 False two_slots = Some (1, s')"
    using create_kernel_process_returns [of two_slots demo_boot 200 "0x5000" 7 "0x9000"] by (auto simp: two_slots)
  from create_process_takes_free_slot [OF s'] s' show ?thesis by (auto simp: two_slots)
qed

text \<open>
  The name of a process is copied with \<open>strncpy\<close> into its 32-byte field after \<open>cwd\<close>, the field
  behind it, was set. A name of less than 32 bytes is stored in full and \<open>cwd\<close> is the default
  directory; a longer one is cut to 32 bytes and its terminating NUL clears the lowest byte of
  the pointer \<open>cwd\<close>.
\<close>

theorem process_name_and_cwd:
  assumes "create_process bi pname entry arg stack user s = Some (t, s')"
    and "\<exists>p \<in> set (procs s). \<not> present p"
    and "cstr (kmem s) pname xs"
    and "range_of (proc_name_addr bi (nat t)) 40 \<inter> range_of pname (Suc (length xs)) = {}"
  shows "cstr (kmem s') (proc_name_addr bi (nat t)) (take 32 xs) \<and>
    proc_cwd bi (nat t) s' = (if length xs < 32 then default_cwd bi else default_cwd bi AND NOT 0xff)"
proof -
  let ?na = "proc_name_addr bi (nat t)" and ?v = "default_cwd bi"
  let ?m = "store_ptr (?na + 32) ?v (kmem s)"
  have f: "find_free_tid s \<noteq> -1" using assms(2) find_free_tid_eq by blast
  have split: "range_of ?na 40 = range_of ?na 32 \<union> range_of (?na + 32) 8"
    using range_of_add [of ?na 32 8] by simp
  have c: "cstr ?m pname xs" using assms(3,4) split by (intro cstr_cong [OF assms(3)] store_ptr_other) auto
  have "range_of ?na (Suc (min 32 (length xs))) \<subseteq> range_of ?na 40" by (rule range_of_mono) simp
  then obtain m' where m': "strncpy ?na pname 32 ?m = (?na, m')" "cstr m' ?na (take 32 xs)"
      "\<And>a. a \<notin> range_of ?na (Suc (min 32 (length xs))) \<Longrightarrow> m' a = ?m a"
    using strncpy_cstr [OF c, of ?na 32] assms(4) by (auto simp: disjoint_iff)
  have k: "kmem s' = m'"
    using create_process_mem [OF assms(1) f] m'(1) by (simp add: proc_cwd_addr_def PROC_NAME_LENGTH_def)
  have "load_ptr (?na + 32) m' = (if length xs < 32 then ?v else ?v AND NOT 0xff)"
  proof (cases "length xs < 32")
    case True
    have "range_of ?na (Suc (length xs)) \<inter> range_of (?na + 32) 8 = {}"
      using range_of_mono [of "Suc (length xs)" 32 ?na] range_of_disjoint [of 32 8 ?na] True by auto
    then have "m' (?na + 32 + of_nat j) = ?m (?na + 32 + of_nat j)" if "j < 8" for j
      using that True by (intro m'(3)) (auto simp: range_of_def disjoint_iff)
    then show ?thesis using True
      by (auto intro!: load_ptr_eqI simp: store_ptr_byte bit_unsigned_iff bit_drop_bit_eq)
  next
    case False
    have z: "m' (?na + 32) = 0" using cstr_end [OF m'(2)] False by simp
    have "m' (?na + 32 + of_nat j) = ?m (?na + 32 + of_nat j)" if j: "1 \<le> j" "j < 8" for j
    proof (rule m'(3))
      have "?na + 32 + of_nat j = ?na + of_nat 33 + of_nat (j - 1)" using j(1) by (simp add: of_nat_diff)
      also have "\<dots> \<in> range_of (?na + of_nat 33) 7" unfolding range_of_def using j by (intro imageI) auto
      finally show "?na + 32 + of_nat j \<notin> range_of ?na (Suc (min 32 (length xs)))"
        using range_of_disjoint [of 33 7 ?na] False by (auto simp: disjoint_iff)
    qed
    then show ?thesis using False load_ptr_low_byte_cleared [where m' = m' and p = "?na + 32", OF z] by simp
  qed
  then show ?thesis using m'(2) k by (simp add: proc_cwd_def proc_cwd_addr_def PROC_NAME_LENGTH_def)
qed

theorem process_name_and_cwd_witness:
  "\<exists>s'. create_process demo_boot 200 0x5000 7 0x9000 False two_slots = Some (1, s') \<and>
    cstr (kmem s') (proc_name_addr demo_boot 1) [97, 98, 99] \<and> proc_cwd demo_boot 1 s' = 0x4321"
proof -
  obtain s' where s': "create_process demo_boot 200 0x5000 7 0x9000 False two_slots = Some (1, s')"
    using create_kernel_process_returns [of two_slots demo_boot 200 "0x5000" 7 "0x9000"] by (auto simp: two_slots)
  have "range_of (proc_name_addr demo_boot 1) 40 \<inter> range_of 200 (Suc (Suc (Suc (Suc 0)))) = {}"
    by (simp add: proc_name_addr_def demo_boot_def numeral_range_of range_of_Suc)
  then show ?thesis using process_name_and_cwd [OF s', of "[97, 98, 99]"] s' two_strings(2)
    by (simp add: two_slots) (simp add: demo_boot_def)
qed

text \<open>
  C23: preemption. \<open>arch_start_running_procs\<close> registers the scheduler with period 1, so after the
  \<open>k\<close>-th timer tick \<open>current_proc\<close> is the queued thread number \<open>k - 1\<close>, cyclically: every tick switches
  to the next thread, and the run queue loses none.
\<close>

theorem ticks_run_threads_round_robin:
  assumes "sq_inv q" and "sq_list q \<noteq> []" and "Suc k < 2 ^ 64"
  shows "\<exists>q'. timer_ticks (Suc k) (arch_start_running_procs timer_init) (q, c) =
      Some ((arch_start_running_procs timer_init)\<lparr>ticks := of_nat (Suc k)\<rparr>,
        q', sq_list q ! (k mod length (sq_list q))) \<and>
    sq_inv q' \<and> sq_list q' = rotate (Suc k) (sq_list q)"
proof -
  note tm = preempt_timer
  show ?thesis using timer_ticks_single [OF tm(1-4) assms(3), of "(q, c)"] funpow_schedule [OF assms(1,2), of k c]
    by (simp add: tm(5) del: funpow.simps)
qed

theorem ticks_run_threads_round_robin_witness:
  "\<exists>tm q'. timer_ticks 4 (arch_start_running_procs timer_init) (two_threads, -1) = Some (tm, q', 6)"
  using ticks_run_threads_round_robin [OF two_threads(1), of 3 "-1"] by (auto simp: two_threads numeral_2_eq_2 [symmetric])

end
