(* ===== verification/Buddy.thy ===== *)
theory Buddy
  imports DList
begin

text \<open>
  The kernel heap: the buddy allocator of \<^verbatim>\<open>generic/heap\<close> (\<^verbatim>\<open>balloc.c\<close>, \<^verbatim>\<open>bfree.c\<close>, \<^verbatim>\<open>buddy_util.c\<close>,
  \<^verbatim>\<open>kheap.h\<close>). The block headers live at the start of the blocks; since blocks are at least
  \<open>sizeof(buddy_block) = 24\<close> bytes apart the headers are a function from block addresses to header
  records. The 16-bit order fields are \<open>nat\<close>, with the wrap-around of \<^verbatim>\<open>order++\<close> written out.
  Dereferencing NULL, an index outside \<open>order_lists\<close> and \<^verbatim>\<open>__builtin_clz(0)\<close> are \<open>None\<close>.
  Shifts of \<^verbatim>\<open>int\<close> are the target's (\<open>shl32\<close>): the shift counts of \<open>balloc\<close> exceed 31.
\<close>

section \<open>Model\<close>

definition BUDDY_NUM_LISTS :: nat where
  "BUDDY_NUM_LISTS = 32"

record buddy_block =
  order :: nat
  taken :: nat
  bnext :: u64
  bprev :: u64

record buddy_allocator =
  min_order :: nat
  max_order :: nat
  bsize :: u64
  memory_start :: u64
  order_lists :: "u64 list"
  bheap :: "u64 \<Rightarrow> buddy_block"

definition sizeof_buddy_block :: u64 where
  "sizeof_buddy_block = 24"

definition HEADER :: "u64 \<Rightarrow> u64" where
  "HEADER dataptr = dataptr - sizeof_buddy_block"

text \<open>The index \<^verbatim>\<open>bl->order - alloc->min_order\<close> into \<open>order_lists\<close>, \<open>None\<close> when out of bounds.\<close>

definition list_index :: "nat \<Rightarrow> buddy_allocator \<Rightarrow> nat option" where
  "list_index k a = (if min_order a \<le> k \<and> k - min_order a < BUDDY_NUM_LISTS
    then Some (k - min_order a) else None)"

definition upd_block :: "u64 \<Rightarrow> (buddy_block \<Rightarrow> buddy_block) \<Rightarrow> buddy_allocator \<Rightarrow> buddy_allocator" where
  "upd_block p f a = a\<lparr>bheap := (bheap a)(p := f (bheap a p))\<rparr>"

definition remove_block :: "u64 \<Rightarrow> buddy_allocator \<Rightarrow> (u64 \<times> buddy_allocator) option" where
  "remove_block bl a =
    (if bl = 0 then None
     else
       (let left = bprev (bheap a bl); right = bnext (bheap a bl);
            a1 = (if left \<noteq> 0 then upd_block left (\<lambda>b. b\<lparr>bnext := right\<rparr>) a else a);
            a2 = (if right \<noteq> 0 then upd_block right (\<lambda>b. b\<lparr>bprev := left\<rparr>) a1 else a1)
        in do {
          a3 \<leftarrow> (if left = 0
                then do { i \<leftarrow> list_index (order (bheap a2 bl)) a2;
                          Some (a2\<lparr>order_lists := (order_lists a2)[i := right]\<rparr>) }
                else Some a2);
          Some (bl, upd_block bl (\<lambda>b. b\<lparr>taken := 1\<rparr>) a3) }))"

definition insert_block :: "u64 \<Rightarrow> buddy_allocator \<Rightarrow> buddy_allocator option" where
  "insert_block bl a =
    (if bl = 0 then None
     else do {
       i \<leftarrow> list_index (order (bheap a bl)) a;
       let hd = order_lists a ! i;
       let a1 = upd_block bl (\<lambda>b. b\<lparr>bprev := 0, bnext := hd, taken := 0\<rparr>) a;
       let a2 = (if hd \<noteq> 0 then upd_block hd (\<lambda>b. b\<lparr>bprev := bl\<rparr>) a1 else a1);
       Some (a2\<lparr>order_lists := (order_lists a2)[i := bl]\<rparr>) })"

text \<open>\<^verbatim>\<open>__builtin_ctz\<close> and \<^verbatim>\<open>__builtin_clz\<close> take an \<^verbatim>\<open>unsigned int\<close> and are undefined at 0.\<close>

fun ctz_from :: "nat \<Rightarrow> nat \<Rightarrow> u32 \<Rightarrow> nat" where
  "ctz_from 0 i x = i"
| "ctz_from (Suc k) i x = (if bit x i then i else ctz_from k (Suc i) x)"

definition builtin_ctz :: "u32 \<Rightarrow> nat option" where
  "builtin_ctz x = (if x = 0 then None else Some (ctz_from 32 0 x))"

fun clz_from :: "nat \<Rightarrow> u32 \<Rightarrow> nat" where
  "clz_from 0 x = 0"
| "clz_from (Suc i) x = (if bit x i then 0 else Suc (clz_from i x))"

definition builtin_clz :: "u32 \<Rightarrow> nat option" where
  "builtin_clz x = (if x = 0 then None else Some (clz_from 32 x))"

definition buddy_init :: "u64 \<Rightarrow> u64 \<Rightarrow> u64 \<Rightarrow> buddy_allocator \<Rightarrow> (int \<times> buddy_allocator) option" where
  "buddy_init len ptr min_ord a =
    (if len AND (len - 1) \<noteq> 0 then Some (-1, a)
     else if ptr = 0 then Some (-1, a)
     else do {
       c \<leftarrow> builtin_ctz (ucast len);
       let a1 = a\<lparr>order_lists := replicate BUDDY_NUM_LISTS 0, min_order := unat (ucast min_ord :: u16),
                  max_order := c, bsize := len, memory_start := ptr\<rparr>;
       a2 \<leftarrow> insert_block ptr (upd_block ptr (\<lambda>b. b\<lparr>order := max_order a1\<rparr>) a1);
       Some (0, a2) })"

text \<open>The mask \<^verbatim>\<open>1 << order\<close> is an \<^verbatim>\<open>int\<close> converted to 64 bits with its sign.\<close>

definition order_mask :: "nat \<Rightarrow> u64" where
  "order_mask k = scast (shl32 1 k)"

definition get_buddy :: "u64 \<Rightarrow> buddy_allocator \<Rightarrow> u64 option" where
  "get_buddy bl a =
    (if bl = 0 then None
     else Some (if order (bheap a bl) = max_order a then 0
                else bl XOR order_mask (order (bheap a bl))))"

definition split :: "u64 \<Rightarrow> buddy_allocator \<Rightarrow> (u64 \<times> buddy_allocator) option" where
  "split bl a =
    (if bl = 0 then None
     else if int (order (bheap a bl)) - 1 < int (min_order a) then Some (0, a)
     else do {
       (_, a1) \<leftarrow> remove_block bl a;
       let a2 = upd_block bl (\<lambda>b. b\<lparr>order := order b - 1\<rparr>) a1;
       br \<leftarrow> get_buddy bl a2;
       (if br = 0 then None else Some ());
       let a3 = upd_block br (\<lambda>b. b\<lparr>order := order (bheap a2 bl)\<rparr>) a2;
       a4 \<leftarrow> insert_block bl a3;
       a5 \<leftarrow> insert_block br a4;
       Some (br, a5) })"

definition merge :: "u64 \<Rightarrow> buddy_allocator \<Rightarrow> (u64 \<times> buddy_allocator) option" where
  "merge bl a =
    (if bl = 0 then None
     else if order (bheap a bl) = max_order a then Some (0, a)
     else do {
       let left_buddy = bl AND NOT (order_mask (order (bheap a bl)));
       b1 \<leftarrow> get_buddy left_buddy a;
       (if b1 = 0 then None else Some ());
       (if order (bheap a left_buddy) \<noteq> order (bheap a b1) then Some (0, a)
        else do {
          (_, a1) \<leftarrow> remove_block left_buddy a;
          b2 \<leftarrow> get_buddy left_buddy a1;
          (_, a2) \<leftarrow> remove_block b2 a1;
          let a3 = upd_block left_buddy (\<lambda>b. b\<lparr>order := (order b + 1) mod 2 ^ 16\<rparr>) a2;
          a4 \<leftarrow> insert_block left_buddy a3;
          Some (left_buddy, a4) }) })"

text \<open>
  The size computation of \<open>balloc\<close>: round up to a power of two and to the smallest block size.
  The rounding is an \<^verbatim>\<open>int\<close> shift, converted to 64 bits with its sign.
\<close>

definition round_size :: "u64 \<Rightarrow> nat \<Rightarrow> u64 option" where
  "round_size len mo = do {
     s \<leftarrow> (if len = 1 then Some 1
          else do { z \<leftarrow> builtin_clz (ucast (len - 1)); Some (scast (shl32 1 (64 - z))) });
     Some (if s < ucast (shl32 1 mo) then ucast (shl32 1 mo) else s) }"

fun split_n :: "nat \<Rightarrow> u64 \<Rightarrow> buddy_allocator \<Rightarrow> buddy_allocator option" where
  "split_n 0 bl a = Some a"
| "split_n (Suc k) bl a = do { (_, a1) \<leftarrow> split bl a; split_n k bl a1 }"

text \<open>The search of \<open>balloc\<close> over the orders \<open>n\<close>, \<open>n + 1\<close>, ...; the result \<open>0\<close> is \<^verbatim>\<open>ret_block = NULL\<close>.\<close>

fun find_larger :: "nat \<Rightarrow> nat \<Rightarrow> nat \<Rightarrow> buddy_allocator \<Rightarrow> (u64 \<times> buddy_allocator) option" where
  "find_larger 0 n ord a = Some (0, a)"
| "find_larger (Suc k) n ord a = do {
     i \<leftarrow> list_index n a;
     let ret_block = order_lists a ! i;
     (if ret_block \<noteq> 0 then do { a1 \<leftarrow> split_n (n - ord) ret_block a; Some (ret_block, a1) }
      else find_larger k (Suc n) ord a) }"

definition balloc :: "u64 \<Rightarrow> buddy_allocator \<Rightarrow> (u64 \<times> buddy_allocator) option" where
  "balloc len a =
    (if len > bsize a then Some (0, a)
     else if len = 0 then Some (0, a)
     else do {
       sz \<leftarrow> round_size (len + sizeof_buddy_block) (min_order a);
       ord \<leftarrow> builtin_ctz (ucast sz);
       i \<leftarrow> list_index ord a;
       (ret_block, a1) \<leftarrow>
         (if order_lists a ! i \<noteq> 0 then remove_block (order_lists a ! i) a
          else find_larger (Suc (max_order a) - Suc ord) (Suc ord) ord a);
       (_, a2) \<leftarrow> remove_block ret_block a1;
       Some (ret_block + sizeof_buddy_block, a2) })"

text \<open>The loop of \<open>bfree\<close> merges at most once per order, so \<open>BUDDY_NUM_LISTS\<close> rounds of fuel suffice
  for a block whose order is within the lists; running out of fuel is \<open>None\<close>.\<close>

fun merge_loop :: "nat \<Rightarrow> u64 \<Rightarrow> buddy_allocator \<Rightarrow> buddy_allocator option" where
  "merge_loop 0 bl a = None"
| "merge_loop (Suc k) bl a =
    (if bl = 0 then None
     else if order (bheap a bl) = max_order a then Some a
     else do {
       b \<leftarrow> get_buddy bl a;
       (if b = 0 then None
        else if taken (bheap a b) \<noteq> 0 then Some a
        else do {
          (bl1, a1) \<leftarrow> merge bl a;
          (if bl1 = 0 then Some a1 else merge_loop k bl1 a1) }) })"

definition bfree :: "u64 \<Rightarrow> buddy_allocator \<Rightarrow> buddy_allocator option" where
  "bfree ptr a =
    (if ptr = 0 then Some a
     else do {
       let bl = HEADER ptr;
       buddy \<leftarrow> get_buddy bl a;
       (if buddy = 0 then Some a
        else if order (bheap a buddy) \<noteq> order (bheap a bl) \<or> taken (bheap a buddy) \<noteq> 0
        then insert_block bl a
        else merge_loop (Suc BUDDY_NUM_LISTS) bl a) })"

text \<open>\<open>kalloc\<close> and \<open>kfree\<close> are \<open>balloc\<close> and \<open>bfree\<close> on \<open>kheap_alloc\<close>, the state itself here.\<close>

definition kalloc :: "u64 \<Rightarrow> buddy_allocator \<Rightarrow> (u64 \<times> buddy_allocator) option" where
  "kalloc len a = balloc len a"

definition kfree :: "u64 \<Rightarrow> buddy_allocator \<Rightarrow> buddy_allocator option" where
  "kfree ptr a = bfree ptr a"

text \<open>A sequence of heap calls: \<open>Alloc n\<close>, and \<open>Free n\<close> for the pointer that the \<open>n\<close>-th allocation
  returned; the result is the list of the pointers returned so far.\<close>

datatype heap_call = Alloc u64 | Free nat

fun heap_run :: "heap_call list \<Rightarrow> u64 list \<times> buddy_allocator \<Rightarrow> (u64 list \<times> buddy_allocator) option" where
  "heap_run [] c = Some c"
| "heap_run (Alloc n # cs) (ps, a) = do { (p, a1) \<leftarrow> kalloc n a; heap_run cs (ps @ [p], a1) }"
| "heap_run (Free i # cs) (ps, a) = do { a1 \<leftarrow> kfree (ps ! i) a; heap_run cs (ps, a1) }"


section \<open>Fields\<close>

definition nxt :: "buddy_allocator \<Rightarrow> u64 \<Rightarrow> u64" where
  "nxt a x = bnext (bheap a x)"

definition prv :: "buddy_allocator \<Rightarrow> u64 \<Rightarrow> u64" where
  "prv a x = bprev (bheap a x)"

definition ordr :: "buddy_allocator \<Rightarrow> u64 \<Rightarrow> nat" where
  "ordr a x = order (bheap a x)"

definition tkn :: "buddy_allocator \<Rightarrow> u64 \<Rightarrow> nat" where
  "tkn a x = taken (bheap a x)"

lemmas field_defs = nxt_def prv_def ordr_def tkn_def

text \<open>The parameters of the allocator, which only \<open>buddy_init\<close> writes.\<close>

definition same_params :: "buddy_allocator \<Rightarrow> buddy_allocator \<Rightarrow> bool" where
  "same_params a b \<longleftrightarrow> min_order b = min_order a \<and> max_order b = max_order a \<and> bsize b = bsize a \<and>
    memory_start b = memory_start a"

lemma same_params_trans: "same_params a b \<Longrightarrow> same_params b c \<Longrightarrow> same_params a c"
  by (simp add: same_params_def)

lemma upd_block_simps [simp]:
  "bheap (upd_block p f a) = (bheap a)(p := f (bheap a p))"
  "order_lists (upd_block p f a) = order_lists a" "min_order (upd_block p f a) = min_order a"
  "max_order (upd_block p f a) = max_order a" "bsize (upd_block p f a) = bsize a"
  "memory_start (upd_block p f a) = memory_start a"
  by (simp_all add: upd_block_def)

section \<open>The tiling of the heap by blocks\<close>

definition blk_range :: "u64 \<times> nat \<Rightarrow> nat set" where
  "blk_range b = {unat (fst b) ..< unat (fst b) + 2 ^ snd b}"

text \<open>The blocks in \<open>B\<close> tile the heap: naturally aligned, pairwise disjoint, covering all of it.\<close>

definition tiling :: "buddy_allocator \<Rightarrow> (u64 \<times> nat) set \<Rightarrow> bool" where
  "tiling a B \<longleftrightarrow>
    (\<forall>b \<in> B. min_order a \<le> snd b \<and> snd b \<le> max_order a \<and> 2 ^ snd b dvd unat (fst b)) \<and>
    (\<forall>b \<in> B. \<forall>c \<in> B. b \<noteq> c \<longrightarrow> blk_range b \<inter> blk_range c = {}) \<and>
    (\<Union>(blk_range ` B) = {unat (memory_start a) ..< unat (memory_start a) + 2 ^ max_order a})"

definition params_ok :: "buddy_allocator \<Rightarrow> bool" where
  "params_ok a \<longleftrightarrow> length (order_lists a) = BUDDY_NUM_LISTS \<and> 5 \<le> min_order a \<and>
    min_order a \<le> max_order a \<and>
    max_order a \<le> 29 \<and> memory_start a \<noteq> 0 \<and> 2 ^ max_order a dvd unat (memory_start a) \<and>
    unat (bsize a) = 2 ^ max_order a"

definition free_blocks :: "buddy_allocator \<Rightarrow> (nat \<Rightarrow> u64 list) \<Rightarrow> (u64 \<times> nat) set" where
  "free_blocks a fl = {(x, min_order a + i) | x i. i < BUDDY_NUM_LISTS \<and> x \<in> set (fl i)}"

text \<open>
  \<open>lists_ok a fl\<close>: the lists of the allocator are \<open>fl\<close>, and every block in them has its order and is
  marked free. \<open>heap_ok a fl A\<close>: besides, the free blocks together with the allocated blocks \<open>A\<close>
  tile the heap, and the allocated ones have their order and are marked taken.
\<close>

definition lists_ok :: "buddy_allocator \<Rightarrow> (nat \<Rightarrow> u64 list) \<Rightarrow> bool" where
  "lists_ok a fl \<longleftrightarrow>
    (\<forall>i < BUDDY_NUM_LISTS. dll (nxt a) (prv a) (order_lists a ! i) (fl i) \<and>
      (\<forall>x \<in> set (fl i). ordr a x = min_order a + i \<and> tkn a x = 0))"

definition taken_ok :: "buddy_allocator \<Rightarrow> (u64 \<times> nat) set \<Rightarrow> bool" where
  "taken_ok a A \<longleftrightarrow> (\<forall>b \<in> A. ordr a (fst b) = snd b \<and> tkn a (fst b) = 1)"

definition heap_ok :: "buddy_allocator \<Rightarrow> (nat \<Rightarrow> u64 list) \<Rightarrow> (u64 \<times> nat) set \<Rightarrow> bool" where
  "heap_ok a fl A \<longleftrightarrow> params_ok a \<and> lists_ok a fl \<and> taken_ok a A \<and>
    tiling a (free_blocks a fl \<union> A)"

lemma tiling_cong: "same_params a b \<Longrightarrow> tiling b B = tiling a B"
  by (simp add: tiling_def same_params_def)

lemma params_ok_cong:
  "same_params a b \<Longrightarrow> length (order_lists b) = length (order_lists a) \<Longrightarrow> params_ok b = params_ok a"
  by (simp add: params_ok_def same_params_def)

lemma tiling_disjoint:
  "tiling a B \<Longrightarrow> b \<in> B \<Longrightarrow> c \<in> B \<Longrightarrow> b \<noteq> c \<Longrightarrow> blk_range b \<inter> blk_range c = {}"
  unfolding tiling_def by blast

lemma tiling_addr_unique:
  assumes "tiling a B" and "(x, k) \<in> B" and "(x, l) \<in> B"
  shows "k = l"
proof (rule ccontr)
  assume "k \<noteq> l"
  then have "blk_range (x, k) \<inter> blk_range (x, l) = {}" using assms by (auto simp: tiling_def)
  moreover have "unat x \<in> blk_range (x, k) \<inter> blk_range (x, l)" by (simp add: blk_range_def)
  ultimately show False by blast
qed

lemma free_blocks_disjoint:
  assumes "lists_ok a fl" and "i < BUDDY_NUM_LISTS" and "j < BUDDY_NUM_LISTS" and "i \<noteq> j"
  shows "set (fl i) \<inter> set (fl j) = {}"
proof (rule ccontr)
  assume "set (fl i) \<inter> set (fl j) \<noteq> {}"
  then obtain x where "x \<in> set (fl i)" "x \<in> set (fl j)" by blast
  with assms have "ordr a x = min_order a + i" "ordr a x = min_order a + j"
    unfolding lists_ok_def by blast+
  with assms(4) show False by simp
qed

section \<open>Removal and insertion\<close>

lemma list_index_ok:
  "i < BUDDY_NUM_LISTS \<Longrightarrow> list_index (min_order a + i) a = Some i"
  by (simp add: list_index_def)

lemma list_index_params: "min_order b = min_order a \<Longrightarrow> list_index k b = list_index k a"
  by (simp add: list_index_def)

lemma remove_block_eq:
  assumes "x \<noteq> 0" and "list_index (ordr a x) a = Some i"
  shows "\<exists>a'. remove_block x a = Some (x, a') \<and> same_params a a' \<and>
    nxt a' = unlink_next (nxt a) (prv a) x \<and> prv a' = unlink_prev (nxt a) (prv a) x \<and>
    order_lists a' = (if prv a x = 0 then (order_lists a)[i := nxt a x] else order_lists a) \<and>
    ordr a' = ordr a \<and> tkn a' = (tkn a)(x := 1)"
proof -
  define l where "l = prv a x"
  define r where "r = nxt a x"
  have lr: "bprev (bheap a x) = l" "bnext (bheap a x) = r" by (simp_all add: l_def r_def field_defs)
  define a1 where "a1 = (if l \<noteq> 0 then upd_block l (\<lambda>b. b\<lparr>bnext := r\<rparr>) a else a)"
  define a2 where "a2 = (if r \<noteq> 0 then upd_block r (\<lambda>b. b\<lparr>bprev := l\<rparr>) a1 else a1)"
  define a3 where "a3 = (if l = 0 then a2\<lparr>order_lists := (order_lists a2)[i := r]\<rparr> else a2)"
  have f: "ordr a2 = ordr a" "tkn a2 = tkn a" "order_lists a2 = order_lists a" "same_params a a2"
    "nxt a2 = unlink_next (nxt a) (prv a) x" "prv a2 = unlink_prev (nxt a) (prv a) x"
    by (auto simp: a2_def a1_def fun_eq_iff same_params_def unlink_next_def unlink_prev_def
        field_defs lr)
  then have "list_index (ordr a2 x) a2 = Some i"
    using assms(2) list_index_params [of a2 a] by (simp add: same_params_def)
  then have "remove_block x a = Some (x, upd_block x (\<lambda>b. b\<lparr>taken := 1\<rparr>) a3)"
    using assms(1) by (cases "l = 0"; cases "r = 0")
      (auto simp: remove_block_def lr Let_def a3_def a2_def a1_def ordr_def list_index_def split: if_splits)
  moreover have "bheap a3 = bheap a2" "same_params a2 a3"
    "order_lists a3 = (if l = 0 then (order_lists a)[i := r] else order_lists a)"
    using f(3) by (auto simp: a3_def same_params_def)
  ultimately show ?thesis using f
    by (auto simp: same_params_def l_def r_def fun_eq_iff field_defs)
qed

lemma unlink_outside:
  assumes "dll n v p (as @ x # bs)" and "y \<notin> set (as @ x # bs)"
  shows "unlink_next n v x y = n y" and "unlink_prev n v x y = v y"
proof -
  have "v x = 0 \<or> v x \<in> set as" "n x = 0 \<or> n x \<in> set bs"
    using dll_middle [OF assms(1)] by (cases as rule: rev_cases; cases bs; auto)+
  with assms(2) show "unlink_next n v x y = n y" "unlink_prev n v x y = v y"
    by (auto simp: unlink_next_def unlink_prev_def)
qed

lemma remove_block_lists:
  assumes ok: "lists_ok a fl" "length (order_lists a) = BUDDY_NUM_LISTS"
    and i: "i < BUDDY_NUM_LISTS" "fl i = as @ x # bs"
  shows "\<exists>a'. remove_block x a = Some (x, a') \<and> same_params a a' \<and> lists_ok a' (fl(i := as @ bs)) \<and>
    length (order_lists a') = BUDDY_NUM_LISTS \<and> ordr a' = ordr a \<and> tkn a' = (tkn a)(x := 1)"
proof -
  have d: "dll (nxt a) (prv a) (order_lists a ! i) (as @ x # bs)" and o: "ordr a x = min_order a + i"
    using ok(1) i by (auto simp: lists_ok_def)
  note m = dll_middle [OF d]
  obtain a' where a': "remove_block x a = Some (x, a')" "same_params a a'"
      "nxt a' = unlink_next (nxt a) (prv a) x" "prv a' = unlink_prev (nxt a) (prv a) x"
      "order_lists a' = (if prv a x = 0 then (order_lists a)[i := nxt a x] else order_lists a)"
      "ordr a' = ordr a" "tkn a' = (tkn a)(x := 1)"
    using remove_block_eq [OF m(3), of a i] list_index_ok [OF i(1)] o by auto
  have xn: "x \<notin> set (as @ bs)" using dll_distinct [OF d] by auto
  have "dll (nxt a') (prv a') (order_lists a' ! i) (as @ bs)"
    using dll_unlink [OF d] i(1) ok(2) a'(3,4,5) by (auto split: if_splits)
  moreover have "dll (nxt a') (prv a') (order_lists a' ! j) (fl j)" "x \<notin> set (fl j)"
    if j: "j < BUDDY_NUM_LISTS" "j \<noteq> i" for j
  proof -
    have dj: "dll (nxt a) (prv a) (order_lists a ! j) (fl j)" using ok(1) j by (auto simp: lists_ok_def)
    have out: "y \<notin> set (as @ x # bs)" if "y \<in> set (fl j)" for y
      using free_blocks_disjoint [OF ok(1) i(1) j(1)] i(2) j(2) that by auto
    then have "\<forall>y \<in> set (fl j). nxt a' y = nxt a y \<and> prv a' y = prv a y"
      using unlink_outside [OF d] a'(3,4) by auto
    moreover have "order_lists a' ! j = order_lists a ! j" using a'(5) j(2) by auto
    ultimately show "dll (nxt a') (prv a') (order_lists a' ! j) (fl j)"
      using dj dll_cong [of "fl j" "nxt a'" "nxt a" "prv a'" "prv a"] by simp
    show "x \<notin> set (fl j)" using out by force
  qed
  ultimately have "lists_ok a' (fl(i := as @ bs))"
    using ok(1) xn a'(2,6,7) i unfolding lists_ok_def same_params_def by auto
  with a' ok(2) show ?thesis by auto
qed

text \<open>Removing the head of a list a second time changes nothing.\<close>

lemma remove_block_twice:
  assumes "x \<noteq> 0" and "prv a x = 0" and "nxt a x \<noteq> x" and "list_index (ordr a x) a = Some i"
    and "remove_block x a = Some (x, a')"
  shows "remove_block x a' = Some (x, a')"
proof -
  define r where "r = nxt a x"
  define b where "b = upd_block x (\<lambda>b. b\<lparr>taken := 1\<rparr>)
    ((if r \<noteq> 0 then upd_block r (\<lambda>b. b\<lparr>bprev := 0\<rparr>) a else a)\<lparr>order_lists := (order_lists a)[i := r]\<rparr>)"
  have "a' = b"
    using assms by (cases "bnext (bheap a x) = 0")
      (auto simp: b_def remove_block_def Let_def field_defs r_def list_index_def split: if_splits)
  moreover have x: "bprev (bheap b x) = 0" "bnext (bheap b x) = r" "order (bheap b x) = ordr a x"
    "taken (bheap b x) = 1" "r \<noteq> 0 \<Longrightarrow> bprev (bheap b r) = 0" "r \<noteq> x"
    using assms(2,3) by (auto simp: b_def field_defs r_def)
  have idem: "upd_block p f b = b" if "f (bheap b p) = bheap b p" for p f
    using that by (simp add: upd_block_def)
  have li: "list_index (ordr a x) b = Some i" using assms(4)
    by (auto simp: b_def list_index_def split: if_splits)
  have ol: "b\<lparr>order_lists := (order_lists b)[i := r]\<rparr> = b" by (simp add: b_def upd_block_def)
  have r: "r \<noteq> 0 \<Longrightarrow> upd_block r (\<lambda>b. b\<lparr>bprev := 0\<rparr>) b = b" using x(5) by (intro idem) simp
  have t: "upd_block x (\<lambda>b. b\<lparr>taken := 1\<rparr>) b = b" using x(4) by (intro idem) simp
  have "remove_block x b = Some (x, b)"
    using assms(1) x(1-3) li ol r t by (cases "r = 0") (simp_all add: remove_block_def Let_def)
  ultimately show ?thesis by simp
qed

lemma insert_block_eq:
  assumes "x \<noteq> 0" and "list_index (ordr a x) a = Some i" and "h = order_lists a ! i" and "h \<noteq> x"
  shows "\<exists>a'. insert_block x a = Some a' \<and> same_params a a' \<and>
    nxt a' = (nxt a)(x := h) \<and>
    prv a' = (if h \<noteq> 0 then (prv a)(x := 0, h := x) else (prv a)(x := 0)) \<and>
    order_lists a' = (order_lists a)[i := x] \<and> ordr a' = ordr a \<and> tkn a' = (tkn a)(x := 0)"
proof -
  define a1 where "a1 = upd_block x (\<lambda>b. b\<lparr>bprev := 0, bnext := h, taken := 0\<rparr>) a"
  define a2 where "a2 = (if h \<noteq> 0 then upd_block h (\<lambda>b. b\<lparr>bprev := x\<rparr>) a1 else a1)"
  have "insert_block x a = Some (a2\<lparr>order_lists := (order_lists a2)[i := x]\<rparr>)"
    using assms(1,2,3) by (auto simp: insert_block_def ordr_def a1_def a2_def Let_def)
  moreover have "order_lists a2 = order_lists a" "same_params a a2" "ordr a2 = ordr a"
    "tkn a2 = (tkn a)(x := 0)" "nxt a2 = (nxt a)(x := h)"
    "prv a2 = (if h \<noteq> 0 then (prv a)(x := 0, h := x) else (prv a)(x := 0))"
    using assms(4) by (auto simp: a2_def a1_def same_params_def field_defs fun_eq_iff)
  ultimately show ?thesis by (auto simp: same_params_def field_defs fun_eq_iff)
qed

lemma insert_block_lists:
  assumes ok: "lists_ok a fl" "length (order_lists a) = BUDDY_NUM_LISTS"
    and i: "i < BUDDY_NUM_LISTS" "ordr a x = min_order a + i" "x \<noteq> 0"
    and new: "\<And>j. j < BUDDY_NUM_LISTS \<Longrightarrow> x \<notin> set (fl j)"
  shows "\<exists>a'. insert_block x a = Some a' \<and> same_params a a' \<and> lists_ok a' (fl(i := x # fl i)) \<and>
    length (order_lists a') = BUDDY_NUM_LISTS \<and> ordr a' = ordr a \<and> tkn a' = (tkn a)(x := 0)"
proof -
  let ?h = "order_lists a ! i"
  have d: "dll (nxt a) (prv a) ?h (fl i)" using ok(1) i(1) by (auto simp: lists_ok_def)
  have h: "?h = 0 \<or> ?h \<in> set (fl i)" using dll_hd [OF d] by fastforce
  then have hx: "?h \<noteq> x" using new [OF i(1)] i(3) by auto
  obtain a' where a': "insert_block x a = Some a'" "same_params a a'" "nxt a' = (nxt a)(x := ?h)"
      "prv a' = (if ?h \<noteq> 0 then (prv a)(x := 0, ?h := x) else (prv a)(x := 0))"
      "order_lists a' = (order_lists a)[i := x]" "ordr a' = ordr a" "tkn a' = (tkn a)(x := 0)"
    using insert_block_eq [OF i(3) _ refl hx] list_index_ok [OF i(1), of a] i(2) by auto
  have "dll (nxt a') (prv a') (order_lists a' ! i) (x # fl i)"
    using dll_push [OF d new [OF i(1)] i(3)] a'(3,4,5) i(1) ok(2) by simp
  moreover have "dll (nxt a') (prv a') (order_lists a' ! j) (fl j)"
    if j: "j < BUDDY_NUM_LISTS" "j \<noteq> i" for j
  proof -
    have dj: "dll (nxt a) (prv a) (order_lists a ! j) (fl j)" using ok(1) j by (auto simp: lists_ok_def)
    have "?h \<notin> set (fl j)"
      using h free_blocks_disjoint [OF ok(1) i(1) j(1)] j(2) dll_zero_notin [OF dj] by auto
    then have "\<forall>y \<in> set (fl j). nxt a' y = nxt a y \<and> prv a' y = prv a y"
      using new [OF j(1)] a'(3,4) by auto
    then show ?thesis using dj dll_cong [of "fl j" "nxt a'" "nxt a" "prv a'" "prv a"] a'(5) j(2) by simp
  qed
  ultimately have "lists_ok a' (fl(i := x # fl i))"
    using ok(1) new i(1,2) a'(2,6,7) unfolding lists_ok_def same_params_def by auto
  with a' ok(2) show ?thesis by auto
qed

section \<open>The invariant under removal and insertion\<close>

lemma free_blocks_cong: "min_order b = min_order a \<Longrightarrow> free_blocks b fl = free_blocks a fl"
  by (simp add: free_blocks_def)

lemma free_blocks_iff:
  "b \<in> free_blocks a fl \<longleftrightarrow> min_order a \<le> snd b \<and> snd b - min_order a < BUDDY_NUM_LISTS \<and>
    fst b \<in> set (fl (snd b - min_order a))"
proof -
  have "(\<exists>i. snd b = min_order a + i \<and> P i) \<longleftrightarrow> min_order a \<le> snd b \<and> P (snd b - min_order a)" for P
    by (metis add_diff_cancel_left' le_add1 le_add_diff_inverse)
  then show ?thesis by (cases b) (auto simp: free_blocks_def)
qed

lemma free_blocks_snd:
  "i < BUDDY_NUM_LISTS \<Longrightarrow> (x, min_order a + i) \<in> free_blocks a fl \<longleftrightarrow> x \<in> set (fl i)"
  by (auto simp: free_blocks_def)

lemma remove_block_ok:
  assumes ok: "heap_ok a fl A" and i: "i < BUDDY_NUM_LISTS" "fl i = as @ x # bs"
  shows "\<exists>a'. remove_block x a = Some (x, a') \<and> same_params a a' \<and>
    heap_ok a' (fl(i := as @ bs)) (insert (x, min_order a + i) A)"
proof -
  have len: "length (order_lists a) = BUDDY_NUM_LISTS" using ok by (simp add: heap_ok_def params_ok_def)
  obtain a' where a': "remove_block x a = Some (x, a')" "same_params a a'"
      "lists_ok a' (fl(i := as @ bs))" "length (order_lists a') = BUDDY_NUM_LISTS"
      "ordr a' = ordr a" "tkn a' = (tkn a)(x := 1)"
    using remove_block_lists [of a fl i as x bs] len i ok by (auto simp: heap_ok_def)
  have "ordr a x = min_order a + i" using ok i by (auto simp: heap_ok_def lists_ok_def)
  then have "taken_ok a' (insert (x, min_order a + i) A)"
    using ok a'(5,6) by (auto simp: heap_ok_def taken_ok_def)
  moreover have "free_blocks a' (fl(i := as @ bs)) \<union> insert (x, min_order a + i) A = free_blocks a fl \<union> A"
    using a'(2) i by (auto simp: set_eq_iff free_blocks_iff same_params_def)
  ultimately show ?thesis
    using ok a' len tiling_cong [OF a'(2)] params_ok_cong [OF a'(2)] by (auto simp: heap_ok_def)
qed

lemma tiling_bounds:
  assumes "params_ok a" and "tiling a B" and "(x, k) \<in> B"
  shows "x \<noteq> 0" and "min_order a \<le> k" and "k \<le> max_order a" and "2 ^ k dvd unat x"
    and "k - min_order a < BUDDY_NUM_LISTS"
proof -
  show "min_order a \<le> k" "k \<le> max_order a" "2 ^ k dvd unat x"
    using assms(2,3) by (auto simp: tiling_def)
  then show "k - min_order a < BUDDY_NUM_LISTS"
    using assms(1) by (auto simp: params_ok_def BUDDY_NUM_LISTS_def)
  have "unat x \<in> blk_range (x, k)" by (simp add: blk_range_def)
  then have "unat x \<in> {unat (memory_start a) ..< unat (memory_start a) + 2 ^ max_order a}"
    using assms(2,3) unfolding tiling_def by blast
  moreover have "0 < unat (memory_start a)" using assms(1) by (simp add: params_ok_def unat_gt_0)
  ultimately show "x \<noteq> 0" by auto
qed

lemma taken_notin_lists:
  assumes "heap_ok a fl A" and "(x, k) \<in> A" and "j < BUDDY_NUM_LISTS"
  shows "x \<notin> set (fl j)"
  using assms by (fastforce simp: heap_ok_def taken_ok_def lists_ok_def)

lemma insert_block_ok:
  assumes ok: "heap_ok a fl A" and x: "(x, min_order a + i) \<in> A"
  shows "\<exists>a'. insert_block x a = Some a' \<and> same_params a a' \<and>
    heap_ok a' (fl(i := x # fl i)) (A - {(x, min_order a + i)})"
proof -
  have len: "length (order_lists a) = BUDDY_NUM_LISTS" using ok by (simp add: heap_ok_def params_ok_def)
  have t: "tiling a (free_blocks a fl \<union> A)" "params_ok a" using ok by (simp_all add: heap_ok_def)
  note b = tiling_bounds [OF t(2,1), of x "min_order a + i"]
  have i: "i < BUDDY_NUM_LISTS" and nz: "x \<noteq> 0" using b x by auto
  have o: "ordr a x = min_order a + i" using ok x by (fastforce simp: heap_ok_def taken_ok_def)
  obtain a' where a': "insert_block x a = Some a'" "same_params a a'" "lists_ok a' (fl(i := x # fl i))"
      "length (order_lists a') = BUDDY_NUM_LISTS" "ordr a' = ordr a" "tkn a' = (tkn a)(x := 0)"
    using insert_block_lists [OF _ len i o nz, of fl] taken_notin_lists [OF ok x] ok
    by (auto simp: heap_ok_def)
  have "fst b \<noteq> x" if "b \<in> A - {(x, min_order a + i)}" for b
    using that x tiling_addr_unique [OF t(1), of x] by (cases b) auto
  then have "taken_ok a' (A - {(x, min_order a + i)})"
    using ok a'(5,6) by (auto simp: heap_ok_def taken_ok_def)
  moreover have "free_blocks a' (fl(i := x # fl i)) \<union> (A - {(x, min_order a + i)}) = free_blocks a fl \<union> A"
    using a'(2) i x by (auto simp: set_eq_iff free_blocks_iff same_params_def)
  ultimately show ?thesis
    using ok a' len tiling_cong [OF a'(2)] params_ok_cong [OF a'(2)] by (auto simp: heap_ok_def)
qed

section \<open>Buddies\<close>

lemma order_mask_eq: "k \<le> 30 \<Longrightarrow> order_mask k = push_bit k 1"
  unfolding order_mask_def shl32_def
  by (rule bit_word_eqI) (auto simp: bit_simps min_def)

lemma unat_mask: "k < 64 \<Longrightarrow> unat (push_bit k 1 :: u64) = 2 ^ k"
proof -
  assume "k < 64"
  then have lt: "(2 ^ k :: nat) < 2 ^ 64" by (intro power_strict_increasing) simp_all
  have "(push_bit k 1 :: u64) = of_nat (2 ^ k)" by (simp add: push_bit_eq_mult)
  then have "unat (push_bit k 1 :: u64) = 2 ^ k mod 2 ^ 64" by (simp only: unat_of_nat) simp
  with lt show ?thesis by simp
qed

lemma dvd_bit_false:
  assumes "2 ^ k dvd unat (x :: u64)" and "j < k"
  shows "\<not> bit x j"
proof -
  obtain q where q: "unat x = 2 ^ k * q" using assms(1) by (auto simp: dvd_def)
  have "2 ^ k = (2 ^ j * 2 ^ (k - j) :: nat)" using assms(2) by (simp flip: power_add)
  then have "unat x div 2 ^ j = 2 ^ (k - j) * q" using q by simp
  then have "even (unat x div 2 ^ j)" using assms(2) by simp
  moreover have "bit x j \<longleftrightarrow> bit (unat x) j" by (simp add: bit_unsigned_iff)
  ultimately show ?thesis by (simp add: bit_iff_odd)
qed

lemma buddy_addr:
  assumes "2 ^ Suc j dvd unat x" and "j \<le> 30"
  shows "unat (x XOR order_mask j) = unat x + 2 ^ j"
proof -
  let ?m = "push_bit j 1 :: u64"
  have nb: "\<not> bit x j" using dvd_bit_false [OF assms(1), of j] by simp
  have "x XOR ?m = x OR ?m" using nb by (intro bit_word_eqI) (auto simp: bit_simps)
  also have "\<dots> = x + ?m" using nb by (subst disjunctive_add) (auto simp: bit_simps)
  finally have e: "x XOR order_mask j = x + ?m" using assms(2) by (simp add: order_mask_eq)
  have lt: "unat x < 2 ^ 64" using unsigned_less [of x] by simp
  have "2 ^ Suc j dvd (2 ^ 64 :: nat)" using assms(2) by (intro le_imp_power_dvd) simp
  then have "2 ^ Suc j dvd (2 ^ 64 :: nat) - unat x" using assms(1) by (rule dvd_diff_nat)
  then have "2 ^ Suc j \<le> (2 ^ 64 :: nat) - unat x" using lt by (intro dvd_imp_le) auto
  then have "unat x + 2 ^ j < 2 ^ 64" using lt by simp
  with e show ?thesis
    using unat_mask [of j] assms(2) by (simp only: unat_word_ariths) simp
qed

lemma blk_range_halves:
  assumes "unat y = unat x + 2 ^ j"
  shows "blk_range (x, Suc j) = blk_range (x, j) \<union> blk_range (y, j)"
    and "blk_range (x, j) \<inter> blk_range (y, j) = {}"
  using assms by (auto simp: blk_range_def)

lemma tiling_split:
  assumes t: "tiling a B" and x: "(x, Suc j) \<in> B" "min_order a \<le> j" and y: "unat y = unat x + 2 ^ j"
  shows "tiling a (B - {(x, Suc j)} \<union> {(x, j), (y, j)})"
proof -
  let ?R = "{unat (memory_start a) ..< unat (memory_start a) + 2 ^ max_order a}"
  note h = blk_range_halves [OF y]
  have dis: "blk_range b \<inter> blk_range (x, Suc j) = {}" if "b \<in> B - {(x, Suc j)}" for b
    using t x(1) that unfolding tiling_def by blast
  have dv: "2 ^ Suc j dvd unat x" and mx: "Suc j \<le> max_order a" using t x by (auto simp: tiling_def)
  have "2 ^ j dvd unat x" "2 ^ j dvd unat y"
    using dvd_trans [OF le_imp_power_dvd dv, of j] y by simp_all
  then have "\<forall>b \<in> B - {(x, Suc j)} \<union> {(x, j), (y, j)}.
      min_order a \<le> snd b \<and> snd b \<le> max_order a \<and> 2 ^ snd b dvd unat (fst b)"
    using t x(2) mx by (auto simp: tiling_def)
  moreover have "blk_range b \<inter> blk_range c = {}"
    if b: "b \<in> B - {(x, Suc j)} \<union> {(x, j), (y, j)}" and c: "c \<in> B - {(x, Suc j)} \<union> {(x, j), (y, j)}"
      and "b \<noteq> c" for b c
  proof -
    consider "b \<in> B - {(x, Suc j)}" "c \<in> B - {(x, Suc j)}"
      | "b \<in> B - {(x, Suc j)}" "c \<in> {(x, j), (y, j)}" | "b \<in> {(x, j), (y, j)}" "c \<in> B - {(x, Suc j)}"
      | "b \<in> {(x, j), (y, j)}" "c \<in> {(x, j), (y, j)}" using b c by blast
    then show ?thesis
    proof cases
      case 1
      with t \<open>b \<noteq> c\<close> show ?thesis unfolding tiling_def by blast
    next
      case 2
      with dis [of b] h(1) show ?thesis by blast
    next
      case 3
      with dis [of c] h(1) show ?thesis by blast
    next
      case 4
      with h(2) \<open>b \<noteq> c\<close> show ?thesis by blast
    qed
  qed
  moreover have "\<Union>(blk_range ` (B - {(x, Suc j)} \<union> {(x, j), (y, j)})) = ?R"
  proof -
    have "\<Union>(blk_range ` B) = \<Union>(blk_range ` (B - {(x, Suc j)})) \<union> blk_range (x, Suc j)" using x(1) by blast
    also have "\<dots> = \<Union>(blk_range ` (B - {(x, Suc j)} \<union> {(x, j), (y, j)}))" by (auto simp: h(1))
    finally show ?thesis using t by (simp add: tiling_def)
  qed
  ultimately show ?thesis unfolding tiling_def by blast
qed

lemma lists_ok_order_upd:
  assumes "lists_ok a fl" and "\<And>j. j < BUDDY_NUM_LISTS \<Longrightarrow> x \<notin> set (fl j)"
  shows "lists_ok (upd_block x (\<lambda>b. b\<lparr>order := k\<rparr>) a) fl"
proof -
  have "nxt (upd_block x (\<lambda>b. b\<lparr>order := k\<rparr>) a) = nxt a" "prv (upd_block x (\<lambda>b. b\<lparr>order := k\<rparr>) a) = prv a"
    "tkn (upd_block x (\<lambda>b. b\<lparr>order := k\<rparr>) a) = tkn a"
    by (auto simp: field_defs)
  with assms show ?thesis by (auto simp: lists_ok_def ordr_def)
qed

lemma ordr_upd [simp]: "ordr (upd_block x (\<lambda>b. b\<lparr>order := k\<rparr>) a) = (ordr a)(x := k)"
  and tkn_upd [simp]: "tkn (upd_block x (\<lambda>b. b\<lparr>order := k\<rparr>) a) = tkn a"
  by (auto simp: field_defs)

lemma upd_order_pred:
  "order (bheap a x) = Suc j \<Longrightarrow>
    upd_block x (\<lambda>b. b\<lparr>order := order b - 1\<rparr>) a = upd_block x (\<lambda>b. b\<lparr>order := j\<rparr>) a"
  by (simp add: upd_block_def)

text \<open>Splitting a free block puts its halves at the head of the next list, the left half second.\<close>

lemma split_ok:
  assumes ok: "heap_ok a fl A" and i: "Suc i < BUDDY_NUM_LISTS" "x \<in> set (fl (Suc i))"
  shows "\<exists>br a' fl'. split x a = Some (br, a') \<and> same_params a a' \<and> heap_ok a' fl' A \<and> x \<in> set (fl' i)"
proof -
  let ?k = "min_order a + i"
  obtain as bs where fl: "fl (Suc i) = as @ x # bs" using i(2) by (meson split_list)
  let ?fl = "fl(Suc i := as @ bs)" and ?B = "free_blocks a fl \<union> A"
  obtain a1 where a1: "remove_block x a = Some (x, a1)" "same_params a a1"
      "heap_ok a1 ?fl (insert (x, Suc ?k) A)"
    using remove_block_ok [of a fl A "Suc i" as x bs] ok i(1) fl by auto
  have par: "params_ok a" and til: "tiling a ?B" using ok by (simp_all add: heap_ok_def)
  have xB: "(x, Suc ?k) \<in> ?B" using i free_blocks_snd [of "Suc i" x a fl] by simp
  note b = tiling_bounds [OF par til xB]
  have k: "Suc ?k \<le> max_order a" "?k \<le> 30" "max_order a \<le> 29" using b(3) par by (auto simp: params_ok_def)
  define br where "br = x XOR order_mask ?k"
  have ubr: "unat br = unat x + 2 ^ ?k" using buddy_addr [OF b(4) k(2)] by (simp add: br_def)
  have nz: "br \<noteq> 0" and ne: "br \<noteq> x" using ubr by auto
  have ox: "ordr a x = Suc ?k" using ok i by (auto simp: heap_ok_def lists_ok_def)
  have ox1: "ordr a1 x = Suc ?k" using a1(3) by (auto simp: heap_ok_def taken_ok_def)
  define a2 where "a2 = upd_block x (\<lambda>b. b\<lparr>order := ?k\<rparr>) a1"
  define a3 where "a3 = upd_block br (\<lambda>b. b\<lparr>order := ?k\<rparr>) a2"
  have brfree: "fst b \<noteq> br" if "b \<in> ?B" for b
  proof
    assume "fst b = br"
    then have "unat br \<in> blk_range b \<inter> blk_range (x, Suc ?k)" by (simp add: blk_range_def ubr)
    moreover have "b \<noteq> (x, Suc ?k)" using \<open>fst b = br\<close> ne by auto
    ultimately show False using til that xB unfolding tiling_def by blast
  qed
  have xl: "x \<notin> set (?fl j)" if "j < BUDDY_NUM_LISTS" for j
    using taken_notin_lists [OF a1(3) _ that] by blast
  have brl: "br \<notin> set (fl j)" if "j < BUDDY_NUM_LISTS" for j
    using brfree [of "(br, min_order a + j)"] free_blocks_snd [OF that] by auto
  then have brl': "br \<notin> set (?fl j)" if "j < BUDDY_NUM_LISTS" for j
    using that fl brl [of "Suc i"] by auto
  have l3: "lists_ok a3 ?fl" unfolding a3_def a2_def
    using a1(3) xl brl' by (intro lists_ok_order_upd) (auto simp: heap_ok_def)
  have sp3: "same_params a a3" and len3: "length (order_lists a3) = BUDDY_NUM_LISTS"
    using a1 par by (auto simp: same_params_def a3_def a2_def heap_ok_def params_ok_def)
  have o3: "ordr a3 x = ?k" "ordr a3 br = ?k" "\<And>y. y \<noteq> x \<Longrightarrow> y \<noteq> br \<Longrightarrow> ordr a3 y = ordr a1 y"
      "tkn a3 = tkn a1" by (auto simp: a3_def a2_def)
  have i': "i < BUDDY_NUM_LISTS" "ordr a3 x = min_order a3 + i" using i(1) sp3 o3(1) by (auto simp: same_params_def)
  obtain a4 where a4: "insert_block x a3 = Some a4" "same_params a3 a4" "lists_ok a4 (?fl(i := x # ?fl i))"
      "length (order_lists a4) = BUDDY_NUM_LISTS" "ordr a4 = ordr a3" "tkn a4 = (tkn a3)(x := 0)"
    using insert_block_lists [OF l3 len3 i' b(1)] xl by auto
  let ?fl4 = "?fl(i := x # ?fl i)"
  have i4: "ordr a4 br = min_order a4 + i" using a4(2,5) o3(2) sp3 by (simp add: same_params_def)
  have br4: "br \<notin> set (?fl4 j)" if "j < BUDDY_NUM_LISTS" for j
    using brl' [OF that] brl [OF i'(1)] ne by auto
  obtain a5 where a5: "insert_block br a4 = Some a5" "same_params a4 a5"
      "lists_ok a5 (?fl4(i := br # ?fl4 i))" "length (order_lists a5) = BUDDY_NUM_LISTS"
      "ordr a5 = ordr a4" "tkn a5 = (tkn a4)(br := 0)"
    using insert_block_lists [OF a4(3,4) i'(1) i4 nz br4] by blast
  let ?fl5 = "?fl4(i := br # ?fl4 i)"
  have sp: "same_params a a5" using sp3 a4(2) a5(2) by (blast intro: same_params_trans)
  have "get_buddy x a2 = Some br"
    using b(1) k(1) a1(2) by (simp add: get_buddy_def a2_def br_def same_params_def)
  then have eq: "split x a = Some (br, a5)"
    using b(1) ox ox1 a1(1) nz a4(1) a5(1) upd_order_pred [of a1 x ?k]
    by (simp add: split_def ordr_def a2_def [symmetric] a3_def [symmetric])
  have xA: "(x, l) \<notin> A" for l
  proof
    assume "(x, l) \<in> A"
    then have "x \<notin> set (fl (Suc i))" using taken_notin_lists [OF ok _ i(1)] by blast
    with i(2) show False by simp
  qed
  have "ordr a5 (fst b) = snd b \<and> tkn a5 (fst b) = 1" if "b \<in> A" for b
    using that xA brfree [of b] a1(3) a4(5,6) a5(5,6) o3(3,4)
    by (cases b) (auto simp: heap_ok_def taken_ok_def)
  then have "taken_ok a5 A" by (auto simp: taken_ok_def)
  moreover have "free_blocks a5 ?fl5 \<union> A = ?B - {(x, Suc ?k)} \<union> {(x, ?k), (br, ?k)}"
  proof -
    have "x \<notin> set as" "x \<notin> set bs" using xl [of "Suc i"] i(1) by auto
    then show ?thesis using sp i fl xA
      by (auto simp: set_eq_iff free_blocks_iff same_params_def split: if_splits)
  qed
  ultimately have "heap_ok a5 ?fl5 A"
    using a5(3,4) sp par tiling_split [OF til xB _ ubr] tiling_cong [OF sp] params_ok_cong [OF sp]
    by (simp add: heap_ok_def params_ok_def)
  moreover have "x \<in> set (?fl5 i)" by simp
  ultimately show ?thesis using eq sp by blast
qed

lemma split_n_ok:
  assumes "heap_ok a fl A" and "d + i < BUDDY_NUM_LISTS" and "x \<in> set (fl (d + i))"
  shows "\<exists>a' fl'. split_n d x a = Some a' \<and> same_params a a' \<and> heap_ok a' fl' A \<and> x \<in> set (fl' i)"
  using assms
proof (induction d arbitrary: a fl)
  case 0
  then show ?case by (auto simp: same_params_def)
next
  case (Suc d)
  then obtain br a1 fl1 where a1: "split x a = Some (br, a1)" "same_params a a1" "heap_ok a1 fl1 A"
      "x \<in> set (fl1 (d + i))"
    using split_ok [of a fl A "d + i" x] by auto
  with Suc.IH [OF a1(3) _ a1(4)] Suc.prems(2) show ?case by (auto intro: same_params_trans)
qed

lemma heap_ok_index:
  assumes "heap_ok a fl A" and "i < BUDDY_NUM_LISTS"
  shows "order_lists a ! i = 0 \<longleftrightarrow> fl i = []" and "fl i \<noteq> [] \<Longrightarrow> order_lists a ! i = hd (fl i)"
    and "fl i \<noteq> [] \<Longrightarrow> min_order a + i \<le> max_order a"
proof -
  have d: "dll (nxt a) (prv a) (order_lists a ! i) (fl i)"
    using assms by (auto simp: heap_ok_def lists_ok_def)
  then show "order_lists a ! i = 0 \<longleftrightarrow> fl i = []" "fl i \<noteq> [] \<Longrightarrow> order_lists a ! i = hd (fl i)"
    by (cases "fl i"; auto simp: dll_Cons)+
  assume "fl i \<noteq> []"
  then have "(hd (fl i), min_order a + i) \<in> free_blocks a fl"
    using free_blocks_snd [OF assms(2)] by simp
  then show "min_order a + i \<le> max_order a"
    using tiling_bounds(3) assms(1) by (auto simp: heap_ok_def)
qed

lemma find_larger_ok:
  assumes ok: "heap_ok a fl A" and n: "i < n" "min_order a + n + k = Suc (max_order a)"
  shows "if \<exists>m \<ge> n. m < n + k \<and> fl m \<noteq> []
    then \<exists>x a' fl'. find_larger k (min_order a + n) (min_order a + i) a = Some (x, a') \<and>
      same_params a a' \<and> heap_ok a' fl' A \<and> x \<in> set (fl' i)
    else find_larger k (min_order a + n) (min_order a + i) a = Some (0, a)"
  using n
proof (induction k arbitrary: n)
  case 0
  then show ?case by auto
next
  case (Suc k)
  have nb: "n < BUDDY_NUM_LISTS" using Suc.prems(2) ok by (auto simp: heap_ok_def params_ok_def BUDDY_NUM_LISTS_def)
  note li = list_index_ok [OF nb, of a] and ix = heap_ok_index [OF ok nb]
  show ?case
  proof (cases "fl n = []")
    case True
    have ex: "(\<exists>m \<ge> n. m < n + Suc k \<and> fl m \<noteq> []) \<longleftrightarrow> (\<exists>m \<ge> Suc n. m < Suc n + k \<and> fl m \<noteq> [])"
      using True by (metis Suc_leD Suc_leI add_Suc_shift le_neq_implies_less)
    have eq: "find_larger (Suc k) (min_order a + n) (min_order a + i) a =
        find_larger k (min_order a + Suc n) (min_order a + i) a"
      using True li ix(1) by (simp add: Let_def)
    show ?thesis unfolding eq ex using Suc.prems by (intro Suc.IH) simp_all
  next
    case False
    then have hd: "order_lists a ! n = hd (fl n)" "order_lists a ! n \<noteq> 0" using ix by auto
    have "(n - i) + i = n" using Suc.prems(1) by simp
    then obtain a' fl' where a': "split_n (n - i) (hd (fl n)) a = Some a'" "same_params a a'"
        "heap_ok a' fl' A" "hd (fl n) \<in> set (fl' i)"
      using split_n_ok [OF ok, of "n - i" i "hd (fl n)"] nb False by auto
    have "min_order a + n - (min_order a + i) = n - i" by simp
    then have "find_larger (Suc k) (min_order a + n) (min_order a + i) a = Some (hd (fl n), a')"
      using li hd a'(1) by (simp add: Let_def)
    with a' False show ?thesis by auto
  qed
qed

section \<open>Sizes\<close>

lemma bit_top:
  assumes "unat (x :: u32) < 2 ^ Suc i"
  shows "bit x i \<longleftrightarrow> 2 ^ i \<le> unat x"
proof -
  have b: "bit x i \<longleftrightarrow> odd (unat x div 2 ^ i)"
    using bit_unsigned_iff [of x i, where 'a = nat] by (simp add: bit_iff_odd)
  have "unat x div 2 ^ i < 2" using assms by (simp add: less_mult_imp_div_less)
  then have "unat x div 2 ^ i = 0 \<or> unat x div 2 ^ i = 1" by auto
  moreover have "0 < unat x div 2 ^ i \<longleftrightarrow> 2 ^ i \<le> unat x" by (simp add: div_greater_zero_iff)
  ultimately show ?thesis using b by auto
qed

lemma clz_from_log:
  assumes "x \<noteq> 0" and "unat x < 2 ^ i"
  shows "\<exists>k. 2 ^ k \<le> unat x \<and> unat x < 2 ^ Suc k \<and> clz_from i x + Suc k = i"
  using assms
proof (induction i)
  case 0
  then show ?case by (simp add: unat_eq_zero)
next
  case (Suc i)
  then show ?case using bit_top [of x i] by (cases "bit x i") auto
qed

lemma ctz_from_power:
  "j < 32 \<Longrightarrow> i \<le> j \<Longrightarrow> j < i + f \<Longrightarrow> ctz_from f i (push_bit j 1) = j"
proof (induction f arbitrary: i)
  case 0
  then show ?case by simp
next
  case (Suc f)
  have "bit (push_bit j 1 :: u32) i \<longleftrightarrow> i = j" using Suc.prems by (auto simp: bit_simps)
  with Suc show ?case by auto
qed

lemma builtin_ctz_power: "j < 32 \<Longrightarrow> builtin_ctz (push_bit j 1) = Some j"
proof -
  assume j: "j < 32"
  then have "bit (push_bit j 1 :: u32) j" by (simp add: bit_simps)
  then have "push_bit j 1 \<noteq> (0 :: u32)" by (metis bit_0_eq bot_apply bot_bool_def)
  with j show ?thesis using ctz_from_power [of j 0 32] by (simp add: builtin_ctz_def)
qed

lemma ucast_power: "k < 32 \<Longrightarrow> (ucast (push_bit k 1 :: u64) :: u32) = push_bit k 1"
  by (rule bit_word_eqI) (auto simp: bit_simps)

lemma ucast_shl: "k < 32 \<Longrightarrow> (ucast (shl32 1 k) :: u64) = push_bit k 1"
  unfolding shl32_def by (rule bit_word_eqI) (auto simp: bit_simps)

lemma power_less: "j < 64 \<Longrightarrow> k < 64 \<Longrightarrow> (push_bit j 1 :: u64) < push_bit k 1 \<longleftrightarrow> j < k"
  by (simp only: word_less_nat_alt unat_mask) simp

lemma round_size_ok:
  assumes w: "2 \<le> unat w" "unat w \<le> 2 ^ 30" and mo: "mo \<le> 30"
  shows "\<exists>k \<le> 30. round_size w mo = Some (push_bit k 1) \<and> mo \<le> k \<and> unat w \<le> 2 ^ k \<and>
    (k = mo \<or> 2 ^ (k - 1) < unat w)"
proof -
  let ?x = "ucast (w - 1) :: u32"
  have "1 \<le> w" using w(1) by (simp add: word_le_nat_alt)
  then have u: "unat (w - 1) = unat w - 1" by (simp add: unat_sub)
  have ux: "unat ?x = unat w - 1" using w u by (simp add: unsigned_ucast_eq take_bit_nat_eq_self)
  have "?x \<noteq> 0" using ux w(1) by (metis One_nat_def Suc_1 diff_is_0_eq not_less_eq_eq unat_0)
  moreover have "unat ?x < 2 ^ 32" using unsigned_less [of ?x] by simp
  ultimately obtain l where l: "2 ^ l \<le> unat ?x" "unat ?x < 2 ^ Suc l" "clz_from 32 ?x + Suc l = 32"
    using clz_from_log by blast
  have "2 ^ l < (2 ^ 30 :: nat)" using l(1) ux w by linarith
  then have l30: "l < 30" by (rule power_less_imp_less_exp [rotated]) simp
  have "64 - clz_from 32 ?x = 33 + l" using l(3) by simp
  moreover have "(scast (shl32 1 (33 + l)) :: u64) = push_bit (Suc l) 1"
  proof -
    have "33 + l = Suc l + 32" by simp
    then have "(33 + l) mod 32 = Suc l mod 32" by (simp only: mod_add_self2)
    then show ?thesis using order_mask_eq [of "Suc l"] l30 by (simp only: order_mask_def shl32_def)
  qed
  moreover have "w \<noteq> 1" using w(1) by auto
  ultimately have "round_size w mo = Some (if push_bit (Suc l) 1 < (push_bit mo 1 :: u64)
      then push_bit mo 1 else push_bit (Suc l) 1)"
    using \<open>?x \<noteq> 0\<close> mo by (simp add: round_size_def builtin_clz_def ucast_shl del: push_bit_Suc)
  moreover have "(push_bit (Suc l) 1 < (push_bit mo 1 :: u64)) \<longleftrightarrow> Suc l < mo"
    using l30 mo by (intro power_less) simp_all
  ultimately have r: "round_size w mo = Some (push_bit (max mo (Suc l)) 1)"
    by (simp add: max_def del: push_bit_Suc)
  have "unat w \<le> 2 ^ Suc l" using l(2) ux w(1) by linarith
  also have "(2 ^ Suc l :: nat) \<le> 2 ^ max mo (Suc l)" by (intro power_increasing) simp_all
  finally have "unat w \<le> 2 ^ max mo (Suc l)" .
  moreover have "2 ^ l < unat w" using l(1) ux w(1) by linarith
  ultimately show ?thesis using r mo l30 by (intro exI [of _ "max mo (Suc l)"]) (auto simp: max_def)
qed

lemma free_large_iff:
  assumes "heap_ok a fl A"
  shows "(\<exists>b \<in> free_blocks a fl. min_order a + i \<le> snd b) \<longleftrightarrow>
    (\<exists>m \<ge> i. m < Suc (max_order a) - min_order a \<and> fl m \<noteq> [])"
proof
  assume "\<exists>b \<in> free_blocks a fl. min_order a + i \<le> snd b"
  then obtain x m where "m < BUDDY_NUM_LISTS" "x \<in> set (fl m)" "i \<le> m" by (auto simp: free_blocks_def)
  moreover from this have "min_order a + m \<le> max_order a" using heap_ok_index(3) [OF assms, of m] by force
  ultimately show "\<exists>m \<ge> i. m < Suc (max_order a) - min_order a \<and> fl m \<noteq> []"
    by (intro exI [of _ m]) auto
next
  assume "\<exists>m \<ge> i. m < Suc (max_order a) - min_order a \<and> fl m \<noteq> []"
  then obtain m where m: "i \<le> m" "m < Suc (max_order a) - min_order a" "fl m \<noteq> []" by blast
  then have "m < BUDDY_NUM_LISTS" using assms by (auto simp: heap_ok_def params_ok_def BUDDY_NUM_LISTS_def)
  with m have "(hd (fl m), min_order a + m) \<in> free_blocks a fl" using free_blocks_snd by auto
  with m(1) show "\<exists>b \<in> free_blocks a fl. min_order a + i \<le> snd b" by force
qed

lemma balloc_order:
  assumes ok: "heap_ok a fl A" and n: "n \<noteq> 0" "n \<le> bsize a"
  shows "\<exists>i. min_order a + i \<le> 30 \<and> unat n + 24 \<le> 2 ^ (min_order a + i) \<and>
    (i = 0 \<or> 2 ^ (min_order a + i - 1) < unat n + 24) \<and>
    round_size (n + sizeof_buddy_block) (min_order a) = Some (push_bit (min_order a + i) 1)"
proof -
  have mo: "min_order a \<le> 30" "max_order a \<le> 29" "unat (bsize a) = 2 ^ max_order a"
    using ok by (auto simp: heap_ok_def params_ok_def)
  have "(2 ^ max_order a :: nat) \<le> 2 ^ 29" using mo(2) by (intro power_increasing) simp_all
  then have le: "unat n \<le> 2 ^ 29" using n(2) mo(3) by (simp add: word_le_nat_alt)
  moreover have "0 < unat n" using n(1) by (simp add: unat_gt_0)
  moreover have "unat (n + sizeof_buddy_block) = unat n + 24"
    using le by (simp add: unat_word_ariths sizeof_buddy_block_def)
  ultimately obtain k where k: "k \<le> 30" "round_size (n + sizeof_buddy_block) (min_order a) = Some (push_bit k 1)"
      "min_order a \<le> k" "unat n + 24 \<le> 2 ^ k" "k = min_order a \<or> 2 ^ (k - 1) < unat n + 24"
    using round_size_ok [of "n + sizeof_buddy_block" "min_order a"] mo(1) by auto
  then show ?thesis by (intro exI [of _ "k - min_order a"]) auto
qed

section \<open>Allocation\<close>

lemma balloc_take:
  assumes ok: "heap_ok a fl A" and i: "i < BUDDY_NUM_LISTS" "x \<in> set (fl i)"
  shows "\<exists>a' fl'. remove_block x a = Some (x, a') \<and> same_params a a' \<and>
    heap_ok a' fl' (insert (x, min_order a + i) A) \<and> (x, min_order a + i) \<notin> A"
proof -
  obtain as bs where "fl i = as @ x # bs" using i(2) by (meson split_list)
  then show ?thesis using remove_block_ok [OF ok i(1)] taken_notin_lists [OF ok _ i(1)] i(2) by metis
qed

lemma balloc_exact:
  assumes ok: "heap_ok a fl A" and i: "i < BUDDY_NUM_LISTS" "fl i \<noteq> []"
  shows "\<exists>a' fl'. remove_block (hd (fl i)) a = Some (hd (fl i), a') \<and>
    remove_block (hd (fl i)) a' = Some (hd (fl i), a') \<and> same_params a a' \<and>
    heap_ok a' fl' (insert (hd (fl i), min_order a + i) A) \<and> (hd (fl i), min_order a + i) \<notin> A"
proof -
  let ?x = "hd (fl i)"
  have fl: "fl i = [] @ ?x # tl (fl i)" using i(2) by simp
  have d: "dll (nxt a) (prv a) (order_lists a ! i) ([] @ ?x # tl (fl i))" and o: "ordr a ?x = min_order a + i"
    using ok i by (auto simp: heap_ok_def lists_ok_def)
  note m = dll_middle [OF d]
  have ne: "nxt a ?x \<noteq> ?x" using m(2,3) dll_distinct [OF d] by (cases "tl (fl i)") auto
  obtain a' where a': "remove_block ?x a = Some (?x, a')" "same_params a a'"
      "heap_ok a' (fl(i := [] @ tl (fl i))) (insert (?x, min_order a + i) A)"
    using remove_block_ok [OF ok i(1) fl] by blast
  have "remove_block ?x a' = Some (?x, a')"
    using remove_block_twice [OF m(3) _ ne _ a'(1)] m(1) list_index_ok [OF i(1), of a] o by simp
  moreover have "(?x, min_order a + i) \<notin> A" using taken_notin_lists [OF ok _ i(1)] i(2) hd_in_set by blast
  ultimately show ?thesis using a' by blast
qed

lemma balloc_block:
  assumes ok: "heap_ok a fl A" and n: "n \<noteq> 0" "n \<le> bsize a"
    and i: "min_order a + i \<le> 30" "round_size (n + sizeof_buddy_block) (min_order a) = Some (push_bit (min_order a + i) 1)"
  shows "if \<exists>b \<in> free_blocks a fl. min_order a + i \<le> snd b
    then \<exists>x a' fl'. balloc n a = Some (x + sizeof_buddy_block, a') \<and> same_params a a' \<and>
      heap_ok a' fl' (insert (x, min_order a + i) A) \<and> (x, min_order a + i) \<notin> A
    else balloc n a = None"
proof -
  let ?k = "min_order a + i"
  have ib: "i < BUDDY_NUM_LISTS" using i(1) by (simp add: BUDDY_NUM_LISTS_def)
  note ix = heap_ok_index [OF ok ib]
  have "builtin_ctz (ucast (push_bit ?k 1 :: u64)) = Some ?k"
    using i(1) builtin_ctz_power [of ?k] by (simp only: ucast_power)
  then have eq: "balloc n a = do {
       (ret_block, a1) \<leftarrow>
         (if order_lists a ! i \<noteq> 0 then remove_block (order_lists a ! i) a
          else find_larger (Suc (max_order a) - Suc ?k) (Suc ?k) ?k a);
       (_, a2) \<leftarrow> remove_block ret_block a1;
       Some (ret_block + sizeof_buddy_block, a2) }"
    using n(1) i(2) list_index_ok [OF ib, of a] leD [OF n(2)]
    by (simp add: balloc_def del: push_bit_of_1)
  show ?thesis
  proof (cases "fl i = []")
    case False
    then have ex: "\<exists>b \<in> free_blocks a fl. ?k \<le> snd b"
      using free_blocks_snd [OF ib, of "hd (fl i)" a fl] by force
    obtain a' fl' where "remove_block (hd (fl i)) a = Some (hd (fl i), a')"
        "remove_block (hd (fl i)) a' = Some (hd (fl i), a')" "same_params a a'"
        "heap_ok a' fl' (insert (hd (fl i), ?k) A)" "(hd (fl i), ?k) \<notin> A"
      using balloc_exact [OF ok ib False] by blast
    then show ?thesis using ex False ix by (auto simp: eq)
  next
    case True
    let ?r = "Suc (max_order a) - Suc ?k"
    have ex: "(\<exists>b \<in> free_blocks a fl. ?k \<le> snd b) \<longleftrightarrow> (\<exists>m \<ge> Suc i. m < Suc i + ?r \<and> fl m \<noteq> [])"
    proof -
      have "(i \<le> m \<and> m < Suc (max_order a) - min_order a \<and> fl m \<noteq> []) =
          (Suc i \<le> m \<and> m < Suc i + ?r \<and> fl m \<noteq> [])" for m
        using True by (cases "m = i") auto
      then show ?thesis unfolding free_large_iff [OF ok] by blast
    qed
    have r: "if \<exists>m \<ge> Suc i. m < Suc i + ?r \<and> fl m \<noteq> []
      then \<exists>x a' fl'. find_larger ?r (Suc ?k) ?k a = Some (x, a') \<and> same_params a a' \<and>
        heap_ok a' fl' A \<and> x \<in> set (fl' i)
      else find_larger ?r (Suc ?k) ?k a = Some (0, a)"
    proof (cases "?k < max_order a")
      case True
      then have "min_order a + Suc i + ?r = Suc (max_order a)" by simp
      from find_larger_ok [OF ok lessI this] show ?thesis by (simp only: add_Suc_right)
    next
      case False
      then have "?r = 0" by simp
      then show ?thesis by auto
    qed
    show ?thesis
    proof (cases "\<exists>m \<ge> Suc i. m < Suc i + ?r \<and> fl m \<noteq> []")
      case ex2: True
      then obtain x a1 fl1 where a1: "find_larger ?r (Suc ?k) ?k a = Some (x, a1)" "same_params a a1"
          "heap_ok a1 fl1 A" "x \<in> set (fl1 i)" using r by auto
      obtain a' fl' where "remove_block x a1 = Some (x, a')" "same_params a1 a'"
          "heap_ok a' fl' (insert (x, min_order a1 + i) A)" "(x, min_order a1 + i) \<notin> A"
        using balloc_take [OF a1(3) ib a1(4)] by blast
      then show ?thesis using ex ex2 True ix(1) a1(1,2)
        by (auto simp: eq same_params_def)
    next
      case ex2: False
      have "find_larger ?r (Suc ?k) ?k a = Some (0, a)" using r unfolding if_not_P [OF ex2] .
      then have "balloc n a = None" using True ix(1) by (simp add: eq remove_block_def)
      with ex ex2 show ?thesis by simp
    qed
  qed
qed

section \<open>Initialisation and release\<close>

lemma power_and_pred: "k < 64 \<Longrightarrow> (push_bit k 1 :: u64) AND (push_bit k 1 - 1) = 0"
proof -
  assume "k < 64"
  have "(push_bit k 1 :: u64) - 1 = mask k" by (simp add: mask_eq_exp_minus_1 push_bit_eq_mult)
  then have "(push_bit k 1 :: u64) AND (push_bit k 1 - 1) = push_bit k 1 AND mask k" by (simp only:)
  also have "\<dots> = 0" by (rule bit_word_eqI) (auto simp: bit_simps)
  finally show ?thesis .
qed

lemma buddy_init_heap:
  assumes len: "unat len = 2 ^ k" "k \<le> 29" and mo: "5 \<le> unat mo" "unat mo \<le> k"
    and p: "ptr \<noteq> 0" "2 ^ k dvd unat ptr"
  shows "\<exists>a'. buddy_init len ptr mo a = Some (0, a') \<and>
    heap_ok a' ((\<lambda>_. [])(k - unat mo := [ptr])) {} \<and> min_order a' = unat mo \<and> max_order a' = k \<and>
    memory_start a' = ptr \<and> bsize a' = len"
proof -
  have l: "len = push_bit k 1" using len unat_mask [of k] by (simp only: word_unat_eq_iff)
  have c: "builtin_ctz (ucast len) = Some k"
    unfolding l using len(2) builtin_ctz_power [of k] ucast_power [of k] by (simp del: push_bit_of_1)
  have m16: "unat (ucast mo :: u16) = unat mo"
    using mo len(2) by (simp add: unsigned_ucast_eq take_bit_nat_eq_self)
  define a1 where "a1 = a\<lparr>order_lists := replicate BUDDY_NUM_LISTS 0, min_order := unat mo,
    max_order := k, bsize := len, memory_start := ptr\<rparr>"
  define a2 where "a2 = upd_block ptr (\<lambda>b. b\<lparr>order := k\<rparr>) a1"
  have "lists_ok a2 (\<lambda>_. [])" by (simp add: lists_ok_def a2_def a1_def)
  moreover have len2: "length (order_lists a2) = BUDDY_NUM_LISTS" by (simp add: a2_def a1_def)
  moreover have i: "k - unat mo < BUDDY_NUM_LISTS" using len(2) by (simp add: BUDDY_NUM_LISTS_def)
  moreover have "ordr a2 ptr = min_order a2 + (k - unat mo)" using mo by (simp add: a2_def a1_def)
  ultimately obtain a' where a': "insert_block ptr a2 = Some a'" "same_params a2 a'"
      "lists_ok a' ((\<lambda>_. [])(k - unat mo := [ptr]))" "length (order_lists a') = BUDDY_NUM_LISTS"
    using insert_block_lists [of a2 "\<lambda>_. []" "k - unat mo" ptr] p(1) by auto
  have par: "min_order a' = unat mo" "max_order a' = k" "memory_start a' = ptr" "bsize a' = len"
    using a'(2) by (auto simp: same_params_def a2_def a1_def)
  have "free_blocks a' ((\<lambda>_. [])(k - unat mo := [ptr])) = {(ptr, k)}"
    using i mo par by (auto simp: free_blocks_def split: if_splits)
  then have "heap_ok a' ((\<lambda>_. [])(k - unat mo := [ptr])) {}"
    using a'(3,4) par p len mo
    by (simp add: heap_ok_def params_ok_def taken_ok_def tiling_def blk_range_def)
  moreover have "buddy_init len ptr mo a = Some (0, a')"
    using a'(1) c m16 p(1) power_and_pred [of k] len(2)
    by (simp add: buddy_init_def l a1_def a2_def Let_def del: push_bit_of_1)
  ultimately show ?thesis using par by blast
qed

lemma buddy_nonzero:
  assumes ok: "heap_ok a fl A" and x: "(x, k) \<in> A" "k < max_order a"
  shows "x XOR order_mask k \<noteq> 0"
proof
  assume "x XOR order_mask k = 0"
  moreover have "x = (x XOR order_mask k) XOR order_mask k" by (simp add: xor.assoc)
  ultimately have xm: "x = order_mask k" by simp
  have par: "params_ok a" and til: "tiling a (free_blocks a fl \<union> A)" using ok by (auto simp: heap_ok_def)
  have "k \<le> 30" using x(2) par by (auto simp: params_ok_def)
  then have ux: "unat x = 2 ^ k" using xm unat_mask [of k] by (simp add: order_mask_eq del: push_bit_of_1)
  have "unat x \<in> blk_range (x, k)" by (simp add: blk_range_def)
  then have "unat (memory_start a) \<le> unat x" using til x(1) unfolding tiling_def by fastforce
  moreover have "2 ^ max_order a \<le> unat (memory_start a)"
    using par by (auto simp: params_ok_def unat_gt_0 intro: dvd_imp_le)
  moreover have "(2 ^ k :: nat) < 2 ^ max_order a" using x(2) by simp
  ultimately show False using ux by simp
qed

lemma bfree_insert:
  assumes ok: "heap_ok a fl A" and x: "(x, k) \<in> A" "k < max_order a"
    and b: "ordr a (x XOR order_mask k) \<noteq> k \<or> tkn a (x XOR order_mask k) \<noteq> 0"
  shows "\<exists>a' fl'. bfree (x + sizeof_buddy_block) a = Some a' \<and> same_params a a' \<and>
    heap_ok a' fl' (A - {(x, k)}) \<and> x \<in> set (fl' (k - min_order a))"
proof -
  have par: "params_ok a" and til: "tiling a (free_blocks a fl \<union> A)" using ok by (auto simp: heap_ok_def)
  note t = tiling_bounds [OF par til UnI2 [OF x(1)]]
  have k: "k = min_order a + (k - min_order a)" using t(2) by simp
  have o: "ordr a x = k" using ok x(1) by (fastforce simp: heap_ok_def taken_ok_def)
  have "x + sizeof_buddy_block \<noteq> 0"
  proof
    assume "x + sizeof_buddy_block = 0"
    then have "x = - 24" by (simp add: sizeof_buddy_block_def eq_neg_iff_add_eq_0)
    then have "unat x = 2 ^ 64 - 24" by simp
    moreover have "5 \<le> k" using t(2) par by (simp add: params_ok_def)
    then have "2 ^ 5 dvd unat x" using dvd_trans [OF le_imp_power_dvd t(4)] by blast
    ultimately show False by simp
  qed
  moreover have "HEADER (x + sizeof_buddy_block) = x" by (simp add: HEADER_def)
  moreover have "get_buddy x a = Some (x XOR order_mask k)"
    using t(1) o x(2) by (simp add: get_buddy_def ordr_def)
  moreover obtain a' where a': "insert_block x a = Some a'" "same_params a a'"
      "heap_ok a' (fl(k - min_order a := x # fl (k - min_order a))) (A - {(x, k)})"
    using insert_block_ok [OF ok, of x "k - min_order a"] x(1) k by auto
  ultimately have "bfree (x + sizeof_buddy_block) a = Some a'"
    using b o buddy_nonzero [OF ok x] by (auto simp: bfree_def ordr_def tkn_def)
  with a' show ?thesis by fastforce
qed

section \<open>Properties\<close>

text \<open>
  \<open>buddy_init\<close> on a naturally aligned region of \<open>2^k\<close> bytes makes a well-formed heap with one free
  block, the whole region, in the list of its order, and nothing allocated.
\<close>

theorem buddy_init_one_block:
  assumes "unat len = 2 ^ k" and "k \<le> 29" and "5 \<le> unat mo" and "unat mo \<le> k"
    and "ptr \<noteq> 0" and "2 ^ k dvd unat ptr"
  shows "\<exists>a'. buddy_init len ptr mo a = Some (0, a') \<and>
    heap_ok a' ((\<lambda>_. [])(k - unat mo := [ptr])) {} \<and> free_blocks a' ((\<lambda>_. [])(k - unat mo := [ptr])) = {(ptr, k)}"
proof -
  obtain a' where "buddy_init len ptr mo a = Some (0, a')" "min_order a' = unat mo"
      "heap_ok a' ((\<lambda>_. [])(k - unat mo := [ptr])) {}"
    using buddy_init_heap [OF assms] by blast
  moreover have "k - unat mo < BUDDY_NUM_LISTS" using assms(2) by (simp add: BUDDY_NUM_LISTS_def)
  ultimately show ?thesis using assms(4) by (auto simp: free_blocks_def split: if_splits)
qed

definition fresh_heap :: buddy_allocator where
  "fresh_heap = \<lparr>min_order = 0, max_order = 0, bsize = 0, memory_start = 0, order_lists = [],
    bheap = (\<lambda>_. \<lparr>order = 0, taken = 0, bnext = 0, bprev = 0\<rparr>)\<rparr>"

theorem buddy_init_one_block_witness:
  "\<exists>a'. buddy_init 4096 0x10000 5 fresh_heap = Some (0, a') \<and> heap_ok a' ((\<lambda>_. [])(7 := [0x10000])) {}"
  using buddy_init_one_block [of 4096 12 5 "0x10000" fresh_heap] by auto

text \<open>
  C4: \<open>balloc\<close> is safe and complete. In a well-formed heap, for a request of \<open>n\<close> bytes (not 0, at most
  the heap size) there is a least order \<open>k\<close> whose blocks hold \<open>n\<close> bytes and the header; if some free
  block has at least that order, \<open>balloc\<close> returns the data address of a block of order exactly \<open>k\<close>
  that overlaps no allocated block, and the heap stays well formed with that block allocated; if
  there is none, the call does not return (it passes NULL to \<open>remove_block\<close>).
\<close>

theorem balloc_fresh_block:
  assumes "heap_ok a fl A" and "n \<noteq> 0" and "n \<le> bsize a"
  shows "\<exists>k. min_order a \<le> k \<and> unat n + 24 \<le> 2 ^ k \<and> (k = min_order a \<or> 2 ^ (k - 1) < unat n + 24) \<and>
    (if \<exists>b \<in> free_blocks a fl. k \<le> snd b
     then \<exists>x a' fl'. balloc n a = Some (x + sizeof_buddy_block, a') \<and> heap_ok a' fl' (insert (x, k) A) \<and>
       (\<forall>b \<in> A. blk_range b \<inter> blk_range (x, k) = {}) \<and> (x, k) \<notin> A
     else balloc n a = None)"
proof -
  obtain i where i: "min_order a + i \<le> 30" "unat n + 24 \<le> 2 ^ (min_order a + i)"
      "i = 0 \<or> 2 ^ (min_order a + i - 1) < unat n + 24"
      "round_size (n + sizeof_buddy_block) (min_order a) = Some (push_bit (min_order a + i) 1)"
    using balloc_order [OF assms] by blast
  let ?k = "min_order a + i"
  note b = balloc_block [OF assms i(1,4)]
  show ?thesis
  proof (intro exI [of _ ?k] conjI)
    show "if \<exists>b \<in> free_blocks a fl. ?k \<le> snd b
     then \<exists>x a' fl'. balloc n a = Some (x + sizeof_buddy_block, a') \<and> heap_ok a' fl' (insert (x, ?k) A) \<and>
       (\<forall>b \<in> A. blk_range b \<inter> blk_range (x, ?k) = {}) \<and> (x, ?k) \<notin> A
     else balloc n a = None"
    proof (cases "\<exists>b \<in> free_blocks a fl. ?k \<le> snd b")
      case True
      then obtain x a' fl' where x: "balloc n a = Some (x + sizeof_buddy_block, a')"
          "heap_ok a' fl' (insert (x, ?k) A)" "(x, ?k) \<notin> A" using b by auto
      have "blk_range b \<inter> blk_range (x, ?k) = {}" if "b \<in> A" for b
      proof (rule tiling_disjoint)
        show "tiling a' (free_blocks a' fl' \<union> insert (x, ?k) A)" using x(2) by (simp add: heap_ok_def)
      qed (use that x(3) in auto)
      with x True show ?thesis by auto
    qed (use b in simp)
  qed (use i in auto)
qed

text \<open>A heap of 64 bytes at address 64: untouched, and with both halves allocated.\<close>

definition heap_one_free :: buddy_allocator where
  "heap_one_free = \<lparr>min_order = 5, max_order = 6, bsize = 64, memory_start = 64,
    order_lists = (replicate 32 0)[1 := 64], bheap = (\<lambda>_. \<lparr>order = 6, taken = 0, bnext = 0, bprev = 0\<rparr>)\<rparr>"

lemma heap_one_free: "heap_ok heap_one_free ((\<lambda>_. [])(1 := [64])) {}"
proof -
  have "free_blocks heap_one_free ((\<lambda>_. [])(1 := [64])) = {(64, 6)}"
    by (auto simp: free_blocks_def heap_one_free_def BUDDY_NUM_LISTS_def split: if_splits)
  then show ?thesis
    by (simp add: heap_ok_def params_ok_def lists_ok_def taken_ok_def tiling_def blk_range_def dll_Cons
        heap_one_free_def field_defs BUDDY_NUM_LISTS_def nth_list_update)
qed

lemma heap_one_free_params: "min_order heap_one_free = 5" "bsize heap_one_free = 64"
  by (simp_all add: heap_one_free_def)

definition heap_two_taken :: buddy_allocator where
  "heap_two_taken = \<lparr>min_order = 5, max_order = 6, bsize = 64, memory_start = 64,
    order_lists = replicate 32 0, bheap = (\<lambda>_. \<lparr>order = 5, taken = 1, bnext = 0, bprev = 0\<rparr>)\<rparr>"

lemma heap_two_taken: "heap_ok heap_two_taken (\<lambda>_. []) {(64, 5), (96, 5)}"
proof -
  have "free_blocks heap_two_taken (\<lambda>_. []) = {}" by (simp add: free_blocks_def)
  then show ?thesis
    by (auto simp: heap_ok_def params_ok_def lists_ok_def taken_ok_def tiling_def blk_range_def
        heap_two_taken_def field_defs BUDDY_NUM_LISTS_def)
qed

theorem balloc_fresh_block_witness:
  "\<exists>k x a' fl'. 32 \<le> (2 :: nat) ^ k \<and> (k = 5 \<or> 2 ^ (k - 1) < (32 :: nat)) \<and>
    balloc 8 heap_one_free = Some (x + sizeof_buddy_block, a') \<and> heap_ok a' fl' {(x, k)}"
proof -
  have "(64, 6) \<in> free_blocks heap_one_free ((\<lambda>_. [])(1 := [64]))"
    by (simp add: free_blocks_iff heap_one_free_def BUDDY_NUM_LISTS_def)
  obtain k where k: "32 \<le> (2 :: nat) ^ k" "k = 5 \<or> 2 ^ (k - 1) < (32 :: nat)"
      "\<exists>b \<in> free_blocks heap_one_free ((\<lambda>_. [])(1 := [64])). k \<le> snd b \<Longrightarrow>
       \<exists>x a' fl'. balloc 8 heap_one_free = Some (x + sizeof_buddy_block, a') \<and> heap_ok a' fl' {(x, k)}"
    using balloc_fresh_block [OF heap_one_free, of 8] unfolding heap_one_free_params
    apply simp
    apply (erule exE)
    apply (elim conjE)
    subgoal for k by (cases "\<exists>b \<in> free_blocks heap_one_free ((\<lambda>_. [])(1 := [64])). k \<le> snd b") auto
    done
  have "k \<le> 6"
  proof (rule ccontr)
    assume "\<not> k \<le> 6"
    then have "(2 :: nat) ^ 6 \<le> 2 ^ (k - 1)" by (intro power_increasing) auto
    with k(2) \<open>\<not> k \<le> 6\<close> show False by auto
  qed
  then have "\<exists>b \<in> free_blocks heap_one_free ((\<lambda>_. [])(1 := [64])). k \<le> snd b"
    using \<open>(64, 6) \<in> _\<close> by force
  with k show ?thesis by blast
qed

text \<open>
  C17: freeing a block whose buddy is taken, or has been split, returns it: the block goes to the head
  of the free list of its order, nothing else changes hands and the heap stays well formed.
\<close>

theorem bfree_returns_block:
  assumes "heap_ok a fl A" and "(x, k) \<in> A" and "k < max_order a"
    and "ordr a (x XOR order_mask k) \<noteq> k \<or> tkn a (x XOR order_mask k) \<noteq> 0"
  shows "\<exists>a' fl'. bfree (x + sizeof_buddy_block) a = Some a' \<and> heap_ok a' fl' (A - {(x, k)}) \<and>
    (x, k) \<in> free_blocks a' fl'"
proof -
  obtain a' fl' where a': "bfree (x + sizeof_buddy_block) a = Some a'" "same_params a a'"
      "heap_ok a' fl' (A - {(x, k)})" "x \<in> set (fl' (k - min_order a))"
    using bfree_insert [OF assms] by blast
  have "min_order a \<le> k" "k - min_order a < BUDDY_NUM_LISTS"
    using assms(1,2) tiling_bounds [of a "free_blocks a fl \<union> A" x k] by (auto simp: heap_ok_def)
  with a' show ?thesis by (auto simp: free_blocks_iff same_params_def)
qed

theorem bfree_returns_block_witness:
  "\<exists>a' fl'. bfree 88 heap_two_taken = Some a' \<and> heap_ok a' fl' {(96, 5)}"
proof -
  have "ordr heap_two_taken (64 XOR order_mask 5) \<noteq> 5 \<or> tkn heap_two_taken (64 XOR order_mask 5) \<noteq> 0"
    "5 < max_order heap_two_taken" by (simp_all add: heap_two_taken_def field_defs)
  moreover have "{(64, 5), (96, 5)} - {(64 :: u64, 5 :: nat)} = {(96, 5)}" by auto
  ultimately show ?thesis
    using bfree_returns_block [OF heap_two_taken, of 64 5] by (auto simp: sizeof_buddy_block_def)
qed

text \<open>
  A block of the largest order is never given back. \<open>bfree\<close> of it leaves the heap as it was, and
  since that block is the whole heap every later request finds no free block.
\<close>

theorem bfree_largest_block_leaks:
  assumes "heap_ok a fl {(x, max_order a)}" and "n \<noteq> 0" and "n \<le> bsize a"
    and "free_blocks a fl = {}"
  shows "bfree (x + sizeof_buddy_block) a = Some a \<and> balloc n a = None"
proof -
  have o: "order (bheap a x) = max_order a"
    using assms(1) by (auto simp: heap_ok_def taken_ok_def ordr_def)
  have "x \<noteq> 0" using assms(1) tiling_bounds(1) [of a "free_blocks a fl \<union> {(x, max_order a)}" x]
    by (auto simp: heap_ok_def)
  with o have "bfree (x + sizeof_buddy_block) a = Some a"
    by (simp add: bfree_def HEADER_def get_buddy_def)
  moreover obtain i where i: "min_order a + i \<le> 30"
      "round_size (n + sizeof_buddy_block) (min_order a) = Some (push_bit (min_order a + i) 1)"
    using balloc_order [OF assms(1-3)] by blast
  ultimately show ?thesis using balloc_block [OF assms(1-3) i] assms(4) by simp
qed

definition heap_all_taken :: buddy_allocator where
  "heap_all_taken = \<lparr>min_order = 5, max_order = 6, bsize = 64, memory_start = 64,
    order_lists = replicate 32 0, bheap = (\<lambda>_. \<lparr>order = 6, taken = 1, bnext = 0, bprev = 0\<rparr>)\<rparr>"

theorem bfree_largest_block_leaks_witness:
  "bfree 88 heap_all_taken = Some heap_all_taken \<and> balloc 8 heap_all_taken = None"
proof -
  have f: "free_blocks heap_all_taken (\<lambda>_. []) = {}" by (simp add: free_blocks_def)
  moreover have "heap_ok heap_all_taken (\<lambda>_. []) {(64, max_order heap_all_taken)}"
    using f by (simp add: heap_ok_def params_ok_def lists_ok_def taken_ok_def tiling_def blk_range_def
        heap_all_taken_def field_defs BUDDY_NUM_LISTS_def)
  ultimately show ?thesis
    using bfree_largest_block_leaks [of heap_all_taken "\<lambda>_. []" 64 8]
    by (simp add: heap_all_taken_def sizeof_buddy_block_def)
qed

text \<open>
  States of the kernel's heap as data, so that a run of the allocator is evaluated by the
  simplifier: the first eight lists and an association list of the headers written so far.
\<close>

primrec hlookup :: "(u64 \<times> buddy_block) list \<Rightarrow> u64 \<Rightarrow> buddy_block" where
  "hlookup [] p = \<lparr>order = 0, taken = 0, bnext = 0, bprev = 0\<rparr>"
| "hlookup (e # hs) p = (if p = fst e then snd e else hlookup hs p)"

primrec hput :: "u64 \<Rightarrow> buddy_block \<Rightarrow> (u64 \<times> buddy_block) list \<Rightarrow> (u64 \<times> buddy_block) list" where
  "hput p b [] = [(p, b)]"
| "hput p b (e # hs) = (if p = fst e then (p, b) # hs else e # hput p b hs)"

lemma hlookup_hput: "hlookup (hput p b hs) = (hlookup hs)(p := b)"
  by (induction hs) (auto simp: fun_eq_iff)

definition kst :: "u64 list \<Rightarrow> (u64 \<times> buddy_block) list \<Rightarrow> buddy_allocator" where
  "kst ls hs = \<lparr>min_order = 5, max_order = 12, bsize = 4096, memory_start = 0x10000,
    order_lists = ls @ replicate 24 0, bheap = hlookup hs\<rparr>"

lemma kst_upd: "upd_block p f (kst ls hs) = kst ls (hput p (f (hlookup hs p)) hs)"
  by (simp add: upd_block_def kst_def hlookup_hput)

lemma kst_fields: "min_order (kst ls hs) = 5" "max_order (kst ls hs) = 12" "bsize (kst ls hs) = 4096"
  "bheap (kst ls hs) = hlookup hs"
  by (simp_all add: kst_def)

lemma kst_nth: "i < length ls \<Longrightarrow> order_lists (kst ls hs) ! i = ls ! i"
  by (simp add: kst_def nth_append)

lemma kst_lists: "i < length ls \<Longrightarrow> kst ls hs\<lparr>order_lists := (order_lists (kst ls hs))[i := x]\<rparr> = kst (ls[i := x]) hs"
  by (simp add: kst_def list_update_append)

lemma update_numeral: "(x # xs)[numeral k := y] = x # xs[pred_numeral k := y]"
  by (simp add: numeral_eq_Suc)

lemma numeral_unfold:
  "split_n (numeral m) bl a = do { (_, a1) \<leftarrow> split bl a; split_n (pred_numeral m) bl a1 }"
  "find_larger (numeral m) n ord a = do {
     i \<leftarrow> list_index n a;
     let ret_block = order_lists a ! i;
     (if ret_block \<noteq> 0 then do { a1 \<leftarrow> split_n (n - ord) ret_block a; Some (ret_block, a1) }
      else find_larger (pred_numeral m) (Suc n) ord a) }"
  "merge_loop (numeral m) bl a =
    (if bl = 0 then None
     else if order (bheap a bl) = max_order a then Some a
     else do {
       b \<leftarrow> get_buddy bl a;
       (if b = 0 then None
        else if taken (bheap a b) \<noteq> 0 then Some a
        else do {
          (bl1, a1) \<leftarrow> merge bl a;
          (if bl1 = 0 then Some a1 else merge_loop (pred_numeral m) bl1 a1) }) })"
  by (simp_all add: numeral_eq_Suc)

lemma round_size_8: "round_size 32 5 = Some 32" 
proof -
  obtain k where k: "k \<le> 30" "round_size 32 5 = Some (push_bit k 1)" "32 \<le> (2 :: nat) ^ k" "k = 5 \<or> 2 ^ (k - 1) < (32 :: nat)" "5 \<le> k"
    using round_size_ok [of 32 5] by auto
  have "k = 5"
  proof (rule ccontr)
    assume "k \<noteq> 5"
    then have "(2 :: nat) ^ 5 \<le> 2 ^ (k - 1)" using k(5) by (intro power_increasing) auto
    with k(4) \<open>k \<noteq> 5\<close> show False by auto
  qed
  with k(2) show ?thesis by simp
qed

lemma builtin_ctz_8: "builtin_ctz 32 = Some 5"
  using builtin_ctz_power [of 5] by simp

lemmas kst_eval = kst_upd kst_fields kst_nth kst_lists update_numeral numeral_unfold round_size_8 builtin_ctz_8
  balloc_def bfree_def merge_def split_def get_buddy_def insert_block_def remove_block_def Let_def list_index_def
  order_mask_eq sizeof_buddy_block_def HEADER_def BUDDY_NUM_LISTS_def kalloc_def kfree_def

lemma kst_init: 
  "buddy_init 4096 0x10000 5 fresh_heap = Some (0, kst [0, 0, 0, 0, 0, 0, 0, 0x10000]
    [(0x10000, \<lparr>order = 12, taken = 0, bnext = 0, bprev = 0\<rparr>)])"
proof -
  have c: "builtin_ctz 4096 = Some 12" using builtin_ctz_power [of 12] by simp
  have f: "fresh_heap\<lparr>order_lists := replicate 32 0, min_order := 5, max_order := 12, bsize := 4096, 
      memory_start := 0x10000\<rparr> = kst [0, 0, 0, 0, 0, 0, 0, 0] []"
    by (simp add: fresh_heap_def kst_def fun_eq_iff numeral_eq_Suc)
  show ?thesis by (simp add: buddy_init_def c f kst_eval cong: let_weak_cong bind_weak_cong del: replicate.simps)
qed

text \<open>
  Merging corrupts the free lists. When \<open>bfree\<close> merges, \<open>merge\<close> calls \<open>remove_block\<close> on the block being
  freed, which is in no list and still has the links of the list it was taken from. In the kernel's
  heap (4096 bytes, smallest block 32) a dozen calls of \<open>kalloc(8)\<close> and \<open>kfree\<close>, each freeing a
  pointer once, hand the pointer number 5 out again as number 6 while it is still in use.
\<close>

theorem kfree_merge_double_allocation:
  "\<exists>a ps b. buddy_init 4096 0x10000 5 fresh_heap = Some (0, a) \<and>
    heap_run [Alloc 8, Alloc 8, Alloc 8, Alloc 8, Free 0, Free 2, Alloc 8, Alloc 8,
      Free 3, Free 1, Free 4, Alloc 8] ([], a) = Some (ps, b) \<and>
    length ps = 7 \<and> ps ! 6 = ps ! 5"
proof -
  have "case heap_run [Alloc 8, Alloc 8, Alloc 8, Alloc 8, Free 0, Free 2, Alloc 8, Alloc 8,
      Free 3, Free 1, Free 4, Alloc 8] ([], kst [0, 0, 0, 0, 0, 0, 0, 0x10000]
        [(0x10000, \<lparr>order = 12, taken = 0, bnext = 0, bprev = 0\<rparr>)]) of
      None \<Rightarrow> False | Some (ps, b) \<Rightarrow> length ps = 7 \<and> ps ! 6 = ps ! 5"
    by (simp add: kst_eval cong: let_weak_cong bind_weak_cong del: replicate.simps)
  then show ?thesis by (auto simp: kst_init split: option.splits)
qed

end
