(* ===== verification/Vfs.thy ===== *)
theory Vfs
  imports Process Buddy
begin

text \<open>
  The virtual file system: \<^verbatim>\<open>fors/filesystem.h\<close>, \<^verbatim>\<open>fors/types.h\<close>, \<^verbatim>\<open>generic/fs/vfs.c\<close> and \<^verbatim>\<open>generic/fs/fsops.c\<close>.
  Nodes, links, open files and mounts are the kernel's fixed arrays and a pointer to one of their
  elements is an index (\<open>None\<close> is NULL); the names of links are in the byte memory. The function
  pointers of a \<open>filesystem_type_t\<close> are the fields of the record \<open>fs_ops\<close>: each takes the kernel state
  and returns its result with the new state. Dereferencing NULL and an index out of range are \<open>None\<close>.
\<close>

section \<open>Model\<close>

definition FILENAME_SIZE :: u64 where "FILENAME_SIZE = 32"
definition NUM_FSNODES :: nat where "NUM_FSNODES = 256"
definition NUM_MOUNTS :: nat where "NUM_MOUNTS = 32"
definition NUM_OPEN_FILES :: nat where "NUM_OPEN_FILES = 512"
definition NUM_FSLINKS :: nat where "NUM_FSLINKS = 256"

datatype fsn_type = EMPTY | FILE | DIRECTORY | MOUNTPOINT

definition ANCH_REL :: int where "ANCH_REL = 0"
definition ANCH_START :: int where "ANCH_START = 1"
definition ANCH_END :: int where "ANCH_END = 2"

definition FP_RUSR :: u32 where "FP_RUSR = 1"
definition FP_WUSR :: u32 where "FP_WUSR = 2"
definition FP_XUSR :: u32 where "FP_XUSR = 4"
definition FP_RGRP :: u32 where "FP_RGRP = 8"
definition FP_XGRP :: u32 where "FP_XGRP = 32"
definition FP_ROTH :: u32 where "FP_ROTH = 64"
definition FP_WOTH :: u32 where "FP_WOTH = 128"
definition FP_XOTH :: u32 where "FP_XOTH = 256"

definition OF_WRITE :: u32 where "OF_WRITE = 1"
definition OF_READ :: u32 where "OF_READ = 2"
definition OF_APPEND :: u32 where "OF_APPEND = 4"

record fsnode =
  mountpoint :: "nat option"
  internal_id :: int
  ntype :: fsn_type
  perms :: u32
  user :: int
  group :: int
  access_time :: int
  mod_time :: int
  create_time :: int
  ref_count :: u32
  child :: "nat option"

record mount =
  dev :: int
  mfs :: "nat option"
  root_fsnode :: int

record fslink =
  lnode :: "nat option"
  lprev :: "nat option"
  lnext :: "nat option"

record openfile =
  onode :: "nat option"
  cursor :: int
  omode :: u32
  oproc :: int

record kernel = kproc +
  fsnodes :: "fsnode list"
  fslinks :: "fslink list"
  open_files :: "openfile list"
  mounts :: "mount list"
  vfs_root :: "nat option"
  kheap :: buddy_allocator

text \<open>
  \<open>filesystem_type_t\<close>: a node or an open file is passed as its index, a result of the C function comes
  with the new state.
\<close>

record 's fs_ops =
  retrieve_child :: "nat \<Rightarrow> u64 \<Rightarrow> u64 \<Rightarrow> 's \<Rightarrow> (int \<times> 's) option"
  node_from_id :: "int \<Rightarrow> nat \<Rightarrow> 's \<Rightarrow> (int \<times> 's) option"
  op_put_node :: "nat \<Rightarrow> 's \<Rightarrow> (int \<times> 's) option"
  f_open :: "nat \<Rightarrow> 's \<Rightarrow> (int \<times> 's) option"
  f_close :: "nat \<Rightarrow> 's \<Rightarrow> (int \<times> 's) option"
  f_seek :: "nat \<Rightarrow> int \<Rightarrow> int \<Rightarrow> 's \<Rightarrow> (int \<times> 's) option"
  f_read :: "nat \<Rightarrow> u64 \<Rightarrow> u64 \<Rightarrow> 's \<Rightarrow> (int \<times> 's) option"
  f_write :: "nat \<Rightarrow> u64 \<Rightarrow> u64 \<Rightarrow> 's \<Rightarrow> (int \<times> 's) option"
  newfile :: "nat \<Rightarrow> u64 \<Rightarrow> u32 \<Rightarrow> int \<Rightarrow> int \<Rightarrow> 's \<Rightarrow> (int \<times> 's) option"
  newdir :: "nat \<Rightarrow> u64 \<Rightarrow> u32 \<Rightarrow> int \<Rightarrow> int \<Rightarrow> 's \<Rightarrow> (int \<times> 's) option"
  delnode :: "nat \<Rightarrow> u64 \<Rightarrow> 's \<Rightarrow> (int \<times> 's) option"

text \<open>The registered file system types by number, and the address of the array \<open>fslinks\<close>.\<close>

record 's vfs_env =
  fs_types :: "nat \<Rightarrow> 's fs_ops"
  links_base :: u64

definition link_name :: "'s vfs_env \<Rightarrow> nat \<Rightarrow> u64" where
  "link_name E i = links_base E + 64 * of_nat i"

definition upd_node :: "nat \<Rightarrow> (fsnode \<Rightarrow> fsnode) \<Rightarrow> 'x kernel_scheme \<Rightarrow> 'x kernel_scheme" where
  "upd_node i f s = s\<lparr>fsnodes := (fsnodes s)[i := f (fsnodes s ! i)]\<rparr>"

definition upd_link :: "nat \<Rightarrow> (fslink \<Rightarrow> fslink) \<Rightarrow> 'x kernel_scheme \<Rightarrow> 'x kernel_scheme" where
  "upd_link i f s = s\<lparr>fslinks := (fslinks s)[i := f (fslinks s ! i)]\<rparr>"

definition upd_file :: "nat \<Rightarrow> (openfile \<Rightarrow> openfile) \<Rightarrow> 'x kernel_scheme \<Rightarrow> 'x kernel_scheme" where
  "upd_file i f s = s\<lparr>open_files := (open_files s)[i := f (open_files s ! i)]\<rparr>"

text \<open>\<^verbatim>\<open>node->mountpoint->fs\<close>\<close>

definition node_fs :: "nat option \<Rightarrow> 'x kernel_scheme \<Rightarrow> nat option" where
  "node_fs n s = do { nd \<leftarrow> deref (fsnodes s) n; mt \<leftarrow> deref (mounts s) (mountpoint nd); mfs mt }"

subsection \<open>\<^verbatim>\<open>vfs.c\<close>\<close>

definition vfs_init :: int where "vfs_init = 0"

definition can_read :: "nat option \<Rightarrow> int \<Rightarrow> 'x kernel_scheme \<Rightarrow> bool option" where
  "can_read d p s = (if p = -1 then Some True else do { n \<leftarrow> deref (fsnodes s) d;
    Some (perms n AND FP_ROTH \<noteq> 0 \<or> perms n AND FP_RUSR \<noteq> 0 \<and> user n = p) })"

definition can_write :: "nat option \<Rightarrow> int \<Rightarrow> 'x kernel_scheme \<Rightarrow> bool option" where
  "can_write d p s = (if p = -1 then Some True else do { n \<leftarrow> deref (fsnodes s) d;
    Some (perms n AND FP_WOTH \<noteq> 0 \<or> perms n AND FP_WUSR \<noteq> 0 \<and> user n = p) })"

definition can_exec :: "nat option \<Rightarrow> int \<Rightarrow> 'x kernel_scheme \<Rightarrow> bool option" where
  "can_exec d p s = (if p = -1 then Some True else do { n \<leftarrow> deref (fsnodes s) d;
    Some (perms n AND FP_XOTH \<noteq> 0 \<or> perms n AND FP_XUSR \<noteq> 0 \<and> user n = p) })"

definition find_free_link_in :: "fslink list \<Rightarrow> int" where
  "find_free_link_in ls = scan_from (\<lambda>l. lnode l = None) 0 ls"

definition find_free_link :: "'x kernel_scheme \<Rightarrow> int" where
  "find_free_link s = find_free_link_in (fslinks s)"

definition find_free_node_in :: "fsnode list \<Rightarrow> int" where
  "find_free_node_in ns = scan_from (\<lambda>n. ntype n = EMPTY) 0 ns"

definition find_free_node :: "'x kernel_scheme \<Rightarrow> int" where
  "find_free_node s = find_free_node_in (fsnodes s)"

definition find_free_fd_in :: "openfile list \<Rightarrow> nat \<Rightarrow> int" where
  "find_free_fd_in arr len = scan_from (\<lambda>f. onode f = None) 0 (take len arr)"

definition find_free_fd :: "'x kernel_scheme \<Rightarrow> int" where
  "find_free_fd s = find_free_fd_in (open_files s) NUM_OPEN_FILES"

definition add_child :: "'s vfs_env \<Rightarrow> nat option \<Rightarrow> nat option \<Rightarrow> u64 \<Rightarrow> 'x kernel_scheme \<Rightarrow> (int \<times> 'x kernel_scheme) option" where
  "add_child E parent new nm s =
    (let l_i = find_free_link s
     in if l_i = -1 then Some (-1, s)
        else do {
          len \<leftarrow> strlen nm (kmem s);
          (if FILENAME_SIZE \<le> len then Some (-1, s)
           else do {
             let link = nat l_i;
             let s1 = upd_link link (\<lambda>l. l\<lparr>lnode := new, lnext := None, lprev := None\<rparr>) s;
             let s2 = s1\<lparr>kmem := snd (strncpy (link_name E link) nm FILENAME_SIZE (kmem s1))\<rparr>;
             par \<leftarrow> parent;
             pn \<leftarrow> nth_opt (fsnodes s2) par;
             (case child pn of
                None \<Rightarrow> Some (0, upd_node par (\<lambda>n. n\<lparr>child := Some link\<rparr>) s2)
              | Some c \<Rightarrow> do {
                  _ \<leftarrow> nth_opt (fslinks s2) c;
                  let s3 = upd_link c (\<lambda>l. l\<lparr>lprev := Some link\<rparr>) s2;
                  let s4 = upd_link link (\<lambda>l. l\<lparr>lnext := Some c\<rparr>) s3;
                  Some (0, upd_node par (\<lambda>n. n\<lparr>child := Some link\<rparr>) s4) }) }) })"

definition del_child :: "nat option \<Rightarrow> nat option \<Rightarrow> 'x kernel_scheme \<Rightarrow> (int \<times> 'x kernel_scheme) option" where
  "del_child parent to_del s = do {
    d \<leftarrow> to_del;
    l \<leftarrow> nth_opt (fslinks s) d;
    n \<leftarrow> lnode l;
    _ \<leftarrow> nth_opt (fsnodes s) n;
    let s1 = upd_node n (\<lambda>n. n\<lparr>ref_count := ref_count n - 1\<rparr>) s;
    let s2 = upd_link d (\<lambda>l. l\<lparr>lnode := None\<rparr>) s1;
    s3 \<leftarrow> (case lprev (fslinks s2 ! d) of None \<Rightarrow> Some s2
           | Some q \<Rightarrow> do { _ \<leftarrow> nth_opt (fslinks s2) q;
                            Some (upd_link q (\<lambda>l. l\<lparr>lnext := lnext (fslinks s2 ! d)\<rparr>) s2) });
    s4 \<leftarrow> (case lnext (fslinks s3 ! d) of None \<Rightarrow> Some s3
           | Some q \<Rightarrow> do { _ \<leftarrow> nth_opt (fslinks s3) q;
                            Some (upd_link q (\<lambda>l. l\<lparr>lprev := lprev (fslinks s3 ! d)\<rparr>) s3) });
    par \<leftarrow> parent;
    _ \<leftarrow> nth_opt (fsnodes s4) par;
    let c = (if lprev (fslinks s4 ! d) \<noteq> None then lprev (fslinks s4 ! d)
             else if lnext (fslinks s4 ! d) \<noteq> None then lnext (fslinks s4 ! d) else None);
    let s5 = upd_node par (\<lambda>n. n\<lparr>child := c\<rparr>) s4;
    Some (0, upd_node par (\<lambda>n. n\<lparr>child := None\<rparr>) s5) }"

partial_function (option) link_search ::
    "'s vfs_env \<Rightarrow> u64 \<Rightarrow> u64 \<Rightarrow> nat option \<Rightarrow> 'x kernel_scheme \<Rightarrow> nat option option" where
  "link_search E nm len link s =
    (case link of
       None \<Rightarrow> Some None
     | Some i \<Rightarrow> Option.bind (nth_opt (fslinks s) i) (\<lambda>l.
         if strncmp (link_name E i) nm len (kmem s) = 0 then Some (Some i)
         else link_search E nm len (lnext l) s))"

definition get_node_with_len ::
    "'x kernel_scheme vfs_env \<Rightarrow> nat option \<Rightarrow> u64 \<Rightarrow> u64 \<Rightarrow> 'x kernel_scheme \<Rightarrow> (nat option \<times> 'x kernel_scheme) option" where
  "get_node_with_len E parent nm len s = do {
    par \<leftarrow> parent;
    pn \<leftarrow> nth_opt (fsnodes s) par;
    found \<leftarrow> link_search E nm len (child pn) s;
    (case found of
       Some i \<Rightarrow> Some (lnode (fslinks s ! i), s)
     | None \<Rightarrow>
        (let new_node_index = find_free_node s
         in if new_node_index < 0 then Some (None, s)
            else do {
              let k = nat new_node_index;
              let s1 = upd_node k (\<lambda>n. n\<lparr>mountpoint := mountpoint pn\<rparr>) s;
              f \<leftarrow> node_fs parent s1;
              (cid, s2) \<leftarrow> retrieve_child (fs_types E f) par nm len s1;
              f2 \<leftarrow> node_fs parent s2;
              (r, s3) \<leftarrow> node_from_id (fs_types E f2) cid k s2;
              Some (if r < 0 then None else Some k, s3) })) }"

definition get_node ::
    "'x kernel_scheme vfs_env \<Rightarrow> nat option \<Rightarrow> u64 \<Rightarrow> 'x kernel_scheme \<Rightarrow> (nat option \<times> 'x kernel_scheme) option" where
  "get_node E parent nm s =
    (if nm = 0 then None
     else get_node_with_len E parent nm (strnlen nm FILENAME_SIZE (kmem s)) s)"

definition put_node :: "'x kernel_scheme vfs_env \<Rightarrow> nat option \<Rightarrow> 'x kernel_scheme \<Rightarrow> 'x kernel_scheme option" where
  "put_node E node s = do {
    n \<leftarrow> node;
    f \<leftarrow> node_fs node s;
    (_, s1) \<leftarrow> op_put_node (fs_types E f) n s;
    Some (upd_node n (\<lambda>n. n\<lparr>ntype := EMPTY\<rparr>) s1) }"

definition get_node_byid ::
    "'x kernel_scheme vfs_env \<Rightarrow> nat \<Rightarrow> int \<Rightarrow> 'x kernel_scheme \<Rightarrow> (nat option \<times> 'x kernel_scheme) option" where
  "get_node_byid E mnt cid s =
    (let i = scan_from (\<lambda>n. ntype n \<noteq> EMPTY \<and> internal_id n = cid \<and> mountpoint n = Some mnt) 0 (fsnodes s)
     in if 0 \<le> i then Some (Some (nat i), s)
        else
          (let new_node_index = find_free_node s
           in if new_node_index < 0 then Some (None, s)
              else do {
                let k = nat new_node_index;
                let s1 = upd_node k (\<lambda>n. n\<lparr>mountpoint := Some mnt\<rparr>) s;
                mt \<leftarrow> nth_opt (mounts s1) mnt;
                f \<leftarrow> mfs mt;
                (r, s2) \<leftarrow> node_from_id (fs_types E f) cid k s1;
                Some (if r < 0 then None else Some k, s2) }))"

text \<open>\<open>first_of_trailing\<close> does not look at its argument \<open>c\<close>: 47 is \<^verbatim>\<open>'/'\<close>.\<close>

partial_function (option) trailing_loop :: "mem \<Rightarrow> u64 \<Rightarrow> u64 \<Rightarrow> u64 option" where
  "trailing_loop m s endp = (if s \<le> endp \<and> m endp = 47 then trailing_loop m s (endp - 1) else Some endp)"

definition first_of_trailing :: "u64 \<Rightarrow> mem \<Rightarrow> u64 option" where
  "first_of_trailing s m = do {
    l \<leftarrow> strlen s m;
    endp \<leftarrow> trailing_loop m s (s + l - 1);
    Some (endp + 1) }"

partial_function (option) find_parent_loop ::
    "'x kernel_scheme vfs_env \<Rightarrow> u64 \<Rightarrow> u64 \<Rightarrow> int \<Rightarrow> nat option \<Rightarrow> u64 \<Rightarrow> 'x kernel_scheme \<Rightarrow>
      (nat option \<times> 'x kernel_scheme) option" where
  "find_parent_loop E endp last_delim p parent path s =
    (let next_delim = strnchr path 47 (endp - path) (kmem s); field = (0 < sint (next_delim - path))
     in if next_delim = 0 then Some (parent, s)
        else Option.bind (if field then get_node_with_len E parent path (next_delim - path) s
                          else Some (parent, s))
          (\<lambda>r. let s1 = snd r
            in if field \<and> fst r = None then Some (None, s1)
               else Option.bind (deref (fsnodes s1) (fst r)) (\<lambda>pn.
                 if ntype pn \<noteq> DIRECTORY then Some (None, s1)
                 else if next_delim = last_delim then Some (fst r, s1)
                 else Option.bind (can_exec (fst r) p s1) (\<lambda>x.
                   if \<not> x then Some (None, s1)
                   else find_parent_loop E endp last_delim p (fst r) (next_delim + 1) s1))))"

definition find_parent_checkperm ::
    "'x kernel_scheme vfs_env \<Rightarrow> nat option \<Rightarrow> u64 \<Rightarrow> int \<Rightarrow> 'x kernel_scheme \<Rightarrow>
      (nat option \<times> 'x kernel_scheme) option" where
  "find_parent_checkperm E root path p s =
    (if kmem s path \<noteq> 47 then Some (None, s)
     else do {
       endp \<leftarrow> first_of_trailing (path + 1) (kmem s);
       let last_delim = memrchr (path + 1) 47 (endp - (path + 1)) (kmem s);
       x \<leftarrow> can_exec root p s;
       (if \<not> x then Some (None, s)
        else find_parent_loop E endp last_delim p root (path + 1) s) })"

definition find_parent ::
    "'x kernel_scheme vfs_env \<Rightarrow> nat option \<Rightarrow> u64 \<Rightarrow> 'x kernel_scheme \<Rightarrow> (nat option \<times> 'x kernel_scheme) option" where
  "find_parent E root path s = find_parent_checkperm E root path (-1) s"

definition basename :: "u64 \<Rightarrow> mem \<Rightarrow> u64 option" where
  "basename path m = do {
    endp \<leftarrow> first_of_trailing path m;
    let last_delim = memrchr path 47 (endp - path) m;
    Some (if last_delim \<noteq> 0 then last_delim + 1 else 0) }"

definition find_node ::
    "'x kernel_scheme vfs_env \<Rightarrow> nat option \<Rightarrow> u64 \<Rightarrow> 'x kernel_scheme \<Rightarrow> (nat option \<times> 'x kernel_scheme) option" where
  "find_node E root path s = do {
    (parent, s1) \<leftarrow> find_parent E root path s;
    (if parent = None then Some (None, s1)
     else do { b \<leftarrow> basename path (kmem s1); get_node E parent b s1 }) }"

subsection \<open>\<^verbatim>\<open>fsops.c\<close>\<close>

text \<open>\<open>vfs_open\<close> from the permission checks on the node it found.\<close>

definition vfs_open_node ::
    "'x kernel_scheme vfs_env \<Rightarrow> int \<Rightarrow> u32 \<Rightarrow> nat option \<Rightarrow> 'x kernel_scheme \<Rightarrow> (int \<times> 'x kernel_scheme) option" where
  "vfs_open_node E p mode node s = do {
    w \<leftarrow> (if mode AND OF_APPEND \<noteq> 0 \<or> mode AND OF_WRITE \<noteq> 0 then can_write node p s else Some True);
    (if \<not> w then Some (-1, s)
     else do {
       r \<leftarrow> (if mode AND OF_READ \<noteq> 0 then can_read node p s else Some True);
       (if \<not> r then Some (-1, s)
        else do {
          n \<leftarrow> node;
          f \<leftarrow> node_fs node s;
          (ret, s1) \<leftarrow> f_open (fs_types E f) n s;
          (if ret < 0 then Some (-1, s1)
           else
             (let new_fd = find_free_fd s1
              in if new_fd = -1 then Some (-1, s1)
                 else
                   (let mode' = (if mode AND OF_APPEND \<noteq> 0 then mode OR OF_WRITE else mode);
                        s2 = upd_file (nat new_fd) (\<lambda>_. \<lparr>onode = node, cursor = 0, omode = mode', oproc = p\<rparr>) s1
                    in Some (new_fd, upd_node n (\<lambda>n. n\<lparr>ref_count := ref_count n + 1\<rparr>) s2)))) }) }) }"

definition vfs_open ::
    "'x kernel_scheme vfs_env \<Rightarrow> int \<Rightarrow> u64 \<Rightarrow> u32 \<Rightarrow> 'x kernel_scheme \<Rightarrow> (int \<times> 'x kernel_scheme) option" where
  "vfs_open E p full_path mode s = do {
    (parent, s1) \<leftarrow> find_parent_checkperm E (vfs_root s) full_path p s;
    (if parent = None then Some (-1, s1)
     else do {
       x \<leftarrow> can_exec parent p s1;
       (if \<not> x then Some (-1, s1)
        else do {
          b \<leftarrow> basename full_path (kmem s1);
          (node, s2) \<leftarrow> get_node E parent b s1;
          vfs_open_node E p mode node s2 }) }) }"

definition vfs_close :: "'x kernel_scheme vfs_env \<Rightarrow> int \<Rightarrow> 'x kernel_scheme \<Rightarrow> (int \<times> 'x kernel_scheme) option" where
  "vfs_close E fd s = do {
    f \<leftarrow> nth_int (open_files s) fd;
    (case onode f of
       None \<Rightarrow> Some (-1, s)
     | Some n \<Rightarrow> do {
         ft \<leftarrow> node_fs (Some n) s;
         (ret, s1) \<leftarrow> f_close (fs_types E ft) (nat fd) s;
         (if ret < 0 then Some (-1, s1)
          else do {
            n' \<leftarrow> onode (open_files s1 ! nat fd);
            let s2 = upd_node n' (\<lambda>n. n\<lparr>ref_count := ref_count n - 1\<rparr>) s1;
            Some (0, upd_file (nat fd) (\<lambda>f. f\<lparr>onode := None\<rparr>) s2) }) }) }"

text \<open>A 64-bit \<^verbatim>\<open>long\<close>: the sum of a cursor and an offset wraps around (an overflow is undefined in C).\<close>

definition long_of :: "int \<Rightarrow> int" where
  "long_of i = sint (word_of_int i :: u64)"

definition vfs_seek :: "'x kernel_scheme vfs_env \<Rightarrow> int \<Rightarrow> int \<Rightarrow> int \<Rightarrow> 'x kernel_scheme \<Rightarrow> (int \<times> 'x kernel_scheme) option" where
  "vfs_seek E fd offset anchor s = do {
    f \<leftarrow> nth_int (open_files s) fd;
    (if onode f = None then Some (-1, s)
     else do {
       ft \<leftarrow> node_fs (onode f) s;
       (ret, s1) \<leftarrow> f_seek (fs_types E ft) (nat fd) offset anchor s;
       (if ret < 0 then Some (-1, s1)
        else if anchor = ANCH_REL
        then Some (0, upd_file (nat fd) (\<lambda>f. f\<lparr>cursor := long_of ((if cursor f < 0 then 0 else cursor f) + offset)\<rparr>) s1)
        else if anchor = ANCH_START
        then (if offset < 0 then Some (-1, s1)
              else Some (0, upd_file (nat fd) (\<lambda>f. f\<lparr>cursor := offset\<rparr>) s1))
        else if anchor = ANCH_END then Some (-1, s1)
        else Some (0, s1)) }) }"

definition vfs_read :: "'x kernel_scheme vfs_env \<Rightarrow> int \<Rightarrow> u64 \<Rightarrow> u64 \<Rightarrow> 'x kernel_scheme \<Rightarrow> (int \<times> 'x kernel_scheme) option" where
  "vfs_read E fd nbytes kbuffer s = do {
    f \<leftarrow> nth_int (open_files s) fd;
    (if onode f = None then Some (-1, s)
     else do {
       n \<leftarrow> deref (fsnodes s) (onode f);
       (if ntype n \<noteq> FILE then Some (-1, s)
        else if omode f AND OF_READ = 0 then Some (-1, s)
        else do { ft \<leftarrow> node_fs (onode f) s; f_read (fs_types E ft) (nat fd) nbytes kbuffer s }) }) }"

definition vfs_write :: "'x kernel_scheme vfs_env \<Rightarrow> int \<Rightarrow> u64 \<Rightarrow> u64 \<Rightarrow> 'x kernel_scheme \<Rightarrow> (int \<times> 'x kernel_scheme) option" where
  "vfs_write E fd nbytes kbuffer s = do {
    f \<leftarrow> nth_int (open_files s) fd;
    (if onode f = None then Some (-1, s)
     else do {
       n \<leftarrow> deref (fsnodes s) (onode f);
       (if ntype n \<noteq> FILE then Some (-1, s)
        else if omode f AND OF_WRITE = 0 then Some (-1, s)
        else do { ft \<leftarrow> node_fs (onode f) s; f_write (fs_types E ft) (nat fd) nbytes kbuffer s }) }) }"

definition vfs_readdir :: "int \<Rightarrow> u64 \<Rightarrow> u64 \<Rightarrow> int" where
  "vfs_readdir fd n kbuffer = -1"

definition vfs_mkfile :: "'x kernel_scheme vfs_env \<Rightarrow> int \<Rightarrow> u64 \<Rightarrow> u32 \<Rightarrow> 'x kernel_scheme \<Rightarrow> (int \<times> 'x kernel_scheme) option" where
  "vfs_mkfile E p full_path prm s = do {
    (parent, s1) \<leftarrow> find_parent_checkperm E (vfs_root s) full_path p s;
    (if parent = None then Some (-1, s1)
     else do {
       w \<leftarrow> can_write parent p s1;
       (if \<not> w then Some (-1, s1)
        else do {
          f \<leftarrow> node_fs parent s1;
          n \<leftarrow> parent;
          b \<leftarrow> basename full_path (kmem s1);
          pr \<leftarrow> nth_int (procs s1) p;
          newfile (fs_types E f) n b prm (uid pr) (gid pr) s1 }) }) }"

definition vfs_mkdir :: "'x kernel_scheme vfs_env \<Rightarrow> int \<Rightarrow> u64 \<Rightarrow> u32 \<Rightarrow> 'x kernel_scheme \<Rightarrow> (int \<times> 'x kernel_scheme) option" where
  "vfs_mkdir E p full_path prm s = do {
    (parent, s1) \<leftarrow> find_parent_checkperm E (vfs_root s) full_path p s;
    (if parent = None then Some (-1, s1)
     else do {
       w \<leftarrow> can_write parent p s1;
       (if \<not> w then Some (-1, s1)
        else do {
          f \<leftarrow> node_fs parent s1;
          n \<leftarrow> parent;
          b \<leftarrow> basename full_path (kmem s1);
          newdir (fs_types E f) n b prm 0 0 s1 }) }) }"

definition vfs_delnode :: "'x kernel_scheme vfs_env \<Rightarrow> u64 \<Rightarrow> 'x kernel_scheme \<Rightarrow> (int \<times> 'x kernel_scheme) option" where
  "vfs_delnode E full_path s = do {
    (parent, s1) \<leftarrow> find_parent E (vfs_root s) full_path s;
    (if parent = None then Some (-1, s1)
     else do {
       f \<leftarrow> node_fs parent s1;
       n \<leftarrow> parent;
       b \<leftarrow> basename full_path (kmem s1);
       delnode (fs_types E f) n b s1 }) }"

definition vfs_mkhardlink :: "int \<Rightarrow> u64 \<Rightarrow> u64 \<Rightarrow> int" where
  "vfs_mkhardlink p full_path link_to = -1"

section \<open>Walking a path\<close>

text \<open>
  \<open>dir_walk E p d s d' s'\<close>: starting in directory \<open>d\<close> process \<open>p\<close> reaches directory \<open>d'\<close>, looking up one
  name after the other; it may enter every directory it looks a name up in, and every node it comes
  to is a directory.
\<close>

inductive dir_walk ::
    "'x kernel_scheme vfs_env \<Rightarrow> int \<Rightarrow> nat \<Rightarrow> 'x kernel_scheme \<Rightarrow> nat \<Rightarrow> 'x kernel_scheme \<Rightarrow> bool"
  for E p where
  here: "dir_walk E p d s d s"
| enter: "can_exec (Some d) p s = Some True \<Longrightarrow> get_node_with_len E (Some d) nm len s = Some (Some d1, s1) \<Longrightarrow>
    ntype (fsnodes s1 ! d1) = DIRECTORY \<Longrightarrow> dir_walk E p d1 s1 d' s' \<Longrightarrow> dir_walk E p d s d' s'"

lemmas dir_walk_once = dir_walk.enter [OF _ _ _ dir_walk.here]

lemma find_parent_loop_walk:
  assumes ret: "find_parent_loop E endp ld p parent path s = Some r"
    and "fst r = Some d'" and "parent = Some d" and "can_exec parent p s = Some True"
  shows "dir_walk E p d s d' (snd r)"
proof -
  have "\<forall>d. fst r = Some d' \<longrightarrow> parent = Some d \<longrightarrow> can_exec parent p s = Some True \<longrightarrow>
      dir_walk E p d s d' (snd r)"
  proof (rule find_parent_loop.raw_induct [where P = "\<lambda>E endp ld p parent path s r.
      \<forall>d. fst r = Some d' \<longrightarrow> parent = Some d \<longrightarrow> can_exec parent p s = Some True \<longrightarrow>
        dir_walk E p d s d' (snd r)", OF _ ret], intro allI impI, goal_cases)
    case (1 f E endp ld p parent path s r d)
    from 1(2-) show ?case
      by (auto simp: Let_def bind_eq_Some_conv deref_Some split: if_splits intro: dir_walk.intros dir_walk_once dest!: 1(1))
  qed
  then show ?thesis using assms(2-) by blast
qed

lemma find_parent_checkperm_walk:
  assumes "find_parent_checkperm E root path p s = Some (Some d', s')" and "p \<noteq> -1"
  shows "\<exists>d. root = Some d \<and> can_exec root p s = Some True \<and> dir_walk E p d s d' s'"
proof -
  obtain endp ld where ex: "can_exec root p s = Some True"
      and l: "find_parent_loop E endp ld p root (path + 1) s = Some (Some d', s')"
    using assms(1) by (auto simp: find_parent_checkperm_def Let_def bind_eq_Some_conv split: if_splits)
  from ex assms(2) obtain d where d: "root = Some d" by (cases root) (auto simp: can_exec_def)
  with find_parent_loop_walk [OF l, of d' d] ex show ?thesis by simp
qed

lemma vfs_open_node_ok:
  assumes "vfs_open_node E p mode node s = Some (fd, s')" and "0 \<le> fd"
  shows "\<exists>n f ret s1. node = Some n \<and> node_fs node s = Some f \<and> f_open (fs_types E f) n s = Some (ret, s1) \<and> 0 \<le> ret \<and>
      (mode AND OF_APPEND = 0 \<and> mode AND OF_WRITE = 0 \<or> can_write node p s = Some True) \<and>
      (mode AND OF_READ = 0 \<or> can_read node p s = Some True) \<and> fd = find_free_fd s1 \<and>
      s' = upd_node n (\<lambda>n. n\<lparr>ref_count := ref_count n + 1\<rparr>) (upd_file (nat fd) (\<lambda>_. \<lparr>onode = node, cursor = 0,
        omode = (if mode AND OF_APPEND \<noteq> 0 then mode OR OF_WRITE else mode), oproc = p\<rparr>) s1)"
  using assms by (auto simp: vfs_open_node_def Let_def bind_eq_Some_conv split: if_splits)

interpretation lt: slot_table "\<lambda>l. lnode l = None" find_free_link_in
  by unfold_locales (simp add: find_free_link_in_def)

interpretation nt: slot_table "\<lambda>n. ntype n = EMPTY" find_free_node_in
  by unfold_locales (simp add: find_free_node_in_def)

interpretation ft: slot_table "\<lambda>f. onode f = None" "\<lambda>fs. find_free_fd_in fs (length fs)"
  by unfold_locales (simp add: find_free_fd_in_def)

section \<open>Open files and reference counts\<close>

definition open_count :: "nat \<Rightarrow> openfile list \<Rightarrow> nat" where
  "open_count n fs = length (filter (\<lambda>f. onode f = Some n) fs)"

definition node_ok :: "nat option \<Rightarrow> 'x kernel_scheme \<Rightarrow> bool" where
  "node_ok p s \<longleftrightarrow> (\<forall>n. p = Some n \<longrightarrow> n < length (fsnodes s) \<and> ntype (fsnodes s ! n) \<noteq> EMPTY)"

text \<open>
  The invariant of the node and file tables: links and open files refer to nodes in use, and the
  reference count of a node in use is the number of open files that refer to it.
\<close>

definition refs_ok :: "'x kernel_scheme \<Rightarrow> bool" where
  "refs_ok s \<longleftrightarrow> length (open_files s) = NUM_OPEN_FILES \<and>
    (\<forall>l \<in> set (fslinks s). node_ok (lnode l) s) \<and> (\<forall>f \<in> set (open_files s). node_ok (onode f) s) \<and>
    (\<forall>n < length (fsnodes s). ntype (fsnodes s ! n) \<noteq> EMPTY \<longrightarrow>
      unat (ref_count (fsnodes s ! n)) = open_count n (open_files s))"

definition same_tables :: "'x kernel_scheme \<Rightarrow> 'x kernel_scheme \<Rightarrow> bool" where
  "same_tables s s' \<longleftrightarrow> fsnodes s' = fsnodes s \<and> fslinks s' = fslinks s \<and> open_files s' = open_files s \<and>
    mounts s' = mounts s \<and> vfs_root s' = vfs_root s \<and> procs s' = procs s \<and> current_proc s' = current_proc s"

text \<open>\<open>s'\<close> differs from \<open>s\<close> only in nodes that were not in use in \<open>s\<close>.\<close>

definition nodes_extend :: "'x kernel_scheme \<Rightarrow> 'x kernel_scheme \<Rightarrow> bool" where
  "nodes_extend s s' \<longleftrightarrow> length (fsnodes s') = length (fsnodes s) \<and> fslinks s' = fslinks s \<and>
    open_files s' = open_files s \<and> mounts s' = mounts s \<and> vfs_root s' = vfs_root s \<and>
    procs s' = procs s \<and> current_proc s' = current_proc s \<and>
    (\<forall>n < length (fsnodes s). ntype (fsnodes s ! n) \<noteq> EMPTY \<longrightarrow> fsnodes s' ! n = fsnodes s ! n)"

definition nodes_kept :: "'x kernel_scheme \<Rightarrow> 'x kernel_scheme \<Rightarrow> bool" where
  "nodes_kept s s' \<longleftrightarrow> length (fsnodes s') = length (fsnodes s) \<and> vfs_root s' = vfs_root s \<and>
    (\<forall>n < length (fsnodes s). ntype (fsnodes s ! n) \<noteq> EMPTY \<longrightarrow> ntype (fsnodes s' ! n) = ntype (fsnodes s ! n))"

lemma nodes_kept_trans: "nodes_kept s s1 \<Longrightarrow> nodes_kept s1 s2 \<Longrightarrow> nodes_kept s s2"
  and nodes_kept_extend: "nodes_extend s s' \<Longrightarrow> nodes_kept s s'"
  and nodes_kept_same: "same_tables s s' \<Longrightarrow> nodes_kept s s'"
  and node_ok_kept: "nodes_kept s s' \<Longrightarrow> node_ok p s \<Longrightarrow> node_ok p s'"
  by (auto simp: nodes_kept_def nodes_extend_def same_tables_def node_ok_def)

lemma nodes_extend_refl: "nodes_extend s s"
  and nodes_extend_trans: "nodes_extend s s1 \<Longrightarrow> nodes_extend s1 s2 \<Longrightarrow> nodes_extend s s2"
  and same_tables_extend: "same_tables s s' \<Longrightarrow> nodes_extend s s'"
  by (auto simp: nodes_extend_def same_tables_def)

lemma node_ok_extend: "nodes_extend s s' \<Longrightarrow> node_ok p s \<Longrightarrow> node_ok p s'"
  by (auto simp: nodes_extend_def node_ok_def)

lemma refs_ok_same: "same_tables s s' \<Longrightarrow> refs_ok s \<Longrightarrow> refs_ok s'"
  by (auto simp: same_tables_def refs_ok_def node_ok_def)

lemma count_update:
  assumes "i < length fs"
  shows "open_count n (fs[i := f]) + (if onode (fs ! i) = Some n then 1 else 0) =
    open_count n fs + (if onode f = Some n then 1 else 0)"
proof -
  have 1: "fs = take i fs @ fs ! i # drop (Suc i) fs" using assms by (simp add: id_take_nth_drop)
  have 2: "fs[i := f] = take i fs @ f # drop (Suc i) fs" using assms by (simp add: upd_conv_take_nth_drop)
  have 3: "open_count n (xs @ y # ys) = open_count n xs + (if onode y = Some n then 1 else 0) + open_count n ys"
    for xs y ys by (simp add: open_count_def)
  have "open_count n fs = open_count n (take i fs) + (if onode (fs ! i) = Some n then 1 else 0) + open_count n (drop (Suc i) fs)"
    using 3 [of "take i fs" "fs ! i" "drop (Suc i) fs"] by (simp only: 1 [symmetric])
  then show ?thesis unfolding 2 3 by simp
qed

lemma open_count_le: "open_count n fs \<le> length fs"
  by (simp add: open_count_def)

lemma upd_tables [simp]:
  "fsnodes (upd_node n g s) = (fsnodes s)[n := g (fsnodes s ! n)]" "open_files (upd_node n g s) = open_files s"
  "fslinks (upd_node n g s) = fslinks s" "fsnodes (upd_file i h s) = fsnodes s" "fslinks (upd_file i h s) = fslinks s"
  "open_files (upd_file i h s) = (open_files s)[i := h (open_files s ! i)]"
  "vfs_root (upd_node n g s) = vfs_root s" "vfs_root (upd_file i h s) = vfs_root s"
  "mounts (upd_node n g s) = mounts s" "mounts (upd_file i h s) = mounts s"
  "kmem (upd_node n g s) = kmem s" "kmem (upd_file i h s) = kmem s"
  "procs (upd_node n g s) = procs s" "procs (upd_file i h s) = procs s"
  "current_proc (upd_node n g s) = current_proc s" "current_proc (upd_file i h s) = current_proc s"
  by (simp_all add: upd_node_def upd_file_def)

lemma refs_ok_update:
  assumes s: "refs_ok s" and i: "i < NUM_OPEN_FILES"
    and of: "open_files s' = (open_files s)[i := f]" and l: "fslinks s' = fslinks s"
    and nodes: "length (fsnodes s') = length (fsnodes s)" "\<And>n. n < length (fsnodes s) \<Longrightarrow> ntype (fsnodes s' ! n) = ntype (fsnodes s ! n)"
    and refs: "\<And>n. n < length (fsnodes s) \<Longrightarrow> ntype (fsnodes s ! n) \<noteq> EMPTY \<Longrightarrow>
      unat (ref_count (fsnodes s' ! n)) + (if onode (open_files s ! i) = Some n then 1 else 0) =
      unat (ref_count (fsnodes s ! n)) + (if onode f = Some n then 1 else 0)"
    and f: "node_ok (onode f) s"
  shows "refs_ok s'"
proof -
  have eq: "node_ok p s' \<longleftrightarrow> node_ok p s" for p using nodes by (auto simp: node_ok_def)
  have len: "length (open_files s) = NUM_OPEN_FILES" using s by (simp add: refs_ok_def)
  have "unat (ref_count (fsnodes s' ! n)) = open_count n (open_files s')"
    if "n < length (fsnodes s)" "ntype (fsnodes s ! n) \<noteq> EMPTY" for n
    using count_update [of i "open_files s" n f] refs [OF that] s that len i of
    by (auto simp: refs_ok_def split: if_splits)
  moreover have "node_ok (onode g) s" if "g \<in> set (open_files s')" for g
    using that of f s set_update_subset_insert [of "open_files s" i f] by (auto simp: refs_ok_def)
  ultimately show ?thesis using s of l nodes eq by (auto simp: refs_ok_def)
qed

lemma find_free_fd_range:
  assumes "refs_ok s" and "find_free_fd s \<noteq> -1"
  shows "0 \<le> find_free_fd s" and "nat (find_free_fd s) < NUM_OPEN_FILES"
    and "onode (open_files s ! nat (find_free_fd s)) = None"
proof -
  have len: "length (open_files s) = NUM_OPEN_FILES" using assms(1) by (simp add: refs_ok_def)
  have "find_free_fd_in (open_files s) (length (open_files s)) \<noteq> -1" using assms(2) len by (simp add: find_free_fd_def)
  note r = ft.find_in_range [OF this] ft.find_is_free [OF this]
  show "0 \<le> find_free_fd s" "nat (find_free_fd s) < NUM_OPEN_FILES" "onode (open_files s ! nat (find_free_fd s)) = None"
    using r len by (simp_all add: find_free_fd_def)
qed

lemma unat_inc: "unat x < 2 ^ 32 - 1 \<Longrightarrow> unat (x + 1 :: u32) = unat x + 1"
  by (simp add: unat_word_ariths)

lemma unat_dec: "0 < unat x \<Longrightarrow> unat (x - 1 :: u32) = unat x - 1"
  by (metis One_nat_def Suc_leI unat_1 unat_sub_if' word_le_nat_alt)

text \<open>
  What the virtual file system relies on a file system for: its operations leave the tables alone,
  except that \<open>node_from_id\<close> fills the node it is given; when it succeeds, that node is in use and has
  no open files.
\<close>

locale fs_contract =
  fixes E :: "'x kernel_scheme vfs_env"
  assumes retrieve_frame: "retrieve_child (fs_types E f) n nm l s = Some (r, s') \<Longrightarrow> same_tables s s'"
    and node_frame: "node_from_id (fs_types E f) i k s = Some (r, s') \<Longrightarrow> k < length (fsnodes s) \<Longrightarrow>
      \<exists>nd. same_tables (s\<lparr>fsnodes := (fsnodes s)[k := nd]\<rparr>) s' \<and>
        (if r < 0 then ntype nd = ntype (fsnodes s ! k) else ntype nd \<noteq> EMPTY \<and> ref_count nd = 0)"
    and open_frame: "f_open (fs_types E f) n s = Some (r, s') \<Longrightarrow> same_tables s s'"
    and close_frame: "f_close (fs_types E f) d s = Some (r, s') \<Longrightarrow> same_tables s s'"
    and seek_frame: "f_seek (fs_types E f) d off anchor s = Some (r, s') \<Longrightarrow> same_tables s s'"
    and read_frame: "f_read (fs_types E f) d nb buf s = Some (r, s') \<Longrightarrow> same_tables s s'"
    and write_frame: "f_write (fs_types E f) d nb buf s = Some (r, s') \<Longrightarrow> same_tables s s'"
begin

lemma fresh_node:
  assumes s: "refs_ok s" and k: "find_free_node s = int k" and s1: "same_tables (upd_node k g s) s1"
    and g: "\<And>n. ntype (g n) = ntype n" and n: "node_from_id (fs_types E f) i k s1 = Some (r, s')"
  shows "refs_ok s' \<and> nodes_extend s s' \<and> (r < 0 \<or> node_ok (Some k) s')"
proof -
  have free: "k < length (fsnodes s)" "ntype (fsnodes s ! k) = EMPTY"
    using nt.find_in_range [of "fsnodes s"] nt.find_is_free [of "fsnodes s"] k by (auto simp: find_free_node_def)
  have unused: "onode f \<noteq> Some k" if "f \<in> set (open_files s)" for f
    using s that free by (auto simp: refs_ok_def node_ok_def)
  then have z: "open_count k (open_files s) = 0" by (simp add: open_count_def filter_empty_conv)
  obtain nd where nd: "same_tables (s1\<lparr>fsnodes := (fsnodes s1)[k := nd]\<rparr>) s'"
      "if r < 0 then ntype nd = EMPTY else ntype nd \<noteq> EMPTY \<and> ref_count nd = 0"
    using node_frame [OF n] free s1 g by (auto simp: same_tables_def upd_node_def)
  have t: "fsnodes s' = (fsnodes s)[k := nd]" "fslinks s' = fslinks s" "open_files s' = open_files s"
      "mounts s' = mounts s" "vfs_root s' = vfs_root s" "procs s' = procs s" "current_proc s' = current_proc s"
    using nd(1) s1 by (auto simp: same_tables_def upd_node_def)
  have e: "nodes_extend s s'" using t free by (auto simp: nodes_extend_def nth_list_update)
  moreover have "refs_ok s'"
    using s e z nd(2) t free node_ok_extend [OF e]
    by (auto simp: refs_ok_def nth_list_update split: if_splits)
  moreover have "r < 0 \<or> node_ok (Some k) s'" using nd(2) t free by (auto simp: node_ok_def)
  ultimately show ?thesis by blast
qed

lemma link_search_Some:
  assumes "link_search E' nm len lp s = Some r" and "r = Some i"
  shows "i < length (fslinks s)"
proof -
  have "\<forall>i. r = Some i \<longrightarrow> i < length (fslinks s)"
  proof (rule link_search.raw_induct [where P = "\<lambda>E nm len lp s r. \<forall>i. r = Some i \<longrightarrow> i < length (fslinks s)",
        OF _ assms(1)], intro allI impI, goal_cases)
    case (1 f E nm len lp s r i)
    from 1(2-) show ?case
      by (auto simp: bind_eq_Some_conv nth_opt_Some split: option.splits if_splits dest!: 1(1))
  qed
  then show ?thesis using assms(2) by blast
qed

lemma get_node_refs:
  assumes s: "refs_ok s" and g: "get_node_with_len E parent nm len s = Some (node, s')"
  shows "refs_ok s' \<and> nodes_extend s s' \<and> node_ok node s'"
proof -
  obtain par found where par: "parent = Some par" "par < length (fsnodes s)"
      and f: "link_search E nm len (child (fsnodes s ! par)) s = Some found"
    using g by (auto simp: get_node_with_len_def bind_eq_Some_conv nth_opt_Some)
  show ?thesis
  proof (cases found)
    case (Some i)
    with g f par have "node = lnode (fslinks s ! i)" "s' = s"
      by (auto simp: get_node_with_len_def nth_opt_def)
    moreover have "i < length (fslinks s)" using link_search_Some [OF f] Some by simp
    ultimately show ?thesis using s by (auto simp: refs_ok_def nodes_extend_refl)
  next
    case None
    show ?thesis
    proof (cases "find_free_node s < 0")
      case True
      with None g f par have "node = None" "s' = s" by (auto simp: get_node_with_len_def nth_opt_def)
      with s show ?thesis by (simp add: nodes_extend_refl node_ok_def)
    next
      case False
      then obtain k where k: "find_free_node s = int k" by (metis nonneg_int_cases not_less)
      let ?s1 = "upd_node k (\<lambda>n. n\<lparr>mountpoint := mountpoint (fsnodes s ! par)\<rparr>) s"
      obtain ft cid s2 f2 r where ret: "retrieve_child (fs_types E ft) par nm len ?s1 = Some (cid, s2)"
          and n: "node_from_id (fs_types E f2) cid k s2 = Some (r, s')" "node = (if r < 0 then None else Some k)"
        using g f par None False k
        by (auto simp: get_node_with_len_def nth_opt_def bind_eq_Some_conv Let_def)
      then have "refs_ok s' \<and> nodes_extend s s' \<and> (r < 0 \<or> node_ok (Some k) s')"
        by (intro fresh_node [OF s k retrieve_frame [OF ret] _ n(1)]) simp
      then show ?thesis using n(2) by (auto simp: node_ok_def)
    qed
  qed
qed

lemma find_parent_loop_refs:
  assumes "find_parent_loop E' endp ld p parent path s = Some r" and "E' = E" and "refs_ok s" and "node_ok parent s"
  shows "refs_ok (snd r) \<and> nodes_extend s (snd r) \<and> node_ok (fst r) (snd r)"
proof -
  have "E' = E \<longrightarrow> refs_ok s \<longrightarrow> node_ok parent s \<longrightarrow> refs_ok (snd r) \<and> nodes_extend s (snd r) \<and> node_ok (fst r) (snd r)"
  proof (rule find_parent_loop.raw_induct [where P = "\<lambda>E' endp ld p parent path s r. E' = E \<longrightarrow> refs_ok s \<longrightarrow>
      node_ok parent s \<longrightarrow> refs_ok (snd r) \<and> nodes_extend s (snd r) \<and> node_ok (fst r) (snd r)", OF _ assms(1)],
      intro impI, goal_cases)
    case (1 f E' endp ld p parent path s r)
    let ?nd = "strnchr path 47 (endp - path) (kmem s)" let ?fld = "0 < sint (?nd - path)"
    show ?case
    proof (cases "?nd = 0")
      case True
      with 1(2,4,5) show ?thesis by (auto simp: Let_def nodes_extend_refl)
    next
      case False
      then obtain q s1 where q: "(if ?fld then get_node_with_len E parent path (?nd - path) s else Some (parent, s)) = Some (q, s1)"
        using 1(2,3) by (auto simp: Let_def bind_eq_Some_conv)
      then have r: "refs_ok s1 \<and> nodes_extend s s1 \<and> node_ok q s1"
        using get_node_refs [OF 1(4)] 1(4,5) by (auto simp: nodes_extend_refl split: if_splits)
      with False 1(2,3) q
      show ?thesis
        by (auto simp: Let_def bind_eq_Some_conv node_ok_def [of None] split: if_splits dest!: 1(1) intro: nodes_extend_trans)
    qed
  qed
  then show ?thesis using assms by blast
qed

lemma find_parent_checkperm_refs:
  assumes "find_parent_checkperm E root path p s = Some (d, s')" and "refs_ok s" and "node_ok root s"
  shows "refs_ok s' \<and> nodes_extend s s' \<and> node_ok d s'"
  using assms find_parent_loop_refs [OF _ refl assms(2,3)]
  by (fastforce simp: find_parent_checkperm_def Let_def bind_eq_Some_conv nodes_extend_refl node_ok_def [of None] split: if_splits)

lemma vfs_open_node_refs:
  assumes s: "refs_ok s" and n: "node_ok node s" and o: "vfs_open_node E p mode node s = Some (fd, s')"
  shows "refs_ok s'"
proof (cases "0 \<le> fd")
  case False
  then show ?thesis using o s
    by (auto simp: vfs_open_node_def Let_def bind_eq_Some_conv split: if_splits
        dest!: open_frame intro: refs_ok_same dest: find_free_fd_range(1) [OF refs_ok_same, rotated -1])
next
  case True
  then obtain k f ret s1 where k: "node = Some k" and s1: "f_open (fs_types E f) k s = Some (ret, s1)"
      and fd: "fd = find_free_fd s1"
      and s': "s' = upd_node k (\<lambda>n. n\<lparr>ref_count := ref_count n + 1\<rparr>) (upd_file (nat fd) (\<lambda>_. \<lparr>onode = node, cursor = 0,
        omode = (if mode AND OF_APPEND \<noteq> 0 then mode OR OF_WRITE else mode), oproc = p\<rparr>) s1)"
    using vfs_open_node_ok [OF o] by blast
  have t: "refs_ok s1" "node_ok node s1" using open_frame [OF s1] s n refs_ok_same node_ok_extend same_tables_extend by blast+
  note r = find_free_fd_range [OF t(1)]
  have ne: "find_free_fd s1 \<noteq> -1" using True fd by simp
  have c: "unat (ref_count (fsnodes s1 ! k)) < 2 ^ 32 - 1" "k < length (fsnodes s1)"
    using t k open_count_le [of k "open_files s1"] by (auto simp: refs_ok_def node_ok_def NUM_OPEN_FILES_def)
  show ?thesis
    unfolding s' using r [OF ne] t(2) c k fd
    by (intro refs_ok_update [OF t(1), of "nat fd"]) (auto simp: nth_list_update unat_inc)
qed

lemma vfs_open_refs:
  assumes s: "refs_ok s" and r: "node_ok (vfs_root s) s" and o: "vfs_open E p path mode s = Some (fd, s')"
  shows "refs_ok s'"
proof -
  obtain par s1 where p: "find_parent_checkperm E (vfs_root s) path p s = Some (par, s1)"
    using o by (auto simp: vfs_open_def bind_eq_Some_conv)
  have p1: "refs_ok s1" using find_parent_checkperm_refs [OF p s r] by simp
  show ?thesis
  proof (cases "s' = s1")
    case True
    with p1 show ?thesis by simp
  next
    case False
    then obtain b node s2 where g: "get_node E par b s1 = Some (node, s2)" and n: "vfs_open_node E p mode node s2 = Some (fd, s')"
      using o p by (auto simp: vfs_open_def bind_eq_Some_conv split: if_splits)
    have "refs_ok s2 \<and> node_ok node s2"
      using g get_node_refs [OF p1] by (auto simp: get_node_def split: if_splits)
    then show ?thesis using vfs_open_node_refs [OF _ _ n] by blast
  qed
qed

lemma vfs_close_refs:
  assumes s: "refs_ok s" and c: "vfs_close E fd s = Some (r, s')"
  shows "refs_ok s' \<and> (r = 0 \<longrightarrow> open_files s' ! nat fd = (open_files s ! nat fd)\<lparr>onode := None\<rparr>)"
proof -
  have fd: "0 \<le> fd" "nat fd < length (open_files s)"
    using c by (auto simp: vfs_close_def bind_eq_Some_conv nth_int_Some)
  have len: "length (open_files s) = NUM_OPEN_FILES" using s by (simp add: refs_ok_def)
  show ?thesis
  proof (cases "onode (open_files s ! nat fd)")
    case None
    with c s fd show ?thesis by (auto simp: vfs_close_def nth_int_def nth_opt_def)
  next
    case (Some n)
    then obtain f ret s1 where s1: "f_close (fs_types E f) (nat fd) s = Some (ret, s1)"
        and k: "(if ret < 0 then Some (-1, s1) else do {
            n' \<leftarrow> onode (open_files s1 ! nat fd);
            let s2 = upd_node n' (\<lambda>n. n\<lparr>ref_count := ref_count n - 1\<rparr>) s1;
            Some (0, upd_file (nat fd) (\<lambda>f. f\<lparr>onode := None\<rparr>) s2) }) = Some (r, s')"
      using c fd by (auto simp: vfs_close_def nth_int_def nth_opt_def bind_eq_Some_conv)
    have s': "if ret < 0 then r = -1 \<and> s' = s1 else r = 0 \<and>
        s' = upd_file (nat fd) (\<lambda>f. f\<lparr>onode := None\<rparr>) (upd_node n (\<lambda>n. n\<lparr>ref_count := ref_count n - 1\<rparr>) s1)"
      using k Some close_frame [OF s1] by (auto simp: same_tables_def Let_def split: if_splits)
    have t: "refs_ok s1" "open_files s1 = open_files s" "fsnodes s1 = fsnodes s"
      using close_frame [OF s1] s refs_ok_same by (auto simp: same_tables_def)
    have "open_files s ! nat fd \<in> set (open_files s)" using fd by simp
    then have n: "n < length (fsnodes s)" "ntype (fsnodes s ! n) \<noteq> EMPTY" using s Some by (auto simp: refs_ok_def node_ok_def)
    have "0 < open_count n (open_files s)"
      using \<open>open_files s ! nat fd \<in> _\<close> Some by (auto simp: open_count_def filter_empty_conv)
    then have pos: "0 < unat (ref_count (fsnodes s ! n))" using s n by (simp add: refs_ok_def)
    have "refs_ok (upd_file (nat fd) (\<lambda>f. f\<lparr>onode := None\<rparr>) (upd_node n (\<lambda>n. n\<lparr>ref_count := ref_count n - 1\<rparr>) s1))"
      using fd len t n pos Some
      by (intro refs_ok_update [OF t(1), of "nat fd"]) (auto simp: nth_list_update unat_dec node_ok_def)
    then show ?thesis using s' t fd by (auto split: if_splits)
  qed
qed

lemma vfs_seek_refs:
  assumes s: "refs_ok s" and c: "vfs_seek E fd off anchor s = Some (r, s')"
  shows "refs_ok s'"
proof -
  have cur: "refs_ok (upd_file i (\<lambda>f. f\<lparr>cursor := h f\<rparr>) t)" if "refs_ok t" for t i h
  proof (cases "i < NUM_OPEN_FILES")
    case True
    then have "open_files t ! i \<in> set (open_files t)" using that by (simp add: refs_ok_def)
    with True that show ?thesis
      by (intro refs_ok_update [OF that, of i _ "(open_files t ! i)\<lparr>cursor := h (open_files t ! i)\<rparr>"])
        (auto simp: refs_ok_def)
  next
    case False
    with that have "open_files (upd_file i (\<lambda>f. f\<lparr>cursor := h f\<rparr>) t) = open_files t"
      by (simp add: refs_ok_def list_update_beyond)
    then have "same_tables t (upd_file i (\<lambda>f. f\<lparr>cursor := h f\<rparr>) t)" by (simp add: same_tables_def)
    with that show ?thesis by (rule refs_ok_same [rotated])
  qed
  show ?thesis using s c
    by (auto simp: vfs_seek_def bind_eq_Some_conv nth_int_Some split: if_splits
        dest!: seek_frame intro: refs_ok_same intro!: cur)
qed

lemma vfs_read_refs: "refs_ok s \<Longrightarrow> vfs_read E fd nb buf s = Some (r, s') \<Longrightarrow> refs_ok s'"
  by (auto simp: vfs_read_def bind_eq_Some_conv split: if_splits dest!: read_frame intro: refs_ok_same)

lemma vfs_write_refs: "refs_ok s \<Longrightarrow> vfs_write E fd nb buf s = Some (r, s') \<Longrightarrow> refs_ok s'"
  by (auto simp: vfs_write_def bind_eq_Some_conv split: if_splits dest!: write_frame intro: refs_ok_same)

end

section \<open>Sequences of calls\<close>

text \<open>One call of the file interface; every call of the C code that returns is such a step.\<close>

inductive vfs_step :: "'x kernel_scheme vfs_env \<Rightarrow> 'x kernel_scheme \<Rightarrow> 'x kernel_scheme \<Rightarrow> bool" for E where
  "vfs_open E p path mode s = Some (fd, s') \<Longrightarrow> vfs_step E s s'"
| "vfs_close E fd s = Some (r, s') \<Longrightarrow> vfs_step E s s'"
| "vfs_seek E fd off anchor s = Some (r, s') \<Longrightarrow> vfs_step E s s'"
| "vfs_read E fd nb buf s = Some (r, s') \<Longrightarrow> vfs_step E s s'"
| "vfs_write E fd nb buf s = Some (r, s') \<Longrightarrow> vfs_step E s s'"

inductive vfs_reach :: "'x kernel_scheme vfs_env \<Rightarrow> 'x kernel_scheme \<Rightarrow> 'x kernel_scheme \<Rightarrow> bool" for E where
  reach_refl: "vfs_reach E s s"
| reach_step: "vfs_reach E s s1 \<Longrightarrow> vfs_step E s1 s2 \<Longrightarrow> vfs_reach E s s2"

context fs_contract
begin

lemma nth_list_update': "j < length xs \<Longrightarrow> xs[i := x] ! j = (if i = j then x else xs ! j)"
  by (cases "i < length xs") (auto simp: nth_list_update list_update_beyond)

lemma kept_upd:
  assumes "same_tables s s1" and "\<And>n. ntype (g n) = ntype n"
  shows "nodes_kept s (upd_file i h s1)" and "nodes_kept s (upd_file i h (upd_node k g s1))"
    and "nodes_kept s (upd_node k g (upd_file i h s1))"
  using assms by (auto simp: nodes_kept_def same_tables_def nth_list_update')

lemma vfs_open_node_kept: "vfs_open_node E p mode node s = Some (fd, s') \<Longrightarrow> nodes_kept s s'"
  by (auto simp: vfs_open_node_def Let_def bind_eq_Some_conv split: if_splits dest!: open_frame
      intro: nodes_kept_same nodes_kept_extend [OF nodes_extend_refl] intro!: kept_upd(3))

lemma vfs_open_kept:
  assumes s: "refs_ok s" and r: "node_ok (vfs_root s) s" and o: "vfs_open E p path mode s = Some (fd, s')"
  shows "nodes_kept s s'"
proof -
  obtain par s1 where p: "find_parent_checkperm E (vfs_root s) path p s = Some (par, s1)"
    using o by (auto simp: vfs_open_def bind_eq_Some_conv)
  have p1: "refs_ok s1" "nodes_kept s s1" using find_parent_checkperm_refs [OF p s r] nodes_kept_extend by blast+
  have "nodes_kept s1 s2" if "get_node E par b s1 = Some (node, s2)" for b node s2
    using that get_node_refs [OF p1(1)] by (auto simp: get_node_def split: if_splits intro!: nodes_kept_extend)
  then have "nodes_kept s s2" if "get_node E par b s1 = Some (node, s2)" for b node s2
    using that p1(2) nodes_kept_trans by blast
  then show ?thesis using o p p1(2)
    by (auto simp: vfs_open_def bind_eq_Some_conv split: if_splits dest!: vfs_open_node_kept)
      (blast intro: nodes_kept_trans)
qed

lemma vfs_calls_kept:
  "vfs_close E fd s = Some (r, s') \<Longrightarrow> nodes_kept s s'"
  "vfs_seek E fd off anchor s = Some (r, s') \<Longrightarrow> nodes_kept s s'"
  "vfs_read E fd nb buf s = Some (r, s') \<Longrightarrow> nodes_kept s s'"
  "vfs_write E fd nb buf s = Some (r, s') \<Longrightarrow> nodes_kept s s'"
  by (auto simp: vfs_close_def vfs_seek_def vfs_read_def vfs_write_def Let_def bind_eq_Some_conv
      split: if_splits option.splits dest!: close_frame seek_frame read_frame write_frame
      intro: nodes_kept_same nodes_kept_extend [OF nodes_extend_refl] intro!: kept_upd(1,2) [where g = "\<lambda>n. n\<lparr>ref_count := ref_count n - 1\<rparr>"])

lemma vfs_step_refs:
  assumes "vfs_step E s s'" and "refs_ok s" and "node_ok (vfs_root s) s"
  shows "refs_ok s' \<and> node_ok (vfs_root s') s'"
proof -
  have "refs_ok s' \<and> nodes_kept s s'" using assms
    by (cases rule: vfs_step.cases)
      (blast dest: vfs_open_refs vfs_open_kept vfs_close_refs vfs_seek_refs vfs_read_refs vfs_write_refs vfs_calls_kept)+
  then show ?thesis using node_ok_kept [of s s'] assms(3) by (auto simp: nodes_kept_def)
qed

lemma vfs_reach_refs:
  assumes "vfs_reach E s s'" and "refs_ok s" and "node_ok (vfs_root s) s"
  shows "refs_ok s' \<and> node_ok (vfs_root s') s'"
  using assms by (induction rule: vfs_reach.induct) (auto dest: vfs_step_refs)

end

end
