(* ===== verification/TestFs.thy ===== *)
theory TestFs
  imports Vfs
begin

text \<open>
  The test file system \<^verbatim>\<open>generic/fs/test.c\<close>, an instance of the file system interface, and the
  properties of the virtual file system over it. The string literals of the file are in read-only
  memory: \<open>tfs_rodata\<close> holds their addresses and \<open>rodata_ok\<close> says that they are there.
\<close>

section \<open>Model\<close>

definition ID_ROOT_DIR :: int where "ID_ROOT_DIR = 0"
definition ID_TESTDIR1 :: int where "ID_TESTDIR1 = 4"
definition ID_TESTDIR2 :: int where "ID_TESTDIR2 = 5"
definition ROOT_SENTINAL :: nat where "ROOT_SENTINAL = 6"
definition DIR1_SENTINAL :: nat where "DIR1_SENTINAL = 8"
definition DIR2_SENTINAL :: nat where "DIR2_SENTINAL = 10"

definition node_names :: "string list" where
  "node_names = [''.'', ''test.txt'', ''test2.txt'', ''test3.txt'', ''testdir1'', ''testdir2'',
    ''child1'', ''child2'', ''child_a'', ''child_b'']"

definition tfs_msg :: string where
  "tfs_msg = ''Hello, world! This is my test string, which is inside all of the '' @
    ''files in a testfs filesystem! Wow!!!''"

definition sizeof_msg :: nat where "sizeof_msg = length tfs_msg + 1"

record tfs_rodata =
  msg_addr :: u64
  name_addrs :: "u64 list"

definition chars :: "string \<Rightarrow> u8 list" where
  "chars str = map of_char str"

definition rodata_ok :: "tfs_rodata \<Rightarrow> mem \<Rightarrow> bool" where
  "rodata_ok R m \<longleftrightarrow> cstr m (msg_addr R) (chars tfs_msg) \<and>
    list_all2 (\<lambda>a n. cstr m a (chars n)) (name_addrs R) node_names"

text \<open>The file system is number 0 of the registered types.\<close>

definition tfs_initmnt :: "mount \<Rightarrow> int \<times> mount" where
  "tfs_initmnt mnt = (if 0 \<le> dev mnt then (-1, mnt)
    else (0, mnt\<lparr>root_fsnode := ID_ROOT_DIR, mfs := Some 0\<rparr>))"

fun tfs_scan :: "tfs_rodata \<Rightarrow> u64 \<Rightarrow> u64 \<Rightarrow> mem \<Rightarrow> nat list \<Rightarrow> int" where
  "tfs_scan R nm len m [] = -1"
| "tfs_scan R nm len m (i # is) =
    (if strncmp nm (name_addrs R ! i) len m = 0 then int i else tfs_scan R nm len m is)"

definition tfs_retrieve_child :: "tfs_rodata \<Rightarrow> nat \<Rightarrow> u64 \<Rightarrow> u64 \<Rightarrow> 'x kernel_scheme \<Rightarrow> (int \<times> 'x kernel_scheme) option" where
  "tfs_retrieve_child R parent nm len s = do {
    pn \<leftarrow> nth_opt (fsnodes s) parent;
    Some (if internal_id pn = ID_ROOT_DIR then tfs_scan R nm len (kmem s) [0..<ROOT_SENTINAL]
          else if internal_id pn = ID_TESTDIR1 then tfs_scan R nm len (kmem s) [ROOT_SENTINAL..<DIR1_SENTINAL]
          else if internal_id pn = ID_TESTDIR2 then tfs_scan R nm len (kmem s) [DIR1_SENTINAL..<DIR2_SENTINAL]
          else -1, s) }"

definition tfs_fill :: "int \<Rightarrow> fsnode \<Rightarrow> fsnode" where
  "tfs_fill i n =
    (let n1 = n\<lparr>internal_id := i, perms := FP_ROTH OR FP_RUSR OR FP_RGRP OR FP_WUSR\<rparr>;
         n2 = (if i = ID_ROOT_DIR \<or> i = ID_TESTDIR1 \<or> i = ID_TESTDIR2
               then n1\<lparr>perms := perms n1 OR (FP_XOTH OR FP_XUSR OR FP_XGRP), ntype := DIRECTORY\<rparr>
               else n1\<lparr>ntype := FILE\<rparr>)
     in n2\<lparr>access_time := 0, mod_time := 0, create_time := 0, ref_count := 0, child := None\<rparr>)"

definition tfs_node_from_id :: "int \<Rightarrow> nat \<Rightarrow> 'x kernel_scheme \<Rightarrow> (int \<times> 'x kernel_scheme) option" where
  "tfs_node_from_id i node s =
    (if i < 0 \<or> int DIR2_SENTINAL \<le> i then Some (-1, s)
     else do { _ \<leftarrow> nth_opt (fsnodes s) node; Some (0, upd_node node (tfs_fill i) s) })"

definition tfs_read :: "tfs_rodata \<Rightarrow> nat \<Rightarrow> u64 \<Rightarrow> u64 \<Rightarrow> 'x kernel_scheme \<Rightarrow> (int \<times> 'x kernel_scheme) option" where
  "tfs_read R file nbytes kbuffer s = do {
    f \<leftarrow> nth_opt (open_files s) file;
    (if int sizeof_msg \<le> cursor f then Some (-1, s)
     else Some (int (min (unat nbytes) sizeof_msg),
       s\<lparr>kmem := snd (strncpy kbuffer (msg_addr R + word_of_int (cursor f)) nbytes (kmem s))\<rparr>)) }"

definition tfs_save_node :: "nat \<Rightarrow> 'x kernel_scheme \<Rightarrow> (int \<times> 'x kernel_scheme) option" where
  "tfs_save_node node s = Some (-1, s)"
definition tfs_open :: "nat \<Rightarrow> 'x kernel_scheme \<Rightarrow> (int \<times> 'x kernel_scheme) option" where
  "tfs_open node s = Some (0, s)"
definition tfs_close :: "nat \<Rightarrow> 'x kernel_scheme \<Rightarrow> (int \<times> 'x kernel_scheme) option" where
  "tfs_close file s = Some (0, s)"
definition tfs_seek :: "nat \<Rightarrow> int \<Rightarrow> int \<Rightarrow> 'x kernel_scheme \<Rightarrow> (int \<times> 'x kernel_scheme) option" where
  "tfs_seek file off anchor s = Some (0, s)"
definition tfs_write :: "nat \<Rightarrow> u64 \<Rightarrow> u64 \<Rightarrow> 'x kernel_scheme \<Rightarrow> (int \<times> 'x kernel_scheme) option" where
  "tfs_write file nbytes buf s = Some (-1, s)"
definition tfs_newfile :: "nat \<Rightarrow> u64 \<Rightarrow> u32 \<Rightarrow> int \<Rightarrow> int \<Rightarrow> 'x kernel_scheme \<Rightarrow> (int \<times> 'x kernel_scheme) option" where
  "tfs_newfile parent nm prm u g s = Some (-1, s)"
definition tfs_newdir :: "nat \<Rightarrow> u64 \<Rightarrow> u32 \<Rightarrow> int \<Rightarrow> int \<Rightarrow> 'x kernel_scheme \<Rightarrow> (int \<times> 'x kernel_scheme) option" where
  "tfs_newdir parent nm prm u g s = Some (-1, s)"
definition tfs_delnode :: "nat \<Rightarrow> u64 \<Rightarrow> 'x kernel_scheme \<Rightarrow> (int \<times> 'x kernel_scheme) option" where
  "tfs_delnode parent nm s = Some (-1, s)"

definition testfs_type :: "tfs_rodata \<Rightarrow> 'x kernel_scheme fs_ops" where
  "testfs_type R = \<lparr>retrieve_child = tfs_retrieve_child R, node_from_id = tfs_node_from_id, op_put_node = tfs_save_node,
    f_open = tfs_open, f_close = tfs_close, f_seek = tfs_seek, f_read = tfs_read R, f_write = tfs_write,
    newfile = tfs_newfile, newdir = tfs_newdir, delnode = tfs_delnode\<rparr>"

definition tfs_env :: "tfs_rodata \<Rightarrow> u64 \<Rightarrow> 'x kernel_scheme vfs_env" where
  "tfs_env R base = \<lparr>fs_types = (\<lambda>_. testfs_type R), links_base = base\<rparr>"

text \<open>The part of \<^verbatim>\<open>_start\<close> that mounts the test file system as the root.\<close>

definition mount_root :: "tfs_rodata \<Rightarrow> u64 \<Rightarrow> 'x kernel_scheme \<Rightarrow> 'x kernel_scheme option" where
  "mount_root R base s = do {
    mt \<leftarrow> nth_opt (mounts s) 0;
    let mt1 = snd (tfs_initmnt (mt\<lparr>dev := -1\<rparr>));
    let s1 = s\<lparr>mounts := (mounts s)[0 := mt1]\<rparr>;
    (r, s2) \<leftarrow> get_node_byid (tfs_env R base) 0 (root_fsnode mt1) s1;
    Some (s2\<lparr>vfs_root := r\<rparr>) }"

section \<open>The test file system keeps the contract\<close>

lemmas tfs_ops = tfs_env_def testfs_type_def tfs_retrieve_child_def tfs_node_from_id_def tfs_open_def tfs_close_def
  tfs_seek_def tfs_read_def tfs_write_def

lemma tfs_fill_simps [simp]:
  "internal_id (tfs_fill i n) = i" "mountpoint (tfs_fill i n) = mountpoint n" "child (tfs_fill i n) = None"
  "ref_count (tfs_fill i n) = 0" "user (tfs_fill i n) = user n"
  "ntype (tfs_fill i n) = (if i = 0 \<or> i = 4 \<or> i = 5 then DIRECTORY else FILE)"
  "perms (tfs_fill i n) = (if i = 0 \<or> i = 4 \<or> i = 5 then 0x16f else 0x4b)"
  by (simp_all add: tfs_fill_def Let_def ID_ROOT_DIR_def ID_TESTDIR1_def ID_TESTDIR2_def
      FP_ROTH_def FP_RUSR_def FP_RGRP_def FP_WUSR_def FP_XOTH_def FP_XUSR_def FP_XGRP_def)

lemma same_tables_refl [simp]: "same_tables s s"
  by (simp add: same_tables_def)

interpretation tf: fs_contract "tfs_env R base" for R base
proof (unfold_locales, goal_cases)
  case (2 f i k s r s')
  show ?case
  proof (cases "r < 0")
    case True
    with 2 have "s' = s" by (auto simp: tfs_ops bind_eq_Some_conv split: if_splits)
    then show ?thesis using True by (intro exI [of _ "fsnodes s ! k"]) (simp add: same_tables_def)
  next
    case False
    with 2 have "s' = upd_node k (tfs_fill i) s" by (auto simp: tfs_ops bind_eq_Some_conv split: if_splits)
    then show ?thesis using False by (intro exI [of _ "tfs_fill i (fsnodes s ! k)"]) (simp add: same_tables_def)
  qed
qed (auto simp: tfs_ops bind_eq_Some_conv same_tables_def split: if_splits)

section \<open>Paths of one component\<close>

lemma sint_47: "sint (w :: u8) = 47 \<longleftrightarrow> w = 47"
proof -
  have "sint (47 :: u8) = 47" by simp
  then show ?thesis by (metis signed_word_eqI)
qed

lemma sint_of_nat_u64: "k < 2 ^ 63 \<Longrightarrow> sint (of_nat k :: u64) = int k"
  by (simp add: signed_of_nat signed_take_bit_int_eq_self)

lemma memrchr_find:
  assumes "0 < n" and "n < 2 ^ 63"
  shows "memrchr p c (of_nat n) m = (case find (\<lambda>j. sint (m (p + of_nat j)) = c) (rev [0..<n]) of
     None \<Rightarrow> 0 | Some j \<Rightarrow> p + of_nat j)"
proof -
  have "(of_nat n :: u64) - 1 = of_nat (n - 1)" using assms(1) by (simp add: of_nat_diff)
  then have "nat (sint ((of_nat n :: u64) - 1) + 1) = n" using assms sint_of_nat_u64 [of "n - 1"] by simp
  then show ?thesis by (simp add: memrchr_def memrchr_loop_find)
qed

lemma find_None_upt: "(\<And>j. j < n \<Longrightarrow> \<not> P j) \<Longrightarrow> find P [0..<n] = None \<and> find P (rev [0..<n]) = None"
  by (auto simp: find_None_iff)

lemma memrchr_None:
  assumes "\<And>j. j < n \<Longrightarrow> sint (m (p + of_nat j)) \<noteq> c" and "n < 2 ^ 63"
  shows "memrchr p c (of_nat n) m = 0"
proof (cases "n = 0")
  case True
  then show ?thesis by (simp add: memrchr_def)
next
  case False
  then show ?thesis using memrchr_find [of n p c m] assms find_None_upt [of n "\<lambda>j. sint (m (p + of_nat j)) = c"] by simp
qed

lemma first_of_trailing_plain:
  assumes "cstr m q xs" and "xs \<noteq> []" and "last xs \<noteq> 47"
  shows "first_of_trailing q m = Some (q + of_nat (length xs))"
proof -
  have "length xs - 1 < length xs" using assms(2) by simp
  from cstr_nth [OF assms(1) this] have "m (q + of_nat (length xs - 1)) = last xs"
    using assms(2) by (simp add: last_conv_nth)
  moreover have "(of_nat (length xs - 1) :: u64) = of_nat (length xs) - 1" using assms(2) by (simp add: of_nat_diff Suc_leI)
  ultimately have "m (q + of_nat (length xs) - 1) \<noteq> 47" using assms(3) by (simp add: add_diff_eq)
  then show ?thesis using assms(1) by (simp add: first_of_trailing_def strlen_cstr trailing_loop.simps)
qed

text \<open>\<open>file_path m path xs\<close>: the string at \<open>path\<close> is a slash and the name \<open>xs\<close>, which has no slash.\<close>

definition file_path :: "mem \<Rightarrow> u64 \<Rightarrow> u8 list \<Rightarrow> bool" where
  "file_path m path xs \<longleftrightarrow> cstr m path (47 # xs) \<and> 47 \<notin> set xs \<and> xs \<noteq> [] \<and> length xs < 32 \<and>
    path \<noteq> 0 \<and> path + 1 \<noteq> 0"

lemma basename_plain:
  assumes "file_path m path xs"
  shows "basename path m = Some (path + 1)"
proof -
  have c: "cstr m path (47 # xs)" "47 \<notin> set xs" "xs \<noteq> []" "length xs < 32" "path \<noteq> 0"
    using assms by (auto simp: file_path_def)
  have l: "last xs \<noteq> 47" using last_in_set [OF c(3)] c(2) by metis
  have f: "first_of_trailing path m = Some (path + of_nat (Suc (length xs)))"
    using first_of_trailing_plain [OF c(1)] l c(3) by simp
  let ?P = "\<lambda>j. sint (m (path + of_nat j)) = 47"
  have p: "?P 0" using c(1) by simp
  have np: "\<not> ?P (Suc j)" if "j < length xs" for j
  proof -
    have "xs ! j \<noteq> 47" using nth_mem [OF that] c(2) by metis
    then show ?thesis using cstr_nth [OF c(1), of "Suc j"] that by (auto simp: sint_47)
  qed
  have "find ?P (rev [0..<Suc (length xs)]) = Some 0"
  proof -
    have "rev [0..<Suc (length xs)] = rev (map Suc [0..<length xs]) @ [0]"
      by (simp add: map_Suc_upt upt_conv_Cons del: upt_Suc)
    moreover have "find ?P (rev (map Suc [0..<length xs])) = None"
      using np by (auto simp: find_None_iff simp del: image_Suc_atLeastLessThan of_nat_Suc)
    moreover have "find ?P (ys @ zs) = find ?P zs" if "find ?P ys = None" for ys zs
      using that by (induction ys) (auto split: if_splits)
    ultimately show ?thesis using p by simp
  qed
  then have "memrchr path 47 (of_nat (Suc (length xs))) m = path"
    using memrchr_find [of "Suc (length xs)" path 47 m] c(4) by (simp del: of_nat_Suc)
  then show ?thesis using f c(5) by (simp add: basename_def del: of_nat_Suc)
qed

lemma find_parent_plain:
  assumes p: "file_path (kmem s) path xs" and x: "can_exec root p s = Some True"
  shows "find_parent_checkperm E root path p s = Some (root, s)"
proof -
  have c: "cstr (kmem s) (path + 1) xs" "47 \<notin> set xs" "xs \<noteq> []" "length xs < 32" "kmem s path = 47"
    using p by (auto simp: file_path_def)
  have l: "last xs \<noteq> 47" using last_in_set [OF c(3)] c(2) by metis
  have f: "first_of_trailing (path + 1) (kmem s) = Some (path + 1 + of_nat (length xs))"
    using first_of_trailing_plain [OF c(1,3) l] .
  have np: "sint (kmem s (path + 1 + of_nat j)) \<noteq> 47" if "j < length xs" for j
  proof -
    have "xs ! j \<noteq> 47" using nth_mem [OF that] c(2) by metis
    then show ?thesis using cstr_nth [OF c(1) that] by (auto simp: sint_47)
  qed
  have "unat (of_nat (length xs) :: u64) = length xs" using c(4) by (simp add: unat_of_nat)
  then have "strnchr (path + 1) 47 (of_nat (length xs)) (kmem s) = 0"
    using np find_None_upt [of "length xs" "\<lambda>j. sint (kmem s (path + 1 + of_nat j)) = 47"] c(1)
    by (simp add: strnchr_def memchr_find strnlen_cstr)
  then show ?thesis using c f x
    by (simp add: find_parent_checkperm_def find_parent_loop.simps)
qed

lemma cstr_drop: "cstr m p xs \<Longrightarrow> c \<le> length xs \<Longrightarrow> cstr m (p + of_nat c) (drop c xs)"
proof (induction c arbitrary: p xs)
  case (Suc c)
  then obtain x ys where "xs = x # ys" by (cases xs) auto
  with Suc.prems Suc.IH [of "p + 1" ys] show ?case by (simp add: add.assoc)
qed simp

section \<open>Lookup in the root directory\<close>

text \<open>The memory of the literals of the test file system.\<close>

definition rodata_area :: "tfs_rodata \<Rightarrow> u64 set" where
  "rodata_area R = range_of (msg_addr R) sizeof_msg \<union> (\<Union>i < 10. range_of (name_addrs R ! i) (Suc (length (node_names ! i))))"

lemma length_chars: "length (chars x) = length x"
  by (simp add: chars_def)

lemma length_node_names: "length node_names = 10"
  by (simp add: node_names_def)

lemma rodata_cong:
  assumes "rodata_ok R m" and "\<And>a. a \<in> rodata_area R \<Longrightarrow> m' a = m a"
  shows "rodata_ok R m'"
proof -
  have r: "cstr m (msg_addr R) (chars tfs_msg)" "length (name_addrs R) = 10" "\<And>i. i < 10 \<Longrightarrow> cstr m (name_addrs R ! i) (chars (node_names ! i))"
    using assms(1) by (auto simp: rodata_ok_def list_all2_conv_all_nth length_node_names)
  have "cstr m' (msg_addr R) (chars tfs_msg)"
    by (rule cstr_cong [OF r(1)]) (simp add: assms(2) rodata_area_def sizeof_msg_def length_chars)
  moreover have "cstr m' (name_addrs R ! i) (chars (node_names ! i))" if "i < 10" for i
    by (rule cstr_cong [OF r(3) [OF that]], rule assms(2)) (use that in \<open>auto simp: rodata_area_def length_chars\<close>)
  ultimately show ?thesis using r(2) by (simp add: rodata_ok_def list_all2_conv_all_nth length_node_names)
qed

definition name_matches :: "u8 list \<Rightarrow> u8 list \<Rightarrow> bool" where
  "name_matches xs ys \<longleftrightarrow> take (length ys) xs = take (length xs) ys"

lemma byte_diff_matches: "byte_diff xs ys = 0 \<longleftrightarrow> name_matches xs ys"
  by (induction xs ys rule: byte_diff.induct) (auto simp: name_matches_def dest: signed_word_eqI)

lemma strncmp_field:
  assumes "cstr m a zs" and "cstr m b ys" and "n \<le> length zs"
  shows "strncmp a b (of_nat n) m = 0 \<longleftrightarrow> name_matches (take n zs) ys"
proof -
  have len: "length zs < 2 ^ 64" "length ys < 2 ^ 64" using assms cstr_length by auto
  let ?n = "min n (length ys)"
  have u: "unat (of_nat n :: u64) = n" "unat (of_nat ?n :: u64) = ?n" using len assms(3) by (simp_all add: unat_of_nat min_def)
  have "strnlen a (of_nat n) m = of_nat n" "strnlen b (of_nat n) m = of_nat ?n" using assms u by (simp_all add: strnlen_cstr min_def)
  moreover have "(if (of_nat n :: u64) \<le> of_nat ?n then of_nat n else of_nat ?n :: u64) = of_nat ?n"
    using len u by (auto simp: word_le_nat_alt)
  moreover have "bytes_at m a ?n = take ?n zs" "bytes_at m b ?n = take ?n ys" using assms by (auto intro: bytes_at_cstr)
  ultimately have "strncmp a b (of_nat n) m = byte_diff (take ?n (take n zs)) (take ?n ys)" using u(2) by (simp add: strncmp_def memcmp_diff)
  moreover have "length (take n zs) = n" using assms(3) by simp
  ultimately show ?thesis using byte_diff_take_min [of "take n zs" ys] by (simp only: byte_diff_matches)
qed

lemma tfs_scan_field:
  assumes ro: "rodata_ok R m" and nm: "cstr m nm zs" "n \<le> length zs" and "\<forall>i \<in> set is. i < 10"
  shows "tfs_scan R nm (of_nat n) m is =
    (case find (\<lambda>i. name_matches (take n zs) (chars (node_names ! i))) is of None \<Rightarrow> -1 | Some i \<Rightarrow> int i)"
  using assms(4)
proof (induction "is")
  case (Cons i "is")
  have "cstr m (name_addrs R ! i) (chars (node_names ! i))"
    using ro Cons.prems by (auto simp: rodata_ok_def list_all2_conv_all_nth node_names_def)
  from strncmp_field [OF nm(1) this nm(2)] Cons show ?case by simp
qed simp

text \<open>The root directory of the test file system is mounted and has no cached links.\<close>

definition root_ready :: "tfs_rodata \<Rightarrow> nat \<Rightarrow> 'x kernel_scheme \<Rightarrow> bool" where
  "root_ready R r s \<longleftrightarrow> vfs_root s = Some r \<and> r < length (fsnodes s) \<and> rodata_ok R (kmem s) \<and>
    (let n = fsnodes s ! r in internal_id n = ID_ROOT_DIR \<and> ntype n = DIRECTORY \<and> child n = None \<and>
      perms n AND FP_XOTH \<noteq> 0 \<and> node_fs (Some r) s \<noteq> None)"

lemma root_can_exec: "root_ready R r s \<Longrightarrow> can_exec (Some r) p s = Some True"
  by (simp add: root_ready_def can_exec_def nth_opt_def Let_def)

lemma get_node_root:
  assumes rt: "root_ready R r s" and p: "cstr (kmem s) nm xs" "nm \<noteq> 0" "length xs < 32" and k: "find_free_node s = int k"
    and mp: "mp = mountpoint (fsnodes s ! r)"
  shows "get_node (tfs_env R base) (Some r) nm s =
    Some (case find (\<lambda>i. name_matches xs (chars (node_names ! i))) [0..<6] of
       None \<Rightarrow> (None, upd_node k (\<lambda>n. n\<lparr>mountpoint := mp\<rparr>) s)
     | Some i \<Rightarrow> (Some k, upd_node k (\<lambda>n. tfs_fill (int i) (n\<lparr>mountpoint := mp\<rparr>)) s))"
proof -
  have free: "k < length (fsnodes s)" "ntype (fsnodes s ! k) = EMPTY"
    using nt.find_in_range [of "fsnodes s"] nt.find_is_free [of "fsnodes s"] k by (auto simp: find_free_node_def)
  have r: "r < length (fsnodes s)" "internal_id (fsnodes s ! r) = 0" "child (fsnodes s ! r) = None" "r \<noteq> k"
      "rodata_ok R (kmem s)"
    using rt free by (auto simp: root_ready_def Let_def ID_ROOT_DIR_def)
  let ?s1 = "upd_node k (\<lambda>n. n\<lparr>mountpoint := mp\<rparr>) s"
  have fs: "\<exists>f. node_fs (Some r) ?s1 = Some f"
    using rt r by (auto simp: root_ready_def node_fs_def Let_def nth_opt_def)
  have len: "strnlen nm FILENAME_SIZE (kmem s) = of_nat (length xs)"
    using p by (simp add: strnlen_cstr FILENAME_SIZE_def)
  have sc: "tfs_scan R nm (of_nat (length xs)) (kmem s) [0..<6] =
      (case find (\<lambda>i. name_matches xs (chars (node_names ! i))) [0..<6] of None \<Rightarrow> -1 | Some i \<Rightarrow> int i)"
    using tfs_scan_field [OF r(5) p(1), of "length xs"] by simp
  have lt: "i < 10" if "find P [0..<6] = Some i" for P i
    using that by (auto simp: find_Some_iff)
  show ?thesis using r free k p(2) fs mp
    by (auto simp: get_node_def get_node_with_len_def len link_search.simps nth_opt_def Let_def tfs_ops
        ID_ROOT_DIR_def ROOT_SENTINAL_def DIR2_SENTINAL_def sc split: option.splits dest: lt)
      (auto simp: upd_node_def)
qed

lemma file_node_read:
  assumes "k < length (fsnodes s)"
  shows "can_read (Some k) p (upd_node k (\<lambda>n. tfs_fill i (n\<lparr>mountpoint := mp\<rparr>)) s) = Some True"
  using assms by (simp add: can_read_def nth_opt_def FP_ROTH_def)

lemma vfs_open_root:
  assumes rt: "root_ready R r s" and p: "file_path (kmem s) path xs" and k: "find_free_node s = int k"
    and fd: "find_free_fd s \<noteq> -1"
  shows "vfs_open (tfs_env R base) p path OF_READ s =
    (case find (\<lambda>i. name_matches xs (chars (node_names ! i))) [0..<6] of None \<Rightarrow> None
     | Some i \<Rightarrow> Some (find_free_fd s,
         upd_node k (\<lambda>n. (tfs_fill (int i) (n\<lparr>mountpoint := mountpoint (fsnodes s ! r)\<rparr>))\<lparr>ref_count := 1\<rparr>)
           (upd_file (nat (find_free_fd s)) (\<lambda>_. \<lparr>onode = Some k, cursor = 0, omode = OF_READ, oproc = p\<rparr>) s)))"
proof -
  have c: "cstr (kmem s) (path + 1) xs" "path + 1 \<noteq> 0" "length xs < 32" using p by (auto simp: file_path_def)
  have free: "k < length (fsnodes s)" "ntype (fsnodes s ! k) = EMPTY"
    using nt.find_in_range [of "fsnodes s"] nt.find_is_free [of "fsnodes s"] k by (auto simp: find_free_node_def)
  have root: "vfs_root s = Some r" "r \<noteq> k" "r < length (fsnodes s)" using rt free by (auto simp: root_ready_def Let_def)
  have nfs: "node_fs (Some k) (upd_node k (\<lambda>n. tfs_fill i (n\<lparr>mountpoint := mountpoint (fsnodes s ! r)\<rparr>)) s) = node_fs (Some r) s" for i
    using root free by (simp add: node_fs_def nth_opt_def)
  obtain f where f: "node_fs (Some r) s = Some f" using rt by (auto simp: root_ready_def Let_def)
  have fdeq: "find_free_fd (upd_node k g s) = find_free_fd s" for g by (simp add: find_free_fd_def)
  show ?thesis
  proof (cases "find (\<lambda>i. name_matches xs (chars (node_names ! i))) [0..<6]")
    case None
    then show ?thesis
      using find_parent_plain [OF p root_can_exec [OF rt]] root root_can_exec [OF rt] basename_plain [OF p]
        get_node_root [OF rt c k refl]
      by (simp add: vfs_open_def vfs_open_node_def can_read_def OF_READ_def OF_APPEND_def OF_WRITE_def)
  next
    case (Some i)
    then show ?thesis
      using find_parent_plain [OF p root_can_exec [OF rt]] root root_can_exec [OF rt] basename_plain [OF p]
        get_node_root [OF rt c k refl] file_node_read [OF free(1)] nfs f fd
      by (simp add: vfs_open_def vfs_open_node_def OF_READ_def OF_APPEND_def OF_WRITE_def fdeq
          tfs_env_def testfs_type_def tfs_open_def)
        (simp add: upd_node_def upd_file_def free Let_def)
  qed
qed

text \<open>Reading from a file copies the message from the cursor on.\<close>

lemma vfs_read_message:
  assumes "rodata_ok R (kmem s)" and "0 \<le> fd" and "nat fd < length (open_files s)"
    and "f = open_files s ! nat fd" and "onode f = Some k" and "k < length (fsnodes s)" and "ntype (fsnodes s ! k) = FILE"
    and "omode f AND OF_READ \<noteq> 0" and "node_fs (Some k) s \<noteq> None" and "cursor f = int c" and "c < sizeof_msg"
    and "range_of buf (Suc (min (unat n) (length tfs_msg - c))) \<inter> range_of (msg_addr R) sizeof_msg = {}"
  shows "\<exists>m'. vfs_read (tfs_env R base) fd n buf s = Some (int (min (unat n) sizeof_msg), s\<lparr>kmem := m'\<rparr>) \<and>
    cstr m' buf (take (unat n) (drop c (chars tfs_msg))) \<and>
    (\<forall>a. a \<in> range_of buf (Suc (min (unat n) (length tfs_msg - c))) \<or> m' a = kmem s a)"
proof -
  have m: "cstr (kmem s) (msg_addr R) (chars tfs_msg)" using assms(1) by (simp add: rodata_ok_def)
  have lc: "length (chars tfs_msg) = length tfs_msg" by (simp add: chars_def)
  have d: "cstr (kmem s) (msg_addr R + of_nat c) (drop c (chars tfs_msg))"
    using m assms(11) cstr_drop [OF m, of c] by (simp add: lc sizeof_msg_def)
  have "range_of (msg_addr R + of_nat c) (Suc (length (drop c (chars tfs_msg)))) \<subseteq> range_of (msg_addr R) sizeof_msg"
    using range_of_add [of "msg_addr R" c "sizeof_msg - c"] assms(11) by (simp add: lc sizeof_msg_def Suc_diff_le)
  then have dis: "range_of buf (Suc (min (unat n) (length (drop c (chars tfs_msg))))) \<inter>
      range_of (msg_addr R + of_nat c) (Suc (length (drop c (chars tfs_msg)))) = {}"
    using assms(12) by (auto simp: lc)
  obtain m' where m': "strncpy buf (msg_addr R + of_nat c) n (kmem s) = (buf, m')"
      "cstr m' buf (take (unat n) (drop c (chars tfs_msg)))"
      "\<forall>a. a \<notin> range_of buf (Suc (min (unat n) (length tfs_msg - c))) \<longrightarrow> m' a = kmem s a"
    using strncpy_cstr [OF d dis] by (auto simp: lc)
  have "vfs_read (tfs_env R base) fd n buf s = Some (int (min (unat n) sizeof_msg), s\<lparr>kmem := m'\<rparr>)"
    using assms(2-11) m'(1)
    by (auto simp: vfs_read_def nth_int_def nth_opt_def tfs_env_def testfs_type_def tfs_read_def)
  then show ?thesis using m'(2,3) by auto
qed

section \<open>Mounting the root\<close>

definition zero_node :: fsnode where
  "zero_node = \<lparr>mountpoint = None, internal_id = 0, ntype = EMPTY, perms = 0, user = 0, group = 0, access_time = 0,
    mod_time = 0, create_time = 0, ref_count = 0, child = None\<rparr>"

text \<open>The tables as the loader leaves them: zeroes.\<close>

definition zero_tables :: "'x kernel_scheme \<Rightarrow> bool" where
  "zero_tables s \<longleftrightarrow> fsnodes s = replicate NUM_FSNODES zero_node \<and>
    fslinks s = replicate NUM_FSLINKS \<lparr>lnode = None, lprev = None, lnext = None\<rparr> \<and>
    open_files s = replicate NUM_OPEN_FILES \<lparr>onode = None, cursor = 0, omode = 0, oproc = 0\<rparr> \<and>
    mounts s = replicate NUM_MOUNTS \<lparr>dev = 0, mfs = None, root_fsnode = 0\<rparr>"

lemma scan_replicate: "scan_from P i (replicate (Suc n) x) = (if P x then int i else scan_from P (Suc i) (replicate n x))"
  by simp

lemma find_free_node_zero: "zero_tables s \<Longrightarrow> find_free_node s = 0"
  using scan_replicate [of "\<lambda>n. ntype n = EMPTY" 0 255 zero_node]
  by (simp add: find_free_node_def find_free_node_in_def zero_tables_def NUM_FSNODES_def zero_node_def)

lemma mount_root_ready:
  assumes z: "zero_tables s" and ro: "rodata_ok R (kmem s)"
  shows "\<exists>s0. mount_root R base s = Some s0 \<and> refs_ok s0 \<and> root_ready R 0 s0 \<and> open_files s0 = open_files s \<and>
    kmem s0 = kmem s \<and> find_free_node s0 = 1 \<and> find_free_fd s0 = 0 \<and>
    fsnodes s0 = tfs_fill 0 (zero_node\<lparr>mountpoint := Some 0\<rparr>) # replicate 255 zero_node"
proof -
  let ?mt = "\<lparr>dev = -1, mfs = Some 0, root_fsnode = 0\<rparr>"
  let ?s1 = "s\<lparr>mounts := (mounts s)[0 := ?mt]\<rparr>"
  let ?s2 = "upd_node 0 (\<lambda>n. tfs_fill 0 (n\<lparr>mountpoint := Some 0\<rparr>)) ?s1"
  have no: "scan_from (\<lambda>n. ntype n \<noteq> EMPTY \<and> internal_id n = 0 \<and> mountpoint n = Some 0) 0 (fsnodes ?s1) = -1"
    using z by (auto simp: scan_from_None zero_tables_def zero_node_def)
  have fr: "find_free_node ?s1 = 0" using find_free_node_zero [OF z] by (simp add: find_free_node_def)
  have "mount_root R base s = Some (?s2\<lparr>vfs_root := Some 0\<rparr>)"
    using z no fr
    by (simp add: mount_root_def tfs_initmnt_def nth_opt_def zero_tables_def NUM_MOUNTS_def ID_ROOT_DIR_def get_node_byid_def
        tfs_ops Let_def DIR2_SENTINAL_def NUM_FSNODES_def) (simp add: upd_node_def)
  moreover have "refs_ok (?s2\<lparr>vfs_root := Some 0\<rparr>)"
    using z by (auto simp: refs_ok_def zero_tables_def node_ok_def open_count_def nth_list_update zero_node_def NUM_FSNODES_def)
  moreover have "root_ready R 0 (?s2\<lparr>vfs_root := Some 0\<rparr>)"
    using z ro by (simp add: root_ready_def zero_tables_def NUM_FSNODES_def NUM_MOUNTS_def node_fs_def nth_opt_def
        ID_ROOT_DIR_def FP_XOTH_def Let_def)
  moreover have "fsnodes (?s2\<lparr>vfs_root := Some 0\<rparr>) = tfs_fill 0 (zero_node\<lparr>mountpoint := Some 0\<rparr>) # replicate 255 zero_node"
    using z by (simp add: zero_tables_def NUM_FSNODES_def numeral_eq_Suc)
  moreover have "find_free_node (?s2\<lparr>vfs_root := Some 0\<rparr>) = 1" "find_free_fd (?s2\<lparr>vfs_root := Some 0\<rparr>) = 0"
  proof -
    have n: "fsnodes s = zero_node # zero_node # replicate 254 zero_node"
      using z by (simp add: zero_tables_def NUM_FSNODES_def numeral_eq_Suc)
    show "find_free_node (?s2\<lparr>vfs_root := Some 0\<rparr>) = 1"
      by (simp add: find_free_node_def find_free_node_in_def n) (simp add: zero_node_def)
    show "find_free_fd (?s2\<lparr>vfs_root := Some 0\<rparr>) = 0"
      using z scan_replicate [of "\<lambda>f. onode f = None" 0 511 "\<lparr>onode = None, cursor = 0, omode = 0, oproc = 0\<rparr>"]
      by (simp add: find_free_fd_def find_free_fd_in_def zero_tables_def NUM_OPEN_FILES_def)
  qed
  ultimately show ?thesis by auto
qed

section \<open>A concrete memory and its tables\<close>

text \<open>Strings packed one after the other, from address 1 on.\<close>

definition pack :: "string list \<Rightarrow> u8 list" where
  "pack strs = concat (map (\<lambda>str. chars str @ [0]) strs)"

definition mem_of :: "u8 list \<Rightarrow> mem" where
  "mem_of bs a = (if unat a < length bs then bs ! unat a else 0)"

lemma mem_of_cstr:
  assumes "0 \<notin> set xs" and "length (pre @ xs @ 0 # post) < 2 ^ 64"
  shows "cstr (mem_of (pre @ xs @ 0 # post)) (of_nat (length pre)) xs"
proof -
  let ?bs = "pre @ xs @ 0 # post"
  have at: "mem_of ?bs (of_nat (length pre) + of_nat j) = (xs @ [0]) ! j" if "j \<le> length xs" for j
  proof -
    have "unat (of_nat (length pre) + of_nat j :: u64) = length pre + j"
      using that assms(2) by (simp add: unat_of_nat flip: of_nat_add)
    then show ?thesis using that by (auto simp: mem_of_def nth_append)
  qed
  have "bytes_at (mem_of ?bs) (of_nat (length pre)) (length xs) = xs"
    unfolding bytes_at_def by (rule nth_equalityI) (simp_all add: at nth_append)
  moreover have "mem_of ?bs (of_nat (length pre) + of_nat (length xs)) = 0" using at [of "length xs"] by simp
  ultimately show ?thesis using assms(1) unfolding cstr_iff by blast
qed

lemma pack_cstr:
  assumes "j < length strs" and "0 \<notin> set (chars (strs ! j))" and "length (pack strs) < 2 ^ 63"
    and "off = Suc (length (pack (take j strs)))"
  shows "cstr (mem_of (0 # pack strs)) (of_nat off) (chars (strs ! j))"
proof -
  have "strs = take j strs @ strs ! j # drop (Suc j) strs" using assms(1) by (simp add: id_take_nth_drop)
  then have "pack strs = pack (take j strs) @ chars (strs ! j) @ 0 # pack (drop (Suc j) strs)"
    by (metis (no_types, lifting) pack_def append.assoc append_Cons append_Nil concat.simps(2) concat_append list.simps(9) map_append)
  then show ?thesis
    using mem_of_cstr [OF assms(2), of "0 # pack (take j strs)" "pack (drop (Suc j) strs)"] assms(3,4) by simp
qed

definition demo_strs :: "string list" where
  "demo_strs = ''/test.txt'' # tfs_msg # node_names"

definition demo_ro :: tfs_rodata where
  "demo_ro = \<lparr>msg_addr = 11, name_addrs = [113, 115, 124, 134, 144, 153, 162, 169, 176, 184]\<rparr>"

definition demo_kernel :: kernel where
  "demo_kernel = \<lparr>frames = three_frames, kmem = mem_of (0 # pack demo_strs), procs = [], current_proc = 0,
    fsnodes = replicate NUM_FSNODES zero_node,
    fslinks = replicate NUM_FSLINKS \<lparr>lnode = None, lprev = None, lnext = None\<rparr>,
    open_files = replicate NUM_OPEN_FILES \<lparr>onode = None, cursor = 0, omode = 0, oproc = 0\<rparr>,
    mounts = replicate NUM_MOUNTS \<lparr>dev = 0, mfs = None, root_fsnode = 0\<rparr>, vfs_root = None,
    kheap = \<lparr>min_order = 5, max_order = 12, bsize = 4096, memory_start = 0x1000,
      order_lists = replicate BUDDY_NUM_LISTS 0, bheap = (\<lambda>_. \<lparr>order = 5, taken = 0, bnext = 0, bprev = 0\<rparr>)\<rparr>\<rparr>"

lemma demo_lengths: "length (pack demo_strs) < 2 ^ 63" "length demo_strs = 12"
  by (simp_all add: pack_def demo_strs_def tfs_msg_def node_names_def chars_def)

lemma demo_nonzero: "j < 12 \<Longrightarrow> 0 \<notin> set (chars (demo_strs ! j))"
proof -
  have "list_all (\<lambda>str. 0 \<notin> set (chars str)) demo_strs"
    by (simp add: demo_strs_def tfs_msg_def node_names_def chars_def)
  then show "j < 12 \<Longrightarrow> 0 \<notin> set (chars (demo_strs ! j))"
    using demo_lengths(2) by (auto simp: list_all_length)
qed

lemma demo_cstr:
  "j < 12 \<Longrightarrow> off = Suc (length (pack (take j demo_strs))) \<Longrightarrow>
    cstr (mem_of (0 # pack demo_strs)) (of_nat off) (chars (demo_strs ! j))"
  using pack_cstr [of j demo_strs off] demo_nonzero demo_lengths by simp

lemma demo_rodata: "rodata_ok demo_ro (mem_of (0 # pack demo_strs))"
proof -
  note offs = pack_def demo_strs_def tfs_msg_def node_names_def chars_def
  have "cstr (mem_of (0 # pack demo_strs)) 11 (chars tfs_msg)"
    using demo_cstr [of 1 11] by (simp add: demo_strs_def pack_def chars_def)
  moreover have "list_all2 (\<lambda>a n. cstr (mem_of (0 # pack demo_strs)) a (chars n)) (name_addrs demo_ro) node_names"
    using demo_cstr [of 2 113] demo_cstr [of 3 115] demo_cstr [of 4 124] demo_cstr [of 5 134] demo_cstr [of 6 144]
      demo_cstr [of 7 153] demo_cstr [of 8 162] demo_cstr [of 9 169] demo_cstr [of 10 176] demo_cstr [of 11 184]
    by (simp add: demo_ro_def offs del: cstr.simps)
  ultimately show ?thesis by (simp add: rodata_ok_def demo_ro_def)
qed

lemma range_of_below: "a \<in> range_of p n \<Longrightarrow> unat p + n \<le> 2 ^ 32 \<Longrightarrow> unat p \<le> unat a \<and> unat a < unat p + n"
  by (auto simp: range_of_def unat_word_ariths unat_of_nat)

lemma demo_rodata_below: "a \<in> rodata_area demo_ro \<Longrightarrow> unat a < 200"
proof -
  assume "a \<in> rodata_area demo_ro"
  then consider "a \<in> range_of 11 sizeof_msg" | i where "i < 10" "a \<in> range_of (name_addrs demo_ro ! i) (Suc (length (node_names ! i)))"
    by (auto simp: rodata_area_def demo_ro_def)
  then show ?thesis
  proof cases
    case 1
    then show ?thesis using range_of_below [of a 11 sizeof_msg] by (simp add: sizeof_msg_def tfs_msg_def)
  next
    case 2
    have "list_all2 (\<lambda>p nm. unat p + Suc (length nm) \<le> 200) (name_addrs demo_ro) node_names" by (simp add: demo_ro_def node_names_def)
    then have "unat (name_addrs demo_ro ! i) + Suc (length (node_names ! i)) \<le> 200"
      using 2(1) by (simp add: list_all2_conv_all_nth length_node_names)
    with range_of_below [OF 2(2)] show ?thesis by simp
  qed
qed

lemma demo_path: "file_path (mem_of (0 # pack demo_strs)) 1 (chars ''test.txt'')"
proof -
  have "chars ''/test.txt'' = 47 # chars ''test.txt''" "47 \<notin> set (chars ''test.txt'')" "length (chars ''test.txt'') = 8"
    by (simp_all add: chars_def)
  then show ?thesis using demo_cstr [of 0 1] by (auto simp: file_path_def demo_strs_def pack_def simp del: cstr.simps)
qed

lemma demo_match: "find (\<lambda>i. name_matches (chars ''test.txt'') (chars (node_names ! i))) [0..<6] = Some 1"
proof -
  have "[0..<6] = [0, 1, 2, 3, 4, 5]" by (simp add: upt_conv_Cons)
  then show ?thesis by (simp add: name_matches_def chars_def node_names_def)
qed

lemma demo_mounted:
  "\<exists>s0. mount_root demo_ro 0x10000 demo_kernel = Some s0 \<and> root_ready demo_ro 0 s0 \<and> refs_ok s0 \<and>
    kmem s0 = mem_of (0 # pack demo_strs) \<and> find_free_node s0 = int 1 \<and> find_free_fd s0 = 0"
  using mount_root_ready [of demo_kernel demo_ro "0x10000"] demo_rodata
  by (auto simp: zero_tables_def demo_kernel_def)

section \<open>Properties\<close>

text \<open>
  C6: permissions. When \<open>vfs_open\<close> opens a file for a process, the process could enter the root
  directory and every directory on the way to the file's parent, each of them a directory, and
  the parent itself; it may write the file if it asked for writing or appending and read it if it
  asked for reading. The new entry of \<open>open_files\<close> refers to the file looked up, at cursor 0.
\<close>

theorem vfs_open_checks_permissions:
  assumes "vfs_open E p path mode s = Some (fd, s')" and "0 \<le> fd" and "p \<noteq> -1"
  shows "\<exists>root d s1 b n s2 f ret s3. vfs_root s = Some root \<and> can_exec (Some root) p s = Some True \<and>
    dir_walk E p root s d s1 \<and> can_exec (Some d) p s1 = Some True \<and>
    basename path (kmem s1) = Some b \<and> get_node E (Some d) b s1 = Some (Some n, s2) \<and>
    (mode AND OF_APPEND = 0 \<and> mode AND OF_WRITE = 0 \<or> can_write (Some n) p s2 = Some True) \<and>
    (mode AND OF_READ = 0 \<or> can_read (Some n) p s2 = Some True) \<and>
    node_fs (Some n) s2 = Some f \<and> f_open (fs_types E f) n s2 = Some (ret, s3) \<and> fd = find_free_fd s3 \<and>
    open_files s' = (open_files s3)[nat fd := \<lparr>onode = Some n, cursor = 0,
      omode = (if mode AND OF_APPEND \<noteq> 0 then mode OR OF_WRITE else mode), oproc = p\<rparr>]"
proof -
  obtain d s1 b node s2 where 1: "find_parent_checkperm E (vfs_root s) path p s = Some (Some d, s1)"
      "can_exec (Some d) p s1 = Some True" "basename path (kmem s1) = Some b"
      "get_node E (Some d) b s1 = Some (node, s2)" and 2: "vfs_open_node E p mode node s2 = Some (fd, s')"
    using assms(1,2) by (auto simp: vfs_open_def bind_eq_Some_conv split: if_splits)
  from find_parent_checkperm_walk [OF 1(1) assms(3)] obtain root where
      3: "vfs_root s = Some root" "can_exec (Some root) p s = Some True" "dir_walk E p root s d s1" by auto
  from vfs_open_node_ok [OF 2 assms(2)] obtain n f ret s3 where
      4: "node = Some n" "node_fs node s2 = Some f" "f_open (fs_types E f) n s2 = Some (ret, s3)"
        "mode AND OF_APPEND = 0 \<and> mode AND OF_WRITE = 0 \<or> can_write node p s2 = Some True"
        "mode AND OF_READ = 0 \<or> can_read node p s2 = Some True" "fd = find_free_fd s3"
        "open_files s' = (open_files s3)[nat fd := \<lparr>onode = node, cursor = 0,
          omode = (if mode AND OF_APPEND \<noteq> 0 then mode OR OF_WRITE else mode), oproc = p\<rparr>]"
    by auto
  show ?thesis using 1 3 4 by blast
qed

theorem vfs_open_checks_permissions_witness:
  "\<exists>s0 s' root d s1. mount_root demo_ro 0x10000 demo_kernel = Some s0 \<and>
    vfs_open (tfs_env demo_ro 0x10000) 7 1 OF_READ s0 = Some (0, s') \<and>
    vfs_root s0 = Some root \<and> dir_walk (tfs_env demo_ro 0x10000) 7 root s0 d s1"
proof -
  obtain s0 where s0: "mount_root demo_ro 0x10000 demo_kernel = Some s0" "root_ready demo_ro 0 s0"
      "kmem s0 = mem_of (0 # pack demo_strs)" "find_free_node s0 = int 1" "find_free_fd s0 = 0"
    using demo_mounted by blast
  then obtain s' where o: "vfs_open (tfs_env demo_ro 0x10000) 7 1 OF_READ s0 = Some (0, s')"
    using vfs_open_root [OF s0(2) _ s0(4), of 1 "chars ''test.txt''"] demo_path demo_match by simp
  from vfs_open_checks_permissions [OF o] s0(1) o show ?thesis by auto
qed

text \<open>
  C8: reference counts. After the root is mounted on zeroed tables, whatever sequence of \<open>vfs_open\<close>,
  \<open>vfs_close\<close>, \<open>vfs_seek\<close>, \<open>vfs_read\<close> and \<open>vfs_write\<close> follows, the reference count of every node in use is
  the number of open files that refer to it, and links and open files refer to nodes in use only.
\<close>

theorem vfs_refcounts_exact:
  assumes "zero_tables s" and "rodata_ok R (kmem s)" and "mount_root R base s = Some s0"
    and "vfs_reach (tfs_env R base) s0 s'"
  shows "refs_ok s'"
proof -
  obtain s1 where "mount_root R base s = Some s1" "refs_ok s1" "root_ready R 0 s1"
    using mount_root_ready [OF assms(1,2)] by blast
  then have "refs_ok s0" "node_ok (vfs_root s0) s0" using assms(3) by (auto simp: root_ready_def node_ok_def Let_def)
  then show ?thesis using tf.vfs_reach_refs [OF assms(4)] by blast
qed

theorem vfs_refcounts_exact_witness:
  "\<exists>s0 s'. mount_root demo_ro 0x10000 demo_kernel = Some s0 \<and>
    vfs_open (tfs_env demo_ro 0x10000) 7 1 OF_READ s0 = Some (0, s') \<and> refs_ok s'"
proof -
  obtain s0 where s0: "mount_root demo_ro 0x10000 demo_kernel = Some s0" "root_ready demo_ro 0 s0"
      "kmem s0 = mem_of (0 # pack demo_strs)" "find_free_node s0 = int 1" "find_free_fd s0 = 0"
    using demo_mounted by blast
  then obtain s' where o: "vfs_open (tfs_env demo_ro 0x10000) 7 1 OF_READ s0 = Some (0, s')"
    using vfs_open_root [OF s0(2) _ s0(4), of 1 "chars ''test.txt''"] demo_path demo_match by simp
  have "vfs_reach (tfs_env demo_ro 0x10000) s0 s'"
    using o by (blast intro: vfs_reach.intros vfs_step.intros)
  with vfs_refcounts_exact [OF _ _ s0(1)] demo_rodata o s0(1) show ?thesis
    by (auto simp: zero_tables_def demo_kernel_def)
qed

text \<open>
  Opening a file of the root directory for reading. The name in the path matches an entry when
  one of the two is a prefix of the other, and the first entry that matches is opened: the call takes
  the first free descriptor and a free node for it. When no entry matches the call does not
  return: it uses the NULL node.
\<close>

theorem testfs_open_by_prefix:
  assumes "root_ready R r s" and "file_path (kmem s) path xs" and "find_free_node s = int k" and "find_free_fd s \<noteq> -1"
  shows "case find (\<lambda>i. name_matches xs (chars (node_names ! i))) [0..<6] of
      None \<Rightarrow> vfs_open (tfs_env R base) p path OF_READ s = None
    | Some i \<Rightarrow> \<exists>s'. vfs_open (tfs_env R base) p path OF_READ s = Some (find_free_fd s, s') \<and>
        open_files s' = (open_files s)[nat (find_free_fd s) := \<lparr>onode = Some k, cursor = 0, omode = OF_READ, oproc = p\<rparr>] \<and>
        internal_id (fsnodes s' ! k) = int i \<and> ref_count (fsnodes s' ! k) = 1 \<and>
        ntype (fsnodes s ! k) = EMPTY \<and> ntype (fsnodes s' ! k) = (if i = 0 \<or> i = 4 \<or> i = 5 then DIRECTORY else FILE)"
proof -
  have free: "k < length (fsnodes s)" "ntype (fsnodes s ! k) = EMPTY"
    using nt.find_in_range [of "fsnodes s"] nt.find_is_free [of "fsnodes s"] assms(3) by (auto simp: find_free_node_def)
  show ?thesis using vfs_open_root [OF assms] free by (auto split: option.splits)
qed

theorem testfs_open_by_prefix_witness:
  "\<exists>s0 s'. mount_root demo_ro 0x10000 demo_kernel = Some s0 \<and>
    vfs_open (tfs_env demo_ro 0x10000) 7 1 OF_READ s0 = Some (0, s') \<and> internal_id (fsnodes s' ! 1) = 1"
proof -
  obtain s0 where s0: "mount_root demo_ro 0x10000 demo_kernel = Some s0" "root_ready demo_ro 0 s0"
      "kmem s0 = mem_of (0 # pack demo_strs)" "find_free_node s0 = int 1" "find_free_fd s0 = 0"
    using demo_mounted by blast
  with testfs_open_by_prefix [OF s0(2) _ s0(4), of 1 "chars ''test.txt''" "0x10000" 7] demo_path demo_match
  show ?thesis by auto
qed

text \<open>
  Opening and closing the same file leaks its node. The descriptor is free again, the node's
  reference count is 0, but the node stays in use: one node fewer is free than before, and with no
  free node left (and no cached link) opening any file does not return.
\<close>

theorem testfs_open_close_leaks_node:
  assumes "root_ready R r s" and "file_path (kmem s) path xs" and "find_free_fd s \<noteq> -1" and "refs_ok s"
    and "find (\<lambda>i. name_matches xs (chars (node_names ! i))) [0..<6] \<noteq> None"
  shows "if find_free_node s = -1 then vfs_open (tfs_env R base) p path OF_READ s = None
    else \<exists>fd s1 s2. vfs_open (tfs_env R base) p path OF_READ s = Some (fd, s1) \<and>
      vfs_close (tfs_env R base) fd s1 = Some (0, s2) \<and> open_files s2 ! nat fd = (open_files s1 ! nat fd)\<lparr>onode := None\<rparr> \<and>
      length (filter (\<lambda>n. ntype n = EMPTY) (fsnodes s)) = Suc (length (filter (\<lambda>n. ntype n = EMPTY) (fsnodes s2)))"
proof (cases "find_free_node s = -1")
  case True
  have "child (fsnodes s ! r) = None" "r < length (fsnodes s)" "vfs_root s = Some r"
    using assms(1) by (auto simp: root_ready_def Let_def)
  then have "get_node (tfs_env R base) (Some r) (path + 1) s = Some (None, s)"
    using True assms(2) by (simp add: file_path_def get_node_def get_node_with_len_def nth_opt_def link_search.simps)
  then show ?thesis
    using True find_parent_plain [OF assms(2) root_can_exec [OF assms(1)]] basename_plain [OF assms(2)]
      root_can_exec [OF assms(1)] \<open>vfs_root s = Some r\<close>
    by (simp add: vfs_open_def vfs_open_node_def can_read_def OF_READ_def OF_APPEND_def OF_WRITE_def)
next
  case False
  then obtain k where k: "find_free_node s = int k"
    using nt.find_in_range [of "fsnodes s"] by (auto simp: find_free_node_def intro: nonneg_int_cases)
  have free: "k < length (fsnodes s)" "r < length (fsnodes s)" "r \<noteq> k"
    using nt.find_in_range [of "fsnodes s"] nt.find_is_free [of "fsnodes s"] k assms(1)
    by (auto simp: find_free_node_def root_ready_def Let_def)
  obtain i where i: "find (\<lambda>i. name_matches xs (chars (node_names ! i))) [0..<6] = Some i" using assms(5) by blast
  let ?fd = "find_free_fd s" and ?f = "\<lparr>onode = Some k, cursor = 0, omode = OF_READ, oproc = p\<rparr>"
  let ?nd = "(tfs_fill (int i) ((fsnodes s ! k)\<lparr>mountpoint := mountpoint (fsnodes s ! r)\<rparr>))\<lparr>ref_count := 1\<rparr>"
  let ?s1 = "upd_node k (\<lambda>n. (tfs_fill (int i) (n\<lparr>mountpoint := mountpoint (fsnodes s ! r)\<rparr>))\<lparr>ref_count := 1\<rparr>)
      (upd_file (nat ?fd) (\<lambda>_. ?f) s)"
  have o: "vfs_open (tfs_env R base) p path OF_READ s = Some (?fd, ?s1)"
    using vfs_open_root [OF assms(1,2) k assms(3)] i by simp
  note fd = find_free_fd_range [OF assms(4,3)]
  have len: "length (open_files s) = NUM_OPEN_FILES" using assms(4) by (simp add: refs_ok_def)
  have nfs: "node_fs (Some k) ?s1 = node_fs (Some r) s" using free by (simp add: node_fs_def nth_opt_def)
  obtain f where f: "node_fs (Some r) s = Some f" using assms(1) by (auto simp: root_ready_def Let_def)
  have c: "\<exists>s2. vfs_close (tfs_env R base) ?fd ?s1 = Some (0, s2) \<and>
      open_files s2 = (open_files s)[nat ?fd := ?f\<lparr>onode := None\<rparr>] \<and> fsnodes s2 = (fsnodes s)[k := ?nd\<lparr>ref_count := 0\<rparr>]"
    using fd len free nfs f
    by (simp add: vfs_close_def nth_int_def nth_opt_def tfs_env_def testfs_type_def tfs_close_def Let_def)
  have "nat (find_free_node_in (fsnodes s)) = k" "find_free_node_in (fsnodes s) \<noteq> -1" using k by (auto simp: find_free_node_def)
  then have "length (filter (\<lambda>n. ntype n = EMPTY) (fsnodes s)) =
      Suc (length (filter (\<lambda>n. ntype n = EMPTY) ((fsnodes s)[k := ?nd\<lparr>ref_count := 0\<rparr>])))"
    using nt.fill_count [of "fsnodes s" "?nd\<lparr>ref_count := 0\<rparr>"] by simp
  then show ?thesis using False o c fd(2) len by auto
qed

theorem testfs_open_close_leaks_node_witness:
  "\<exists>s0 fd s1 s2. mount_root demo_ro 0x10000 demo_kernel = Some s0 \<and>
    vfs_open (tfs_env demo_ro 0x10000) 7 1 OF_READ s0 = Some (fd, s1) \<and>
    vfs_close (tfs_env demo_ro 0x10000) fd s1 = Some (0, s2) \<and>
    length (filter (\<lambda>n. ntype n = EMPTY) (fsnodes s2)) < length (filter (\<lambda>n. ntype n = EMPTY) (fsnodes s0))"
proof -
  obtain s0 where s0: "mount_root demo_ro 0x10000 demo_kernel = Some s0" "root_ready demo_ro 0 s0" "refs_ok s0"
      "kmem s0 = mem_of (0 # pack demo_strs)" "find_free_node s0 = int 1" "find_free_fd s0 = 0"
    using demo_mounted by blast
  with testfs_open_close_leaks_node [OF s0(2) _ _ s0(3), of 1 "chars ''test.txt''" "0x10000" 7] demo_path demo_match
  show ?thesis by fastforce
qed

text \<open>
  C28: reading from an open file of the test file system, at any cursor that is not negative. Behind the end of the message the result is -1 and
  nothing changes. Otherwise the message from the cursor on is copied to a buffer that does not overlap it,
  cut to \<open>n\<close> bytes, with a NUL byte behind it; the result is the smaller of \<open>n\<close> and the size of the
  whole message, wherever in the message the cursor is; the cursor does not move, so the next call reads the same bytes.
\<close>

theorem testfs_read_from_cursor:
  assumes "rodata_ok R (kmem s)" and "0 \<le> fd" and "nat fd < length (open_files s)"
    and "f = open_files s ! nat fd" and "onode f = Some k" and "k < length (fsnodes s)" and "ntype (fsnodes s ! k) = FILE"
    and "omode f AND OF_READ \<noteq> 0" and "node_fs (Some k) s \<noteq> None" and "cursor f = int c"
    and "c < sizeof_msg \<Longrightarrow> range_of buf (Suc (min (unat n) (length tfs_msg - c))) \<inter> range_of (msg_addr R) sizeof_msg = {}"
  shows "if sizeof_msg \<le> c then vfs_read (tfs_env R base) fd n buf s = Some (-1, s)
    else \<exists>s'. vfs_read (tfs_env R base) fd n buf s = Some (int (min (unat n) sizeof_msg), s') \<and>
      cstr (kmem s') buf (take (unat n) (drop c (chars tfs_msg))) \<and> open_files s' = open_files s \<and>
      (\<forall>a. a \<in> range_of buf (Suc (min (unat n) (length tfs_msg - c))) \<or> kmem s' a = kmem s a)"
proof (cases "sizeof_msg \<le> c")
  case True
  then show ?thesis using assms(2-10)
    by (auto simp: vfs_read_def nth_int_def nth_opt_def tfs_env_def testfs_type_def tfs_read_def)
next
  case False
  then have c: "c < sizeof_msg" by simp
  show ?thesis using vfs_read_message [OF assms(1-10) c assms(11) [OF c]] c by fastforce
qed

theorem testfs_read_from_cursor_witness:
  "\<exists>s0 s1 s2. mount_root demo_ro 0x10000 demo_kernel = Some s0 \<and>
    vfs_open (tfs_env demo_ro 0x10000) 7 1 OF_READ s0 = Some (0, s1) \<and>
    vfs_read (tfs_env demo_ro 0x10000) 0 5 1000 s1 = Some (5, s2) \<and> cstr (kmem s2) 1000 (chars ''Hello'') \<and>
    vfs_read (tfs_env demo_ro 0x10000) 0 5 1000 (upd_file 0 (\<lambda>f. f\<lparr>cursor := 200\<rparr>) s1) = Some (-1, upd_file 0 (\<lambda>f. f\<lparr>cursor := 200\<rparr>) s1)"
proof -
  obtain s0 where s0: "mount_root demo_ro 0x10000 demo_kernel = Some s0" "root_ready demo_ro 0 s0" "refs_ok s0"
      "kmem s0 = mem_of (0 # pack demo_strs)" "find_free_node s0 = int 1" "find_free_fd s0 = 0"
    using demo_mounted by blast
  let ?s1 = "upd_node 1 (\<lambda>n. (tfs_fill 1 (n\<lparr>mountpoint := mountpoint (fsnodes s0 ! 0)\<rparr>))\<lparr>ref_count := 1\<rparr>)
      (upd_file 0 (\<lambda>_. \<lparr>onode = Some 1, cursor = 0, omode = OF_READ, oproc = 7\<rparr>) s0)"
  have o: "vfs_open (tfs_env demo_ro 0x10000) 7 1 OF_READ s0 = Some (0, ?s1)"
    using vfs_open_root [OF s0(2) _ s0(5), of 1 "chars ''test.txt''"] demo_path demo_match s0(4,6) by simp
  have len: "1 < length (fsnodes s0)" "0 < length (open_files s0)" "0 < length (fsnodes s0)"
    using nt.find_in_range [of "fsnodes s0"] s0(2,3,5)
    by (auto simp: find_free_node_def refs_ok_def NUM_OPEN_FILES_def root_ready_def Let_def)
  have nfs: "node_fs (Some 1) ?s1 \<noteq> None"
    using s0(2) len by (auto simp: root_ready_def Let_def node_fs_def nth_opt_def)
  have msg: "take 5 (chars tfs_msg) = chars ''Hello''" "length tfs_msg = 101" by (simp_all add: tfs_msg_def chars_def)
  have dis: "range_of 1000 (Suc (min (unat (5 :: u64)) (length tfs_msg - 0))) \<inter> range_of (msg_addr demo_ro) sizeof_msg = {}"
  proof -
    have "unat a \<ge> 1000" if "a \<in> range_of 1000 6" for a
      using that by (auto simp: range_of_def unat_word_ariths unat_of_nat)
    moreover have "unat a < 1000" if "a \<in> range_of 11 102" for a
      using that by (auto simp: range_of_def unat_word_ariths unat_of_nat)
    ultimately have "range_of 1000 6 \<inter> range_of 11 102 = {}" by fastforce
    then show ?thesis by (simp add: sizeof_msg_def msg demo_ro_def)
  qed
  have "\<exists>s2. vfs_read (tfs_env demo_ro 0x10000) 0 5 1000 ?s1 = Some (5, s2) \<and> cstr (kmem s2) 1000 (chars ''Hello'')"
    using testfs_read_from_cursor [of demo_ro ?s1 0 "open_files ?s1 ! 0" 1 0 1000 5 "0x10000"] s0(4) demo_rodata len nfs dis msg
    by (auto simp: OF_READ_def sizeof_msg_def)
  moreover let ?s3 = "upd_file 0 (\<lambda>f. f\<lparr>cursor := 200\<rparr>) ?s1"
  have nfs3: "node_fs (Some 1) ?s3 \<noteq> None" using nfs by (simp add: node_fs_def)
  have "vfs_read (tfs_env demo_ro 0x10000) 0 5 1000 ?s3 = Some (-1, ?s3)"
    using testfs_read_from_cursor [of demo_ro ?s3 0 "open_files ?s3 ! 0" 1 200 1000 5 "0x10000"] s0(4) demo_rodata len nfs3 msg
    by (auto simp: OF_READ_def sizeof_msg_def)
  ultimately show ?thesis using s0(1) o by blast
qed

text \<open>
  A negative cursor is not caught. A relative seek backwards from the start of a file returns 0 and leaves one, and the next read then
  copies the memory that lies before the message.
\<close>

theorem testfs_read_before_message:
  assumes "0 \<le> fd" and "nat fd < length (open_files s)" and "f = open_files s ! nat fd" and "onode f = Some k" and "k < length (fsnodes s)"
    and "ntype (fsnodes s ! k) = FILE" and "omode f AND OF_READ \<noteq> 0" and "node_fs (Some k) s \<noteq> None" and "cursor f = 0" and "0 < d" and "d \<le> 2 ^ 63"
  shows "\<exists>s'. vfs_seek (tfs_env R base) fd (- int d) ANCH_REL s = Some (0, s') \<and> cursor (open_files s' ! nat fd) = - int d \<and>
    vfs_read (tfs_env R base) fd n buf s' = Some (int (min (unat n) sizeof_msg),
      s'\<lparr>kmem := snd (strncpy buf (msg_addr R - of_nat d) n (kmem s'))\<rparr>)"
proof -
  let ?s = "upd_file (nat fd) (\<lambda>f. f\<lparr>cursor := - int d\<rparr>) s"
  have "long_of (- int d) = - int d"
    using assms(11) unfolding long_of_def signed_of_int by (simp add: signed_take_bit_int_eq_self)
  moreover have "upd_file (nat fd) (\<lambda>f. f\<lparr>cursor := long_of ((if cursor f < 0 then 0 else cursor f) + - int d)\<rparr>) s = ?s"
    using assms(3,9) calculation by (simp add: upd_file_def)
  ultimately have s: "vfs_seek (tfs_env R base) fd (- int d) ANCH_REL s = Some (0, ?s)"
    using assms(1-8) by (auto simp: vfs_seek_def nth_int_def nth_opt_def tfs_env_def testfs_type_def tfs_seek_def)
  have "node_fs (Some k) ?s \<noteq> None" using assms(8) by (simp add: node_fs_def)
  then have "vfs_read (tfs_env R base) fd n buf ?s = Some (int (min (unat n) sizeof_msg),
      ?s\<lparr>kmem := snd (strncpy buf (msg_addr R - of_nat d) n (kmem ?s))\<rparr>)"
    using assms(1-7,10) by (auto simp: vfs_read_def nth_int_def nth_opt_def tfs_env_def testfs_type_def tfs_read_def)
  then show ?thesis using s assms(2) by (intro exI [of _ ?s]) simp
qed

end
