(* ===== verification/Syscall.thy ===== *)
theory Syscall
  imports TestFs
begin

text \<open>
  System calls: \<^verbatim>\<open>generic/fs/sys.c\<close> and \<^verbatim>\<open>generic/syscall.c\<close>. Each process has a table \<open>fdmap\<close> from its
  descriptors to global ones. The main result is that, over all sequences of system calls, process
  creations and switches, descriptors of processes never share an open file and never dangle.
\<close>

section \<open>Model\<close>

definition SYSCALL_VECTOR :: u8 where "SYSCALL_VECTOR = 0xf0"

definition PFD_VALID :: "int \<Rightarrow> bool" where
  "PFD_VALID pfd \<longleftrightarrow> pfd < int FDS_PER_PROC \<and> 0 \<le> pfd"

definition new_prepend_cwd :: "u64 \<Rightarrow> u64 \<Rightarrow> 'x kernel_scheme \<Rightarrow> (u64 \<times> 'x kernel_scheme) option" where
  "new_prepend_cwd cwd rel s = do {
    cwd_len \<leftarrow> strlen cwd (kmem s);
    rel_len \<leftarrow> strlen rel (kmem s);
    (full_path, h) \<leftarrow> kalloc (cwd_len + rel_len + 1) (kheap s);
    (if full_path = 0 then Some (0, s\<lparr>kheap := h\<rparr>)
     else do {
       (_, m1) \<leftarrow> strcpy full_path cwd (kmem s);
       (_, m2) \<leftarrow> strcpy (full_path + cwd_len) rel m1;
       Some (full_path, s\<lparr>kheap := h, kmem := m2\<rparr>) }) }"

definition find_free_proc_fd_in :: "int list \<Rightarrow> int" where
  "find_free_proc_fd_in fds = scan_from (\<lambda>fd. fd = -1) 0 fds"

definition find_free_proc_fd :: "int \<Rightarrow> 'x kernel_scheme \<Rightarrow> int option" where
  "find_free_proc_fd pid s =
    (if int MAX_PROCS \<le> pid then Some (-1)
     else do { p \<leftarrow> nth_int (procs s) pid; Some (find_free_proc_fd_in (fdmap p)) })"

definition set_fdmap :: "int \<Rightarrow> int \<Rightarrow> int \<Rightarrow> 'x kernel_scheme \<Rightarrow> 'x kernel_scheme" where
  "set_fdmap pid pfd fd s = s\<lparr>procs := (procs s)[nat pid := (procs s ! nat pid)\<lparr>fdmap := (fdmap (procs s ! nat pid))[nat pfd := fd]\<rparr>]\<rparr>"

text \<open>A panic does not return.\<close>

definition sys_open :: "boot_info \<Rightarrow> 'x kernel_scheme vfs_env \<Rightarrow> u64 \<Rightarrow> u32 \<Rightarrow> 'x kernel_scheme \<Rightarrow> (int \<times> 'x kernel_scheme) option" where
  "sys_open bi E path mode s = do {
    pfd \<leftarrow> find_free_proc_fd (current_proc s) s;
    (if pfd < 0 then Some (-1, s)
     else do {
       (full_path, s1) \<leftarrow> new_prepend_cwd (proc_cwd bi (nat (current_proc s)) s) path s;
       (if full_path = 0 then None
        else do {
          (fd, s2) \<leftarrow> vfs_open E (current_proc s1) full_path mode s1;
          h \<leftarrow> kfree full_path (kheap s2);
          let s3 = s2\<lparr>kheap := h\<rparr>;
          (if fd < 0 then Some (-1, s3) else Some (pfd, set_fdmap (current_proc s3) pfd fd s3)) }) }) }"

definition sys_close :: "'x kernel_scheme vfs_env \<Rightarrow> int \<Rightarrow> 'x kernel_scheme \<Rightarrow> (int \<times> 'x kernel_scheme) option" where
  "sys_close E pfd s =
    (if \<not> PFD_VALID pfd then Some (-1, s)
     else do {
       p \<leftarrow> nth_int (procs s) (current_proc s);
       fd \<leftarrow> nth_int (fdmap p) pfd;
       (if fd < 0 then Some (-1, s) else vfs_close E fd (set_fdmap (current_proc s) pfd (-1) s)) })"

definition sys_read :: "'x kernel_scheme vfs_env \<Rightarrow> int \<Rightarrow> u64 \<Rightarrow> u64 \<Rightarrow> 'x kernel_scheme \<Rightarrow> (int \<times> 'x kernel_scheme) option" where
  "sys_read E pfd num buff s =
    (if \<not> PFD_VALID pfd then Some (-1, s)
     else do {
       p \<leftarrow> nth_int (procs s) (current_proc s);
       fd \<leftarrow> nth_int (fdmap p) pfd;
       (if fd < 0 then Some (-1, s) else vfs_read E fd num buff s) })"

definition sys_write :: "'x kernel_scheme vfs_env \<Rightarrow> int \<Rightarrow> u64 \<Rightarrow> u64 \<Rightarrow> 'x kernel_scheme \<Rightarrow> (int \<times> 'x kernel_scheme) option" where
  "sys_write E pfd num buff s =
    (if \<not> PFD_VALID pfd then Some (-1, s)
     else do {
       p \<leftarrow> nth_int (procs s) (current_proc s);
       fd \<leftarrow> nth_int (fdmap p) pfd;
       (if fd < 0 then Some (-1, s) else vfs_write E fd num buff s) })"

text \<open>The arguments are the registers \<open>rax\<close>, \<open>rsi\<close>, \<open>rbx\<close> and \<open>rcx\<close>.\<close>

definition syscall_dispatch :: "boot_info \<Rightarrow> 'x kernel_scheme vfs_env \<Rightarrow> u64 \<Rightarrow> u64 \<Rightarrow> u64 \<Rightarrow> u64 \<Rightarrow> 'x kernel_scheme \<Rightarrow>
    (int \<times> 'x kernel_scheme) option" where
  "syscall_dispatch bi E vec p1 p2 p3 s =
    (if vec = 0 then sys_open bi E p1 (ucast p2) s
     else if vec = 1 then sys_close E (sint p2) s
     else if vec = 2 then sys_read E (sint p2) p3 p1 s
     else if vec = 3 then sys_write E (sint p2) p3 p1 s
     else Some (-1, s))"

text \<open>
  What happens to a running system: a system call of the current process, the creation of a process,
  a switch to a created process.
\<close>

inductive sys_step :: "boot_info \<Rightarrow> 'x kernel_scheme vfs_env \<Rightarrow> 'x kernel_scheme \<Rightarrow> 'x kernel_scheme \<Rightarrow> bool" for bi E where
  call: "syscall_dispatch bi E vec p1 p2 p3 s = Some (r, s') \<Longrightarrow> sys_step bi E s s'"
| create: "create_process bi pname entry arg stack usr s = Some (t, s') \<Longrightarrow> sys_step bi E s s'"
| switch: "t < length (procs s) \<Longrightarrow> present (procs s ! t) \<Longrightarrow> sys_step bi E s (s\<lparr>current_proc := int t\<rparr>)"

inductive sys_reach :: "boot_info \<Rightarrow> 'x kernel_scheme vfs_env \<Rightarrow> 'x kernel_scheme \<Rightarrow> 'x kernel_scheme \<Rightarrow> bool" for bi E where
  here: "sys_reach bi E s s"
| next_step: "sys_reach bi E s s1 \<Longrightarrow> sys_step bi E s1 s2 \<Longrightarrow> sys_reach bi E s s2"

inductive_cases sys_stepE: "sys_step bi E s s'"

section \<open>Descriptors\<close>

interpretation pf: slot_table "\<lambda>fd. fd = -1" find_free_proc_fd_in
  by unfold_locales (simp add: find_free_proc_fd_in_def)

text \<open>Descriptor \<open>j\<close> of the created process \<open>i\<close> is in use and stands for the global descriptor \<open>fd\<close>.\<close>

definition fd_in_use :: "'x kernel_scheme \<Rightarrow> nat \<Rightarrow> nat \<Rightarrow> int \<Rightarrow> bool" where
  "fd_in_use s i j fd \<longleftrightarrow> i < length (procs s) \<and> present (procs s ! i) \<and> j < FDS_PER_PROC \<and>
    fdmap (procs s ! i) ! j = fd \<and> fd \<noteq> -1"

definition fds_exclusive :: "'x kernel_scheme \<Rightarrow> bool" where
  "fds_exclusive s \<longleftrightarrow>
    (\<forall>i j fd. fd_in_use s i j fd \<longrightarrow> 0 \<le> fd \<and> nat fd < length (open_files s) \<and>
      onode (open_files s ! nat fd) \<noteq> None \<and> oproc (open_files s ! nat fd) = int i) \<and>
    (\<forall>i j i' j' fd. fd_in_use s i j fd \<longrightarrow> fd_in_use s i' j' fd \<longrightarrow> i = i' \<and> j = j')"

definition procs_ok :: "'x kernel_scheme \<Rightarrow> bool" where
  "procs_ok s \<longleftrightarrow> (\<forall>p \<in> set (procs s). present p \<longrightarrow> length (fdmap p) = FDS_PER_PROC) \<and>
    (current_proc s = -1 \<or> 0 \<le> current_proc s \<and> nat (current_proc s) < length (procs s) \<and> present (procs s ! nat (current_proc s)))"

definition fd_inv :: "'x kernel_scheme \<Rightarrow> bool" where
  "fd_inv s \<longleftrightarrow> refs_ok s \<and> node_ok (vfs_root s) s \<and> procs_ok s \<and> fds_exclusive s"

lemma fds_exclusive_cong:
  "procs s' = procs s \<Longrightarrow> open_files s' = open_files s \<Longrightarrow> fds_exclusive s' \<longleftrightarrow> fds_exclusive s"
  by (simp only: fds_exclusive_def fd_in_use_def)

lemma procs_ok_cong: "procs s' = procs s \<Longrightarrow> current_proc s' = current_proc s \<Longrightarrow> procs_ok s' \<longleftrightarrow> procs_ok s"
  by (simp only: procs_ok_def)

lemma nth_update_any: "xs[i := x] ! j = (if i = j \<and> j < length xs then x else xs ! j)"
  by (cases "i < length xs") (auto simp: nth_list_update list_update_beyond)

lemma find_free_fd_neg: "0 \<le> find_free_fd s \<longleftrightarrow> find_free_fd s \<noteq> -1"
  using scan_from_Some [of _ 0 _ "find_free_fd s"] by (fastforce simp: find_free_fd_def find_free_fd_in_def)

context fs_contract
begin

lemma vfs_open_files:
  assumes s: "refs_ok s" and r: "node_ok (vfs_root s) s" and o: "vfs_open E p path mode s = Some (fd, s')"
  shows "procs s' = procs s \<and> current_proc s' = current_proc s \<and> vfs_root s' = vfs_root s \<and> nodes_kept s s' \<and>
    (if fd < 0 then open_files s' = open_files s
     else fd = find_free_fd s \<and> fd \<noteq> -1 \<and> (\<exists>f. open_files s' = (open_files s)[nat fd := f] \<and> onode f \<noteq> None \<and> oproc f = p))"
proof -
  obtain par s1 where p: "find_parent_checkperm E (vfs_root s) path p s = Some (par, s1)"
    using o by (auto simp: vfs_open_def bind_eq_Some_conv)
  have p1: "refs_ok s1" "nodes_extend s s1" using find_parent_checkperm_refs [OF p s r] by simp_all
  show ?thesis
  proof (cases "s' = s1 \<and> fd = -1")
    case True
    with p1 show ?thesis by (auto simp: nodes_extend_def intro: nodes_kept_extend)
  next
    case False
    then obtain b node s2 where g: "get_node E par b s1 = Some (node, s2)" and n: "vfs_open_node E p mode node s2 = Some (fd, s')"
      using o p by (auto simp: vfs_open_def bind_eq_Some_conv split: if_splits)
    have "nodes_extend s1 s2" using g get_node_refs [OF p1(1)] by (auto simp: get_node_def split: if_splits)
    then have e: "nodes_extend s s2" using p1(2) nodes_extend_trans by blast
    show ?thesis
    proof (cases "0 \<le> fd")
      case True
      then obtain k f ret s3 where s3: "node = Some k" "f_open (fs_types E f) k s2 = Some (ret, s3)" "fd = find_free_fd s3"
          "s' = upd_node k (\<lambda>n. n\<lparr>ref_count := ref_count n + 1\<rparr>) (upd_file (nat fd) (\<lambda>_. \<lparr>onode = node, cursor = 0,
            omode = (if mode AND OF_APPEND \<noteq> 0 then mode OR OF_WRITE else mode), oproc = p\<rparr>) s3)"
        using vfs_open_node_ok [OF n] by blast
      have "nodes_extend s s3" using e same_tables_extend [OF open_frame [OF s3(2)]] nodes_extend_trans by blast
      then show ?thesis using True s3(1,3,4)
        by (auto simp: nodes_extend_def nodes_kept_def upd_node_def upd_file_def find_free_fd_def nth_update_any)
    next
      case False
      then have "same_tables s2 s'" using n
        by (auto simp: vfs_open_node_def Let_def bind_eq_Some_conv split: if_splits dest!: open_frame simp: find_free_fd_neg)
      then show ?thesis using e False by (auto simp: nodes_extend_def same_tables_def nodes_kept_def)
    qed
  qed
qed

lemma vfs_close_files:
  assumes c: "vfs_close E fd s = Some (r, s')"
  shows "procs s' = procs s \<and> current_proc s' = current_proc s \<and> nodes_kept s s' \<and>
    (\<forall>i. i \<noteq> nat fd \<longrightarrow> open_files s' ! i = open_files s ! i) \<and> length (open_files s') = length (open_files s)"
proof -
  have fd: "0 \<le> fd" "nat fd < length (open_files s)"
    using c by (auto simp: vfs_close_def bind_eq_Some_conv nth_int_Some)
  show ?thesis
  proof (cases "s' = s")
    case True
    then show ?thesis by (simp add: nodes_kept_def)
  next
    case False
    then obtain f n ret s1 where s1: "f_close (fs_types E f) (nat fd) s = Some (ret, s1)"
        and k: "s' = s1 \<or> s' = upd_file (nat fd) (\<lambda>f. f\<lparr>onode := None\<rparr>) (upd_node n (\<lambda>n. n\<lparr>ref_count := ref_count n - 1\<rparr>) s1)"
      using c fd by (auto simp: vfs_close_def nth_int_def nth_opt_def bind_eq_Some_conv Let_def split: option.splits if_splits)
    have "same_tables s s1" by (rule close_frame [OF s1])
    then show ?thesis using k by (auto simp: same_tables_def nodes_kept_def nth_update_any)
  qed
qed

lemma vfs_read_same: "vfs_read E fd nb buf s = Some (r, s') \<Longrightarrow> same_tables s s'"
  by (auto simp: vfs_read_def bind_eq_Some_conv same_tables_def split: if_splits dest!: read_frame)

lemma vfs_write_same: "vfs_write E fd nb buf s = Some (r, s') \<Longrightarrow> same_tables s s'"
  by (auto simp: vfs_write_def bind_eq_Some_conv same_tables_def split: if_splits dest!: write_frame)

end

lemma fd_inv_same: "fd_inv s \<Longrightarrow> same_tables s s' \<Longrightarrow> fd_inv s'"
  using refs_ok_same [of s s'] by (auto simp: fd_inv_def same_tables_def node_ok_def procs_ok_def fds_exclusive_def fd_in_use_def)

lemma procs_ok_set_fdmap:
  assumes "procs_ok s" and "0 \<le> current_proc s" and "nat (current_proc s) < length (procs s)"
  shows "procs_ok (set_fdmap (current_proc s) j fd s)"
proof -
  have "procs s ! nat (current_proc s) \<in> set (procs s)" using assms(3) by simp
  then show ?thesis using assms unfolding procs_ok_def set_fdmap_def
    by (auto simp: nth_update_any dest!: set_update_subset_insert [THEN subsetD])
qed

lemma fd_in_use_set_fdmap:
  assumes "i < length (procs s)" and "present (procs s ! i)" and "length (fdmap (procs s ! i)) = FDS_PER_PROC" and "j < FDS_PER_PROC"
  shows "fd_in_use (set_fdmap (int i) (int j) fd s) i' j' x \<longleftrightarrow>
    (if i' = i \<and> j' = j then x = fd \<and> fd \<noteq> -1 else fd_in_use s i' j' x)"
  using assms by (auto simp: fd_in_use_def set_fdmap_def nth_list_update)

lemma open_fds_exclusive:
  assumes x: "fds_exclusive s" and f: "0 \<le> fd" "nat fd < length (open_files s)" "onode (open_files s ! nat fd) = None"
    and s1: "procs s1 = procs s" "open_files s1 = (open_files s)[nat fd := f]" "onode f \<noteq> None" "oproc f = int i"
    and i: "i < length (procs s)" "present (procs s ! i)" "length (fdmap (procs s ! i)) = FDS_PER_PROC" "j < FDS_PER_PROC"
  shows "fds_exclusive (set_fdmap (int i) (int j) fd s1)"
proof -
  have u: "fd_in_use (set_fdmap (int i) (int j) fd s1) i' j' x \<longleftrightarrow>
      (if i' = i \<and> j' = j then x = fd \<and> fd \<noteq> -1 else fd_in_use s i' j' x)" for i' j' x
    using fd_in_use_set_fdmap [of i s1 j fd i' j' x] i s1(1) by (simp add: fd_in_use_def)
  have o: "open_files (set_fdmap (int i) (int j) fd s1) = (open_files s)[nat fd := f]" using s1(2) by (simp add: set_fdmap_def)
  have ne: "nat x \<noteq> nat fd" if "fd_in_use s i' j' x" for i' j' x using x f(3) that unfolding fds_exclusive_def by metis
  show ?thesis
    unfolding fds_exclusive_def u o using x f(1,2) s1(3,4)
    unfolding fds_exclusive_def by (auto simp: nth_update_any split: if_splits dest: ne)
qed

lemma close_fds_exclusive:
  assumes x: "fds_exclusive s" and u: "fd_in_use s i j fd" and len: "length (fdmap (procs s ! i)) = FDS_PER_PROC"
    and s1: "procs s1 = procs (set_fdmap (int i) (int j) (-1) s)" "length (open_files s1) = length (open_files s)"
      "\<forall>k. k \<noteq> nat fd \<longrightarrow> open_files s1 ! k = open_files s ! k"
  shows "fds_exclusive s1"
proof -
  have e: "fd_in_use s1 i' j' x \<longleftrightarrow> fd_in_use s i' j' x \<and> (i' \<noteq> i \<or> j' \<noteq> j)" for i' j' x
    using fd_in_use_set_fdmap [of i s j "-1" i' j' x] u len s1(1) by (auto simp: fd_in_use_def)
  have pos: "0 \<le> fd" using x u unfolding fds_exclusive_def by blast
  have ne: "nat x \<noteq> nat fd" if "fd_in_use s i' j' x" "i' \<noteq> i \<or> j' \<noteq> j" for i' j' x
    using x u that pos unfolding fds_exclusive_def by (metis eq_nat_nat_iff)
  show ?thesis
    unfolding fds_exclusive_def e using x s1(2,3) unfolding fds_exclusive_def by (metis ne)
qed

lemma new_prepend_cwd_frame:
  "new_prepend_cwd cwd rel s = Some (p, s1) \<Longrightarrow> \<exists>h m. s1 = s\<lparr>kheap := h, kmem := m\<rparr>"
  by (auto simp: new_prepend_cwd_def bind_eq_Some_conv split: if_splits) (rule exI, rule exI [of _ "kmem s"], simp)

lemma fd_inv_heap: "fd_inv s \<Longrightarrow> s1 = s\<lparr>kheap := h, kmem := m\<rparr> \<Longrightarrow> fd_inv s1"
  by (erule fd_inv_same) (simp add: same_tables_def)

context fs_contract
begin

lemma sys_open_inv:
  assumes s: "fd_inv s" and o: "sys_open bi E path mode s = Some (r, s')"
  shows "fd_inv s'"
proof (cases "s' = s")
  case False
  then obtain pfd fp s1 fd s2 h where a: "find_free_proc_fd (current_proc s) s = Some pfd" "\<not> pfd < 0"
      "new_prepend_cwd (proc_cwd bi (nat (current_proc s)) s) path s = Some (fp, s1)"
      "vfs_open E (current_proc s1) fp mode s1 = Some (fd, s2)"
      "s' = (if fd < 0 then s2\<lparr>kheap := h\<rparr> else set_fdmap (current_proc s2) pfd fd (s2\<lparr>kheap := h\<rparr>))"
    using o by (auto simp: sys_open_def bind_eq_Some_conv Let_def split: if_splits)
  obtain h' m' where s1: "s1 = s\<lparr>kheap := h', kmem := m'\<rparr>" using new_prepend_cwd_frame [OF a(3)] by blast
  have i1: "refs_ok s1" "node_ok (vfs_root s1) s1" "procs_ok s1" "fds_exclusive s1"
    using fd_inv_heap [OF s s1] by (simp_all add: fd_inv_def)
  have r2: "refs_ok (s2\<lparr>kheap := h\<rparr>)"
    by (rule refs_ok_same [OF _ vfs_open_refs [OF i1(1,2) a(4)]]) (simp add: same_tables_def)
  note f = vfs_open_files [OF i1(1,2) a(4)]
  have n2: "node_ok (vfs_root s2) s2" using f node_ok_kept i1(2) by metis
  show ?thesis
  proof (cases "fd < 0")
    case True
    then have "fds_exclusive (s2\<lparr>kheap := h\<rparr>)" "procs_ok (s2\<lparr>kheap := h\<rparr>)"
      using f i1(3,4) fds_exclusive_cong [of "s2\<lparr>kheap := h\<rparr>" s1] procs_ok_cong [of "s2\<lparr>kheap := h\<rparr>" s1] by simp_all
    then show ?thesis using True r2 n2 a(5) by (simp add: fd_inv_def node_ok_def)
  next
    case False
    then obtain g where g: "fd = find_free_fd s1" "fd \<noteq> -1" "open_files s2 = (open_files s1)[nat fd := g]" "onode g \<noteq> None" "oproc g = current_proc s1"
      using f by auto
    have cur: "0 \<le> current_proc s" "nat (current_proc s) < length (procs s)"
      using a(1,2) by (auto simp: find_free_proc_fd_def bind_eq_Some_conv nth_int_Some split: if_splits)
    let ?i = "nat (current_proc s)" and ?j = "nat pfd"
    have p: "present (procs s ! ?i)" "length (fdmap (procs s ! ?i)) = FDS_PER_PROC"
      using i1(3) cur s1 by (auto simp: procs_ok_def)
    have "pfd = find_free_proc_fd_in (fdmap (procs s ! ?i))"
      using a(1,2) cur by (auto simp: find_free_proc_fd_def nth_int_def nth_opt_def split: if_splits)
    then have j: "?j < FDS_PER_PROC" "int ?j = pfd" using pf.find_in_range [of "fdmap (procs s ! ?i)"] a(2) p(2) by auto
    note fr = find_free_fd_range [OF i1(1), folded g(1), OF g(2)]
    have "fds_exclusive (set_fdmap (int ?i) (int ?j) fd (s2\<lparr>kheap := h\<rparr>))"
      using i1(1) fr g f cur p j s1
      by (intro open_fds_exclusive [OF i1(4)]) (auto simp: refs_ok_def)
    moreover have "procs_ok (set_fdmap (current_proc (s2\<lparr>kheap := h\<rparr>)) pfd fd (s2\<lparr>kheap := h\<rparr>))"
      using i1(3) f cur s1 by (intro procs_ok_set_fdmap) (auto simp: procs_ok_def)
    moreover have "current_proc s2 = current_proc s" using f s1 by simp
    moreover have "refs_ok (set_fdmap x y z (s2\<lparr>kheap := h\<rparr>))" "node_ok (vfs_root s2) (set_fdmap x y z (s2\<lparr>kheap := h\<rparr>))" for x y z
      using r2 n2 by (simp_all add: refs_ok_def node_ok_def set_fdmap_def)
    ultimately show ?thesis using False a(5) cur j by (simp add: fd_inv_def set_fdmap_def)
  qed
qed (use s in simp)

lemma sys_close_inv:
  assumes s: "fd_inv s" and c: "sys_close E pfd s = Some (r, s')"
  shows "fd_inv s'"
proof (cases "s' = s")
  case False
  let ?i = "nat (current_proc s)" and ?j = "nat pfd"
  let ?s1 = "set_fdmap (current_proc s) pfd (-1) s"
  obtain fd where a: "PFD_VALID pfd" "0 \<le> current_proc s" "?i < length (procs s)" "fdmap (procs s ! ?i) ! ?j = fd" "\<not> fd < 0"
      "vfs_close E fd ?s1 = Some (r, s')"
    using c False by (auto simp: sys_close_def bind_eq_Some_conv nth_int_Some split: if_splits)
  have i: "refs_ok s" "node_ok (vfs_root s) s" "procs_ok s" "fds_exclusive s" using s by (simp_all add: fd_inv_def)
  have p: "present (procs s ! ?i)" "length (fdmap (procs s ! ?i)) = FDS_PER_PROC" using i(3) a(2,3) by (auto simp: procs_ok_def)
  have j: "?j < FDS_PER_PROC" "int ?j = pfd" using a(1) by (auto simp: PFD_VALID_def)
  have u: "fd_in_use s ?i ?j fd" using a p j by (simp add: fd_in_use_def)
  have r1: "refs_ok ?s1" "node_ok (vfs_root ?s1) ?s1" using i(1,2) by (simp_all add: refs_ok_def node_ok_def set_fdmap_def)
  note f = vfs_close_files [OF a(6)]
  have "fds_exclusive s'"
    using f j a(2) by (intro close_fds_exclusive [OF i(4) u p(2)]) (auto simp: set_fdmap_def)
  moreover have "procs_ok s'" using f procs_ok_cong [of s' ?s1] procs_ok_set_fdmap [OF i(3) a(2,3)] by simp
  moreover have "refs_ok s'" "node_ok (vfs_root s') s'"
    using vfs_close_refs [OF r1(1) a(6)] node_ok_kept [OF conjunct1 [OF conjunct2 [OF conjunct2 [OF f]]] r1(2)] f
    by (auto simp: nodes_kept_def set_fdmap_def)
  ultimately show ?thesis by (simp add: fd_inv_def)
qed (use s in simp)

lemma sys_read_inv: "fd_inv s \<Longrightarrow> sys_read E pfd num buff s = Some (r, s') \<Longrightarrow> fd_inv s'"
  by (auto simp: sys_read_def bind_eq_Some_conv split: if_splits dest: vfs_read_same intro: fd_inv_same)

lemma sys_write_inv: "fd_inv s \<Longrightarrow> sys_write E pfd num buff s = Some (r, s') \<Longrightarrow> fd_inv s'"
  by (auto simp: sys_write_def bind_eq_Some_conv split: if_splits dest: vfs_write_same intro: fd_inv_same)

end

lemma create_process_frame:
  assumes "create_process bi pname entry arg stack usr s = Some (t, s')"
  shows "fsnodes s' = fsnodes s \<and> fslinks s' = fslinks s \<and> open_files s' = open_files s \<and> vfs_root s' = vfs_root s \<and>
    current_proc s' = current_proc s"
  using assms by (auto simp: create_process_def Let_def bind_eq_Some_conv case_prod_beta split: if_splits)

lemma create_process_inv:
  assumes s: "fd_inv s" and c: "create_process bi pname entry arg stack usr s = Some (t, s')"
  shows "fd_inv s'"
proof (cases "find_free_tid s < 0")
  case True
  then show ?thesis using c s by (simp add: create_process_def Let_def)
next
  case False
  let ?t = "nat (find_free_tid s)"
  obtain q where q: "procs s' = (procs s)[?t := q]" "fdmap q = replicate FDS_PER_PROC (-1)"
    using create_process_cases [OF c] False by force
  note s' = create_process_frame [OF c]
  have free: "find_free_tid_in (procs s) \<noteq> -1" using False by (auto simp: find_free_tid_def)
  have t: "?t < length (procs s)" "\<not> present (procs s ! ?t)"
    using pt.find_in_range [OF free] pt.find_is_free [OF free] by (simp_all add: find_free_tid_def)
  have i: "refs_ok s" "node_ok (vfs_root s) s" "procs_ok s" "fds_exclusive s" using s by (simp_all add: fd_inv_def)
  have u: "fd_in_use s' i j fd \<longleftrightarrow> fd_in_use s i j fd" for i j fd
    using t q by (cases "i = ?t") (auto simp: fd_in_use_def nth_list_update)
  have "fds_exclusive s'" using i(4) s' unfolding fds_exclusive_def u by simp
  moreover have "procs_ok s'"
    using i(3) q t s' unfolding procs_ok_def by (auto simp: nth_list_update dest!: set_update_subset_insert [THEN subsetD])
  ultimately show ?thesis using i(1,2) s' by (simp add: fd_inv_def refs_ok_def node_ok_def)
qed

lemma switch_inv: "fd_inv s \<Longrightarrow> t < length (procs s) \<Longrightarrow> present (procs s ! t) \<Longrightarrow> fd_inv (s\<lparr>current_proc := int t\<rparr>)"
  by (auto simp: fd_inv_def procs_ok_def refs_ok_def node_ok_def fds_exclusive_cong [of "s\<lparr>current_proc := int t\<rparr>" s])

context fs_contract
begin

lemma sys_call_inv:
  assumes "fd_inv s" and "syscall_dispatch bi E vec p1 p2 p3 s = Some (r, s')"
  shows "fd_inv s'"
proof -
  consider "sys_open bi E p1 (ucast p2) s = Some (r, s')" | "sys_close E (sint p2) s = Some (r, s')"
    | "sys_read E (sint p2) p3 p1 s = Some (r, s')" | "sys_write E (sint p2) p3 p1 s = Some (r, s')" | "s' = s"
    using assms(2) unfolding syscall_dispatch_def by (metis option.inject prod.inject)
  then show ?thesis
    by cases (erule sys_open_inv [OF assms(1)] sys_close_inv [OF assms(1)] sys_read_inv [OF assms(1)]
        sys_write_inv [OF assms(1)] | simp add: assms(1))+
qed

lemma sys_step_inv: "sys_step bi E s s' \<Longrightarrow> fd_inv s \<Longrightarrow> fd_inv s'"
  by (elim sys_stepE) (erule (1) sys_call_inv, erule (1) create_process_inv, simp add: switch_inv)

lemma sys_reach_inv: "sys_reach bi E s s' \<Longrightarrow> fd_inv s \<Longrightarrow> fd_inv s'"
  by (induction rule: sys_reach.induct) (auto dest: sys_step_inv)

end

section \<open>Paths\<close>

lemma strcpy_cstr:
  assumes "cstr m src xs" and "range_of dest (Suc (length xs)) \<inter> range_of src (Suc (length xs)) = {}"
  shows "\<exists>m'. strcpy dest src m = Some (dest, m') \<and> cstr m' dest xs \<and>
    (\<forall>a. a \<notin> range_of dest (Suc (length xs)) \<longrightarrow> m' a = m a)"
  using stpcpy_cstr [OF assms] by (auto simp: strcpy_def)

text \<open>The addresses of the kernel heap.\<close>

definition heap_area :: "buddy_allocator \<Rightarrow> u64 set" where
  "heap_area a = {p. unat (memory_start a) \<le> unat p \<and> unat p < unat (memory_start a) + 2 ^ max_order a}"

lemma heap_top: "heap_ok a fl A \<Longrightarrow> unat (memory_start a) + 2 ^ max_order a \<le> 2 ^ 64"
proof -
  assume "heap_ok a fl A"
  then have d: "2 ^ max_order a dvd unat (memory_start a)" and m: "max_order a \<le> 29" by (auto simp: heap_ok_def params_ok_def)
  obtain q where q: "unat (memory_start a) = 2 ^ max_order a * q" using d by blast
  have e: "(2 :: nat) ^ 64 = 2 ^ max_order a * 2 ^ (64 - max_order a)" using m by (simp flip: power_add)
  have "2 ^ max_order a * q < 2 ^ max_order a * 2 ^ (64 - max_order a)"
    using unsigned_less [of "memory_start a", where 'a = nat] q e by simp
  then have "Suc q \<le> 2 ^ (64 - max_order a)" by (simp add: Suc_le_eq)
  then have "2 ^ max_order a * Suc q \<le> 2 ^ max_order a * 2 ^ (64 - max_order a)" by (rule mult_le_mono2)
  then show ?thesis using q e by simp
qed

lemma block_data:
  assumes ok: "heap_ok a fl A" and b: "(x, k) \<in> A" and n: "24 + n \<le> 2 ^ k"
  shows "p \<in> range_of (x + 24) n \<Longrightarrow> unat p \<in> blk_range (x, k) \<and> p \<in> heap_area a"
proof -
  assume "p \<in> range_of (x + 24) n"
  then obtain i where i: "i < n" "p = x + of_nat (24 + i)" by (auto simp: range_of_def add.assoc)
  have sub: "blk_range (x, k) \<subseteq> {unat (memory_start a) ..< unat (memory_start a) + 2 ^ max_order a}"
    using ok b unfolding heap_ok_def tiling_def by blast
  have "unat x + (24 + i) \<in> blk_range (x, k)" using i(1) n by (simp add: blk_range_def)
  moreover from this sub have "unat x + (24 + i) < 2 ^ 64" using heap_top [OF ok] by fastforce
  then have "unat p = unat x + (24 + i)" unfolding i(2) by (simp only: unat_word_ariths unat_of_nat) simp
  ultimately show ?thesis using sub by (auto simp: heap_area_def)
qed

lemma cstr_append:
  assumes "bytes_at m p (length xs) = xs" and "0 \<notin> set xs" and "cstr m (p + of_nat (length xs)) ys"
  shows "cstr m p (xs @ ys)"
  using assms
proof (induction xs arbitrary: p)
  case (Cons x xs)
  then show ?case by (simp add: bytes_at_Suc add.assoc)
qed simp

lemma copy_two:
  assumes x: "cstr m cwd xs" and y: "cstr m rel ys"
    and d: "range_of p (Suc (length xs + length ys)) \<inter> (range_of cwd (Suc (length xs)) \<union> range_of rel (Suc (length ys))) = {}"
    and l: "Suc (length xs + length ys) \<le> 2 ^ 64"
  shows "\<exists>m1 m2. strcpy p cwd m = Some (p, m1) \<and> strcpy (p + of_nat (length xs)) rel m1 = Some (p + of_nat (length xs), m2) \<and>
    cstr m2 p (xs @ ys) \<and> (\<forall>a. a \<notin> range_of p (Suc (length xs + length ys)) \<longrightarrow> m2 a = m a)"
proof -
  let ?q = "p + of_nat (length xs)"
  have dec: "range_of p (Suc (length xs + length ys)) = range_of p (length xs) \<union> range_of ?q (Suc (length ys))"
    using range_of_add [of p "length xs" "Suc (length ys)"] by simp
  have sub: "range_of p (Suc (length xs)) \<subseteq> range_of p (Suc (length xs + length ys))" by (rule range_of_mono) simp
  obtain m1 where m1: "strcpy p cwd m = Some (p, m1)" "cstr m1 p xs" "\<forall>a. a \<notin> range_of p (Suc (length xs)) \<longrightarrow> m1 a = m a"
    using strcpy_cstr [OF x, of p] d sub by blast
  have y1: "cstr m1 rel ys" by (rule cstr_cong [OF y]) (use m1(3) d sub in blast)
  obtain m2 where m2: "strcpy ?q rel m1 = Some (?q, m2)" "cstr m2 ?q ys" "\<forall>a. a \<notin> range_of ?q (Suc (length ys)) \<longrightarrow> m2 a = m1 a"
    using strcpy_cstr [OF y1, of ?q] d dec by blast
  have "length xs + Suc (length ys) \<le> 2 ^ 64" using l by (simp only: add_Suc_right)
  then have "range_of p (length xs) \<inter> range_of ?q (Suc (length ys)) = {}" by (rule range_of_disjoint)
  then have "bytes_at m2 p (length xs) = bytes_at m1 p (length xs)" using m2(3) by (intro bytes_at_cong) blast
  then have "cstr m2 p (xs @ ys)" using m1(2) m2(2) by (intro cstr_append) (simp_all add: cstr_iff)
  moreover have "m2 a = m a" if "a \<notin> range_of p (Suc (length xs + length ys))" for a
  proof -
    have "a \<notin> range_of p (Suc (length xs))" using that sub by (rule contra_subsetD [rotated])
    moreover have "a \<notin> range_of ?q (Suc (length ys))" using that unfolding dec by simp
    ultimately show ?thesis using m1(3) m2(3) by simp
  qed
  ultimately show ?thesis using m1(1) m2(1) by blast
qed

lemma kalloc_cases:
  assumes ok: "heap_ok a fl A" and n: "n \<noteq> 0" "n \<le> bsize a"
  shows "case kalloc n a of None \<Rightarrow> \<forall>b \<in> free_blocks a fl. 2 ^ snd b < unat n + 24
    | Some (p, a') \<Rightarrow> \<exists>x k fl'. p = x + 24 \<and> same_params a a' \<and> heap_ok a' fl' (insert (x, k) A) \<and> unat n + 24 \<le> 2 ^ k \<and> (x, k) \<notin> A"
proof -
  obtain i where i: "min_order a + i \<le> 30" "unat n + 24 \<le> 2 ^ (min_order a + i)" "i = 0 \<or> 2 ^ (min_order a + i - 1) < unat n + 24"
      "round_size (n + sizeof_buddy_block) (min_order a) = Some (push_bit (min_order a + i) 1)"
    using balloc_order [OF assms] by blast
  note b = balloc_block [OF assms i(1,4)]
  show ?thesis
  proof (cases "\<exists>b \<in> free_blocks a fl. min_order a + i \<le> snd b")
    case True
    then obtain x a' fl' where "kalloc n a = Some (x + 24, a')" "same_params a a'" "heap_ok a' fl' (insert (x, min_order a + i) A)"
        "(x, min_order a + i) \<notin> A"
      using b by (auto simp: kalloc_def sizeof_buddy_block_def)
    then show ?thesis using i(2) by auto
  next
    case False
    have "2 ^ snd c < unat n + 24" if c: "c \<in> free_blocks a fl" for c
    proof -
      have lt: "snd c < min_order a + i" using False c by auto
      moreover have "min_order a \<le> snd c" using c by (auto simp: free_blocks_def)
      ultimately have "2 ^ (min_order a + i - 1) < unat n + 24" using i(3) by auto
      moreover have "(2 :: nat) ^ snd c \<le> 2 ^ (min_order a + i - 1)" using lt by (intro power_increasing) auto
      ultimately show ?thesis by linarith
    qed
    then show ?thesis using b False by (simp add: kalloc_def)
  qed
qed

text \<open>The number of bytes for two strings put together.\<close>

definition path_size :: "u8 list \<Rightarrow> u8 list \<Rightarrow> u64" where
  "path_size xs ys = of_nat (length xs) + of_nat (length ys) + 1"

lemma path_size_ok:
  assumes "length xs + length ys + 1 \<le> unat (b :: u64)"
  shows "unat (path_size xs ys) = length xs + length ys + 1" "path_size xs ys \<noteq> 0" "path_size xs ys \<le> b"
proof -
  have "length xs + length ys + 1 < 2 ^ 64" using assms unsigned_less [of b, where 'a = nat] by simp
  moreover have "path_size xs ys = of_nat (length xs + length ys + 1)" by (simp add: path_size_def)
  ultimately show un: "unat (path_size xs ys) = length xs + length ys + 1" by (simp only: unat_of_nat) simp
  show "path_size xs ys \<noteq> 0" "path_size xs ys \<le> b" using un assms by (auto simp: word_le_nat_alt)
qed

lemma new_prepend_cwd_alloc:
  assumes ok: "heap_ok (kheap s) fl A" and x: "cstr (kmem s) cwd xs" and y: "cstr (kmem s) rel ys"
    and out: "(range_of cwd (Suc (length xs)) \<union> range_of rel (Suc (length ys))) \<inter> heap_area (kheap s) = {}"
    and len: "length xs + length ys + 1 \<le> unat (bsize (kheap s))" and al: "kalloc (path_size xs ys) (kheap s) = Some (p, h)"
  shows "\<exists>b k fl' m. p = b + 24 \<and> 0 \<notin> range_of p (Suc (length xs + length ys)) \<and>
    new_prepend_cwd cwd rel s = Some (p, s\<lparr>kheap := h, kmem := m\<rparr>) \<and>
    heap_ok h fl' (insert (b, k) A) \<and> (b, k) \<notin> A \<and> cstr m p (xs @ ys) \<and>
    (\<forall>a. unat a \<in> blk_range (b, k) \<or> m a = kmem s a) \<and> (\<forall>a. a \<in> heap_area (kheap s) \<or> m a = kmem s a)"
proof -
  note sz = path_size_ok [OF len]
  obtain b k fl' where k: "p = b + 24" "same_params (kheap s) h" "heap_ok h fl' (insert (b, k) A)" "length xs + length ys + 25 \<le> 2 ^ k" "(b, k) \<notin> A"
    using kalloc_cases [OF ok sz(2,3)] al sz(1) by auto
  have k24: "24 + Suc (length xs + length ys) \<le> 2 ^ k" using k(4) by simp
  note dat = block_data [OF k(3) insertI1 k24, folded k(1)]
  have area: "heap_area h = heap_area (kheap s)" using k(2) by (simp add: heap_area_def same_params_def)
  have dis: "range_of p (Suc (length xs + length ys)) \<inter> (range_of cwd (Suc (length xs)) \<union> range_of rel (Suc (length ys))) = {}"
    using dat out area by blast
  have "memory_start h \<noteq> 0" using k(3) by (simp add: heap_ok_def params_ok_def)
  then have "0 \<notin> heap_area h" by (auto simp: heap_area_def unat_eq_0)
  then have nz: "0 \<notin> range_of p (Suc (length xs + length ys))" using dat by blast
  then have "p \<noteq> 0" by (auto simp: range_of_Suc)
  have "Suc (length xs + length ys) \<le> 2 ^ 64" using len unsigned_less [of "bsize (kheap s)", where 'a = nat] by simp
  then obtain m1 m2 where m: "strcpy p cwd (kmem s) = Some (p, m1)" "strcpy (p + of_nat (length xs)) rel m1 = Some (p + of_nat (length xs), m2)"
      "cstr m2 p (xs @ ys)" "\<forall>a. a \<notin> range_of p (Suc (length xs + length ys)) \<longrightarrow> m2 a = kmem s a"
    using copy_two [OF x y dis] by auto
  have "new_prepend_cwd cwd rel s = Some (p, s\<lparr>kheap := h, kmem := m2\<rparr>)"
    using \<open>p \<noteq> 0\<close> m(1,2) al by (simp add: new_prepend_cwd_def strlen_cstr [OF x] strlen_cstr [OF y] path_size_def)
  moreover have "unat a \<in> blk_range (b, k) \<or> m2 a = kmem s a" and "a \<in> heap_area (kheap s) \<or> m2 a = kmem s a" for a
    using m(4) dat area by blast+
  ultimately show ?thesis using k(1,3,5) m(3) nz by blast
qed

section \<open>Properties\<close>

text \<open>
  C5: Descriptors are exclusive. From the mounted root and an empty process table, over any sequence of
  system calls (with any arguments), process creations and switches to created processes, every
  descriptor of a created process that is in use stands for an open file that this process opened, and
  no two descriptors, of one process or of two, stand for the same open file.
\<close>

theorem sys_descriptors_exclusive:
  assumes "zero_tables s" and "rodata_ok R (kmem s)" and "mount_root R base s = Some s0"
    and "\<forall>p \<in> set (procs s0). \<not> present p" and "current_proc s0 = -1" and "sys_reach bi (tfs_env R base) s0 s'"
  shows "fds_exclusive s'"
proof -
  obtain s1 where "mount_root R base s = Some s1" "refs_ok s1" "root_ready R 0 s1"
    using mount_root_ready [OF assms(1,2)] by blast
  then have "refs_ok s0" "node_ok (vfs_root s0) s0" using assms(3) by (auto simp: root_ready_def node_ok_def Let_def)
  moreover have "procs_ok s0" using assms(4,5) by (simp add: procs_ok_def)
  moreover have "\<not> fd_in_use s0 i j fd" for i j fd using assms(4) by (auto simp: fd_in_use_def)
  then have "fds_exclusive s0" by (simp add: fds_exclusive_def)
  ultimately have "fd_inv s0" by (simp add: fd_inv_def)
  then show ?thesis using tf.sys_reach_inv [OF assms(6)] by (simp add: fd_inv_def)
qed

theorem sys_descriptors_exclusive_witness:
  "\<exists>s0 s1 s'. mount_root demo_ro 0x10000 (demo_kernel\<lparr>procs := [free_proc], current_proc := -1\<rparr>) = Some s0 \<and>
    create_process demo_boot 1 0x5000 7 0x9000 False s0 = Some (0, s1) \<and>
    syscall_dispatch demo_boot (tfs_env demo_ro 0x10000) 1 0 3 0 (s1\<lparr>current_proc := 0\<rparr>) = Some (-1, s') \<and> fds_exclusive s'"
proof -
  let ?s = "demo_kernel\<lparr>procs := [free_proc], current_proc := -1\<rparr>" and ?E = "tfs_env demo_ro 0x10000"
  have z: "zero_tables ?s" "rodata_ok demo_ro (kmem ?s)"
    using demo_rodata by (simp_all add: zero_tables_def demo_kernel_def)
  obtain s0 where s0: "mount_root demo_ro 0x10000 ?s = Some s0" using mount_root_ready [OF z] by blast
  have p0: "procs s0 = [free_proc]" "current_proc s0 = -1"
    using s0 by (auto simp: mount_root_def get_node_byid_def tfs_ops bind_eq_Some_conv nth_opt_Some Let_def split: if_splits)
  have t0: "find_free_tid s0 = 0" by (simp add: find_free_tid_def find_free_tid_in_def p0 free_proc_def)
  obtain s1 where s1: "create_process demo_boot 1 0x5000 7 0x9000 False s0 = Some (0, s1)"
    using create_kernel_process_returns [of s0 demo_boot 1 "0x5000" 7 "0x9000"] t0 by auto
  obtain c where p1: "procs s1 = [free_proc\<lparr>tid := 0, present := True, pstatus := PROC_READY, fdmap := replicate FDS_PER_PROC (-1), ctx := c\<rparr>]"
    using create_process_cases(3) [OF s1] t0 p0 by auto
  let ?s2 = "s1\<lparr>current_proc := 0\<rparr>"
  have d: "syscall_dispatch demo_boot ?E 1 0 3 0 ?s2 = Some (-1, ?s2)"
    by (simp add: syscall_dispatch_def sys_close_def PFD_VALID_def FDS_PER_PROC_def nth_int_def nth_opt_def p1)
  have "sys_reach demo_boot ?E s0 s1" using s1 by (blast intro: sys_reach.intros sys_step.create)
  moreover have "sys_step demo_boot ?E s1 ?s2" using sys_step.switch [of 0 s1 demo_boot ?E] p1 by simp
  moreover have "sys_step demo_boot ?E ?s2 ?s2" using d by (rule sys_step.call)
  ultimately have "sys_reach demo_boot ?E s0 ?s2" by (blast intro: sys_reach.next_step)
  from sys_descriptors_exclusive [OF z s0 _ p0(2) this] p0(1) have "fds_exclusive ?s2" by (simp add: free_proc_def)
  with s0 s1 d show ?thesis by blast
qed

text \<open>
  C19: \<open>new_prepend_cwd\<close> makes the full path. In a well-formed heap, for strings outside of it, the result
  is a fresh block that holds the two strings one after the other; the heap stays well formed with that
  block allocated, and no byte outside of the block changes. The call does not return only if no free
  block has room for the path.
\<close>

theorem new_prepend_cwd_concatenates:
  assumes ok: "heap_ok (kheap s) fl A" and x: "cstr (kmem s) cwd xs" and y: "cstr (kmem s) rel ys"
    and out: "(range_of cwd (Suc (length xs)) \<union> range_of rel (Suc (length ys))) \<inter> heap_area (kheap s) = {}"
    and len: "length xs + length ys + 1 \<le> unat (bsize (kheap s))"
  shows "case new_prepend_cwd cwd rel s of
      None \<Rightarrow> \<forall>b \<in> free_blocks (kheap s) fl. 2 ^ snd b < length xs + length ys + 25
    | Some (p, s1) \<Rightarrow> \<exists>x k fl'. p = x + 24 \<and> heap_ok (kheap s1) fl' (insert (x, k) A) \<and> (x, k) \<notin> A \<and>
        cstr (kmem s1) p (xs @ ys) \<and> (\<forall>a. unat a \<in> blk_range (x, k) \<or> kmem s1 a = kmem s a)"
proof (cases "kalloc (path_size xs ys) (kheap s)")
  case None
  then have "new_prepend_cwd cwd rel s = None"
    by (simp add: new_prepend_cwd_def strlen_cstr [OF x] strlen_cstr [OF y] path_size_def)
  then show ?thesis using None kalloc_cases [OF ok path_size_ok(2,3) [OF len]] path_size_ok(1) [OF len] by (simp add: add.commute)
next
  case (Some ph)
  then show ?thesis using new_prepend_cwd_alloc [OF assms] by (cases ph) fastforce
qed

definition path_kernel :: kernel where
  "path_kernel = demo_kernel\<lparr>kmem := (\<lambda>_. 0)(10 := 47, 20 := 97, 21 := 98), kheap := heap_one_free\<rparr>"

theorem new_prepend_cwd_concatenates_witness:
  "\<exists>p s1. new_prepend_cwd 10 20 path_kernel = Some (p, s1) \<and> cstr (kmem s1) p [47, 97, 98]"
proof -
  have h: "kheap path_kernel = heap_one_free" "cstr (kmem path_kernel) 10 [47]" "cstr (kmem path_kernel) 20 [97, 98]"
    by (simp_all add: path_kernel_def)
  have area: "heap_area heap_one_free = {p. 64 \<le> unat p \<and> unat p < 128}" by (simp add: heap_area_def heap_one_free_def)
  have out: "(range_of 10 (Suc (length [47 :: u8])) \<union> range_of 20 (Suc (length [97 :: u8, 98]))) \<inter> heap_area (kheap path_kernel) = {}"
    by (auto simp: h area range_of_Suc)
  have len: "length [47 :: u8] + length [97 :: u8, 98] + 1 \<le> unat (bsize (kheap path_kernel))" by (simp add: h heap_one_free_def)
  have fb: "(64, 6) \<in> free_blocks heap_one_free ((\<lambda>_. [])(1 := [64]))"
    by (simp add: free_blocks_iff heap_one_free_def BUDDY_NUM_LISTS_def)
  note t = new_prepend_cwd_concatenates [OF heap_one_free [folded h(1)] h(2,3) out len]
  then have "new_prepend_cwd 10 20 path_kernel \<noteq> None" using fb h(1) by (auto split: option.splits)
  then show ?thesis using t by (auto split: option.splits)
qed

end
