(* ===== verification/Printk.thy ===== *)
theory Printk
  imports CString "HOL-Library.Signed_Division"
begin

text \<open>
  Formatted output, \<^verbatim>\<open>generic/printk.c\<close>. A pointer into the format string is the list of the bytes from
  there to the terminating NUL, the arguments are 64-bit words, and the result of a routine is
  the list of the bytes it hands to \<open>kputc\<close> and \<open>kputs\<close>. \<^verbatim>\<open>PRINTK_HIGHLIGHT_FORMATS\<close> is defined in
  \<^verbatim>\<open>fors/printk.h\<close>. Field width and precision are an \<^verbatim>\<open>int\<close>, a 32-bit word read with \<open>sint\<close>. The parser does not guard
  their digits: an overflow is undefined in C and wraps around here, and the theorems say up to which numbers they hold.
\<close>

section \<open>Model\<close>

definition ch :: "char \<Rightarrow> u8" where
  "ch c = of_char c"

definition PRINTK_I64_BUF_LEN :: nat where "PRINTK_I64_BUF_LEN = 64"
definition PRINTK_U64_HEX_LEN :: nat where "PRINTK_U64_HEX_LEN = 16"

datatype conv_state = START | FLAGS | FIELD_WIDTH | PRECISION | LENGTH_MODIFIER | CONVSPEC

datatype len_modifier = lm_NONE | lm_hh | lm_h | lm_l | lm_ll | lm_z

record conversion_specifier =
  alternate_form :: bool
  zero_padded :: bool
  left_adjusted :: bool
  positive_pad :: bool
  always_sign :: bool
  field_width :: u32
  precision :: u32
  lenmod :: len_modifier
  convspec :: u8

lemma sdiv_10_smaller: "x \<noteq> 0 \<Longrightarrow> \<bar>x sdiv 10\<bar> < \<bar>x\<bar>" for x :: int
  by (simp add: signed_divide_int_def abs_mult)

text \<open>\<^verbatim>\<open>/\<close> and \<^verbatim>\<open>%\<close> of C truncate towards zero.\<close>

function fill_digits :: "int \<Rightarrow> nat \<Rightarrow> u8 list \<Rightarrow> u8 list" where
  "fill_digits x i buf =
    (if x = 0 then buf else fill_digits (x sdiv 10) (i - 1) (buf[i := word_of_int (x smod 10)]))"
  by pat_completeness auto
termination
  by (relation "measure (\<lambda>(x, i, buf). nat \<bar>x\<bar>)") (auto simp: sdiv_10_smaller)

fun i64_out :: "conversion_specifier \<Rightarrow> bool \<Rightarrow> u8 list \<Rightarrow> u8 list" where
  "i64_out spec leading_done [] = []"
| "i64_out spec leading_done (d # ds) =
    (let lead = (leading_done \<or> d \<noteq> 0)
     in (if int (length (d # ds)) \<le> sint (precision spec) \<or> lead \<or> ds = [] then [ch CHR ''0'' + d]
         else if int (length (d # ds)) \<le> sint (field_width spec) then [ch CHR '' '']
         else []) @ i64_out spec lead ds)"

definition print_i64 :: "u64 \<Rightarrow> conversion_specifier \<Rightarrow> u8 list" where
  "print_i64 x spec =
    (let buf = replicate PRINTK_I64_BUF_LEN 0;
         (sgn, x1) = (if sint x < 0 then ([ch CHR ''-''], x * (-1))
                      else if always_sign spec then ([ch CHR ''+''], x) else ([], x));
         buf1 = fill_digits (sint x1) (PRINTK_I64_BUF_LEN - 1) buf
     in sgn @ i64_out spec False buf1)"

definition hex_digits :: "u8 list" where
  "hex_digits = map ch ''0123456789abcdef''"

fun hex_out :: "u64 \<Rightarrow> conversion_specifier \<Rightarrow> bool \<Rightarrow> nat \<Rightarrow> u8 list" where
  "hex_out x spec leading_done 0 = []"
| "hex_out x spec leading_done (Suc i) =
    (let ind = unat (drop_bit (4 * i) x AND 0xf);
         lead = (leading_done \<or> ind \<noteq> 0)
     in (if int PRINTK_U64_HEX_LEN - int i \<le> sint (precision spec) \<or> lead \<or> i = 0 then [hex_digits ! ind] else [])
        @ hex_out x spec lead i)"

definition print_u64_hex :: "u64 \<Rightarrow> bool \<Rightarrow> conversion_specifier \<Rightarrow> u8 list" where
  "print_u64_hex x uppercase spec =
    (if alternate_form spec then (if uppercase then map ch ''0X'' else map ch ''0x'') else [])
      @ hex_out x spec False PRINTK_U64_HEX_LEN"

definition char_is_specifier :: "u8 \<Rightarrow> bool" where
  "char_is_specifier c \<longleftrightarrow> c \<in> set (map ch ''duxXcsp%'')"

definition char_is_flag :: "u8 \<Rightarrow> bool" where
  "char_is_flag c \<longleftrightarrow> c \<in> set (map ch ''#0- +'')"

definition char_is_digit :: "u8 \<Rightarrow> bool" where
  "char_is_digit c \<longleftrightarrow> sint (ch CHR ''0'') \<le> sint c \<and> sint c \<le> sint (ch CHR ''9'')"

definition defaults_from_convspec :: "u8 \<Rightarrow> conversion_specifier \<Rightarrow> conversion_specifier" where
  "defaults_from_convspec c spec =
    (if c = ch CHR ''p'' then spec\<lparr>precision := 16, alternate_form := True\<rparr> else spec)"

definition set_flag :: "u8 \<Rightarrow> conversion_specifier \<Rightarrow> conversion_specifier" where
  "set_flag c spec =
    (if c = ch CHR ''#'' then spec\<lparr>alternate_form := True\<rparr>
     else if c = ch CHR ''0'' then spec\<lparr>zero_padded := True\<rparr>
     else if c = ch CHR ''-'' then spec\<lparr>left_adjusted := True\<rparr>
     else if c = ch CHR '' '' then spec\<lparr>positive_pad := True\<rparr>
     else if c = ch CHR ''+'' then spec\<lparr>always_sign := True\<rparr>
     else spec)"

definition spec_init :: conversion_specifier where
  "spec_init = \<lparr>alternate_form = False, zero_padded = False, left_adjusted = False, positive_pad = False,
    always_sign = False, field_width = 0, precision = 0, lenmod = lm_NONE, convspec = 0\<rparr>"

text \<open>Each state before the last may be left without advancing: the measure counts that.\<close>

fun state_rank :: "conv_state \<Rightarrow> nat" where
  "state_rank START = 5" | "state_rank FLAGS = 4" | "state_rank FIELD_WIDTH = 3"
| "state_rank PRECISION = 2" | "state_rank LENGTH_MODIFIER = 1" | "state_rank CONVSPEC = 0"

text \<open>
  The loop of \<open>parse_conversion\<close>. Its condition \<^verbatim>\<open>*c\<close> is the pattern \<open>c # cs\<close>; the result is the pointer
  returned (\<open>None\<close> is NULL) and the specifier.
\<close>

function parse_loop :: "conv_state \<Rightarrow> bool \<Rightarrow> conversion_specifier \<Rightarrow> u8 list \<Rightarrow>
    u8 list option \<times> conversion_specifier" where
  "parse_loop state precision_begun spec [] = (None, spec)"
| "parse_loop START precision_begun spec (c # cs) =
    (if c = ch CHR ''%'' then parse_loop FLAGS precision_begun spec cs else (None, spec))"
| "parse_loop FLAGS precision_begun spec (c # cs) =
    (if \<not> char_is_flag c then parse_loop FIELD_WIDTH precision_begun spec (c # cs)
     else parse_loop FLAGS precision_begun (set_flag c spec) cs)"
| "parse_loop FIELD_WIDTH precision_begun spec (c # cs) =
    (if \<not> char_is_digit c then parse_loop PRECISION precision_begun spec (c # cs)
     else parse_loop FIELD_WIDTH precision_begun
       (spec\<lparr>field_width := field_width spec * 10 + (scast c - scast (ch CHR ''0''))\<rparr>) cs)"
| "parse_loop PRECISION precision_begun spec (c # cs) =
    (if precision_begun
     then (if \<not> char_is_digit c then parse_loop LENGTH_MODIFIER precision_begun spec (c # cs)
           else parse_loop PRECISION precision_begun
             (spec\<lparr>precision := precision spec * 10 + (scast c - scast (ch CHR ''0''))\<rparr>) cs)
     else if c = ch CHR ''.'' then parse_loop PRECISION True (spec\<lparr>precision := 0\<rparr>) cs
     else parse_loop LENGTH_MODIFIER False spec (c # cs))"
| "parse_loop LENGTH_MODIFIER precision_begun spec (c # cs) =
    (if c = ch CHR ''h''
     then (if cs \<noteq> [] \<and> hd cs = ch CHR ''h''
           then parse_loop CONVSPEC precision_begun (spec\<lparr>lenmod := lm_hh\<rparr>) (tl cs)
           else parse_loop CONVSPEC precision_begun (spec\<lparr>lenmod := lm_h\<rparr>) cs)
     else if c = ch CHR ''l''
     then (if cs \<noteq> [] \<and> hd cs = ch CHR ''l''
           then parse_loop CONVSPEC precision_begun (spec\<lparr>lenmod := lm_ll\<rparr>) (tl cs)
           else parse_loop CONVSPEC precision_begun (spec\<lparr>lenmod := lm_l\<rparr>) cs)
     else if c = ch CHR ''z'' then parse_loop CONVSPEC precision_begun (spec\<lparr>lenmod := lm_z\<rparr>) cs
     else parse_loop CONVSPEC precision_begun spec (c # cs))"
| "parse_loop CONVSPEC precision_begun spec (c # cs) =
    (if char_is_specifier c then (Some cs, defaults_from_convspec c (spec\<lparr>convspec := c\<rparr>))
     else (None, spec))"
  by pat_completeness auto
termination
  by (relation "measure (\<lambda>(state, pb, spec, cs). 6 * length cs + state_rank state)") (auto simp: neq_Nil_conv)

definition parse_conversion :: "u8 list \<Rightarrow> u8 list option \<times> conversion_specifier" where
  "parse_conversion start = parse_loop START False spec_init start"

lemma parse_loop_shorter: "fst (parse_loop state pb spec cs) = Some r \<Longrightarrow> length r < length cs"
  by (induction state pb spec cs rule: parse_loop.induct) (auto split: if_splits simp: neq_Nil_conv)

lemma parse_conversion_shorter:
  "(Some r, spec) = parse_conversion (c # cs) \<Longrightarrow> length r < Suc (length cs)"
  using parse_loop_shorter [of START False spec_init "c # cs" r] by (metis fst_conv length_Cons parse_conversion_def)

definition kputs_bytes :: "mem \<Rightarrow> u64 \<Rightarrow> u8 list option" where
  "kputs_bytes m p = do { l \<leftarrow> strlen p m; Some (bytes_at m p (unat l)) }"

text \<open>The \<^verbatim>\<open>switch\<close> of \<open>printk\<close>: the bytes printed and the arguments left; \<^verbatim>\<open>va_arg\<close> without an argument is \<open>None\<close>.\<close>

definition print_arg :: "mem \<Rightarrow> conversion_specifier \<Rightarrow> u64 list \<Rightarrow> (u8 list \<times> u64 list) option" where
  "print_arg m spec ap =
    (if convspec spec = ch CHR ''s''
     then (case ap of [] \<Rightarrow> None | a # ap' \<Rightarrow> do { b \<leftarrow> kputs_bytes m a; Some (b, ap') })
     else if convspec spec = ch CHR ''c'' then (case ap of [] \<Rightarrow> None | a # ap' \<Rightarrow> Some ([ucast a], ap'))
     else if convspec spec = ch CHR ''d'' then (case ap of [] \<Rightarrow> None | a # ap' \<Rightarrow> Some (print_i64 a spec, ap'))
     else if convspec spec = ch CHR ''u'' then (case ap of [] \<Rightarrow> None | a # ap' \<Rightarrow> Some (print_i64 a spec, ap'))
     else if convspec spec = ch CHR ''x'' then (case ap of [] \<Rightarrow> None | a # ap' \<Rightarrow> Some (print_u64_hex a False spec, ap'))
     else if convspec spec = ch CHR ''p'' then (case ap of [] \<Rightarrow> None | a # ap' \<Rightarrow> Some (print_u64_hex a False spec, ap'))
     else Some ([], ap))"

definition highlight_on :: "u8 list" where "highlight_on = 27 # map ch ''[36m''"
definition highlight_off :: "u8 list" where "highlight_off = 27 # map ch ''[37m''"

text \<open>When \<open>parse_conversion\<close> returns NULL the loop condition dereferences it: \<open>None\<close>.\<close>

function printk :: "mem \<Rightarrow> u8 list \<Rightarrow> u64 list \<Rightarrow> u8 list option" where
  "printk m [] ap = Some []"
| "printk m (c # cs) ap =
    (if c \<noteq> ch CHR ''%'' then do { r \<leftarrow> printk m cs ap; Some (c # r) }
     else
       (case parse_conversion (c # cs) of
          (None, spec) \<Rightarrow> None
        | (Some fmt, spec) \<Rightarrow>
            (case print_arg m spec ap of
               None \<Rightarrow> None
             | Some (out, ap') \<Rightarrow> do { r \<leftarrow> printk m fmt ap'; Some (highlight_on @ out @ highlight_off @ r) })))"
  by pat_completeness auto
termination
  by (relation "measure (\<lambda>(m, fmt, ap). length fmt)") (auto dest: parse_conversion_shorter)

section \<open>Digits\<close>

fun digits :: "nat \<Rightarrow> nat \<Rightarrow> nat list" where
  "digits b n = (if b < 2 \<or> n = 0 then [] else digits b (n div b) @ [n mod b])"

declare digits.simps [simp del]

text \<open>The reference: the usual representation of a number, without leading zeros.\<close>

definition decimal :: "nat \<Rightarrow> u8 list" where
  "decimal n = (if n = 0 then [48] else map (\<lambda>d. 48 + of_nat d) (digits 10 n))"

definition hexadecimal :: "nat \<Rightarrow> u8 list" where
  "hexadecimal n = (if n = 0 then [48] else map (\<lambda>d. hex_digits ! d) (digits 16 n))"

lemma digits_0 [simp]: "digits b 0 = []"
  by (simp add: digits.simps)

lemma digits_less: "d \<in> set (digits b n) \<Longrightarrow> d < b"
  by (induction b n rule: digits.induct) (subst (asm) (2) digits.simps, auto split: if_splits)

lemma digits_hd: "2 \<le> b \<Longrightarrow> n \<noteq> 0 \<Longrightarrow> digits b n \<noteq> [] \<and> hd (digits b n) \<noteq> 0"
proof (induction b n rule: digits.induct)
  case (1 b n)
  show ?case
  proof (cases "n div b = 0")
    case True
    then have "n < b" using 1 by (metis div_eq_0_iff not_less_eq_eq not_numeral_le_zero)
    then show ?thesis using 1 True by (subst (1 2) digits.simps) auto
  next
    case False
    with 1 show ?thesis by (subst (1 2) digits.simps) auto
  qed
qed

lemma digits_length: "2 \<le> b \<Longrightarrow> n < b ^ k \<Longrightarrow> length (digits b n) \<le> k"
proof (induction k arbitrary: n)
  case (Suc k)
  show ?case
  proof (cases "n = 0")
    case False
    have "n div b < b ^ k" using Suc.prems by (simp add: less_mult_imp_div_less mult.commute)
    with Suc.IH [OF Suc.prems(1)] False Suc.prems show ?thesis by (subst digits.simps) auto
  qed simp
qed simp

lemma digits_value: "2 \<le> b \<Longrightarrow> foldl (\<lambda>v d. v * b + d) 0 (digits b n) = n"
proof (induction b n rule: digits.induct)
  case (1 b n)
  then show ?case by (cases "n = 0") (simp, subst digits.simps, simp)
qed

section \<open>Decimal output\<close>

lemma fill_digits_eq:
  "length (digits 10 n) \<le> Suc i \<Longrightarrow> fill_digits (int n) i (replicate (Suc i) 0 @ ys) =
    replicate (Suc i - length (digits 10 n)) 0 @ map of_nat (digits 10 n) @ ys"
proof (induction n arbitrary: i ys rule: less_induct)
  case (less n)
  show ?case
  proof (cases "n = 0")
    case False
    let ?d = "of_nat (n mod 10) :: u8"
    have d: "digits 10 n = digits 10 (n div 10) @ [n mod 10]" using False by (subst digits.simps) simp
    have w: "word_of_int (int n smod 10) = ?d" "int n sdiv 10 = int (n div 10)"
    proof -
      have "int n smod 10 = int (n mod 10)" "int n sdiv 10 = int (n div 10)"
        by (simp_all add: signed_modulo_int_def signed_divide_int_def sgn_if zmod_int zdiv_int)
      then show "word_of_int (int n smod 10) = ?d" "int n sdiv 10 = int (n div 10)"
        by (simp_all only: of_int_of_nat_eq)
    qed
    have u: "(replicate (Suc i) 0 @ ys)[i := ?d] = replicate i 0 @ ?d # ys"
    proof -
      have "replicate (Suc i) 0 @ ys = replicate i 0 @ 0 # ys" by (simp add: replicate_app_Cons_same)
      then show ?thesis using list_update_length [of "replicate i 0" 0 ys ?d] by simp
    qed
    have step: "fill_digits (int n) i (replicate (Suc i) 0 @ ys) =
        fill_digits (int (n div 10)) (i - 1) (replicate i 0 @ ?d # ys)"
      using False w u by (subst fill_digits.simps) simp
    show ?thesis
    proof (cases i)
      case 0
      then have "digits 10 (n div 10) = []" using less.prems d by simp
      then have "n div 10 = 0" using digits_hd [of 10 "n div 10"] by auto
      then show ?thesis using step d 0 by (subst step) (simp add: fill_digits.simps)
    next
      case (Suc j)
      have "n div 10 < n" using False by simp
      then show ?thesis using less.IH [of "n div 10" j "?d # ys"] less.prems d Suc by (subst step) simp
    qed
  qed (simp add: fill_digits.simps)
qed

lemma i64_out_lead: "i64_out spec True ds = map (\<lambda>d. 48 + d) ds"
  by (induction ds) (auto simp: Let_def ch_def)

lemma i64_out_zeros:
  assumes "sint (precision spec) = int p" and "sint (field_width spec) = int w" and "ds \<noteq> []" and "hd ds \<noteq> 0 \<or> ds = [0]"
  shows "i64_out spec False (replicate z 0 @ ds) =
    replicate (min w (z + length ds) - max p (length ds)) 32 @
    replicate (min p (z + length ds) - length ds) 48 @ map (\<lambda>d. 48 + d) ds"
proof (induction z)
  case 0
  then show ?case using assms(3,4) by (cases ds) (auto simp: Let_def ch_def i64_out_lead)
next
  case (Suc z)
  let ?k = "length ds"
  have k: "0 < ?k" using assms(3) by simp
  have step: "i64_out spec False (replicate (Suc z) 0 @ ds) =
      (if Suc (z + ?k) \<le> p then [48] else if Suc (z + ?k) \<le> w then [32] else []) @ i64_out spec False (replicate z 0 @ ds)"
    using assms(1-3) by (simp add: Let_def ch_def)
  consider "Suc (z + ?k) \<le> p" | "p < Suc (z + ?k)" "Suc (z + ?k) \<le> w" | "p < Suc (z + ?k)" "w < Suc (z + ?k)" by linarith
  then show ?case
  proof cases
    case 1
    then have "min p (Suc z + ?k) - ?k = Suc (min p (z + ?k) - ?k)" "min w (z + ?k) - max p ?k = 0"
        "min w (Suc z + ?k) - max p ?k = 0" by auto
    then show ?thesis using Suc.IH step 1 by simp
  next
    case 2
    then have "min w (Suc z + ?k) - max p ?k = Suc (min w (z + ?k) - max p ?k)" "min p (Suc z + ?k) = min p (z + ?k)" by auto
    then show ?thesis using Suc.IH step 2 by simp
  next
    case 3
    then have "min w (Suc z + ?k) = min w (z + ?k)" "min p (Suc z + ?k) = min p (z + ?k)" by auto
    then show ?thesis using Suc.IH step 3 by simp
  qed
qed

lemma i64_out_decimal:
  assumes "sint (precision spec) = int p" and "sint (field_width spec) = int w" and "n < 2 ^ 63"
  shows "i64_out spec False (fill_digits (int n) 63 (replicate 64 0)) =
    replicate (min w 64 - max p (length (decimal n))) 32 @ replicate (min p 64 - length (decimal n)) 48 @ decimal n"
proof -
  have len: "length (digits 10 n) \<le> 19" using digits_length [of 10 n 19] assms(3) by simp
  have "fill_digits (int n) 63 (replicate (Suc 63) 0 @ []) =
      replicate (Suc 63 - length (digits 10 n)) 0 @ map of_nat (digits 10 n) @ []"
    using len by (intro fill_digits_eq) simp
  then have fill: "fill_digits (int n) 63 (replicate 64 0) = replicate (64 - length (digits 10 n)) 0 @ map of_nat (digits 10 n)"
    by simp
  show ?thesis
  proof (cases "n = 0")
    case True
    have "replicate (Suc 63) (0 :: u8) = replicate 63 0 @ [0]" by (simp only: replicate_Suc replicate_append_same)
    then have "replicate 64 (0 :: u8) = replicate 63 0 @ [0]" by simp
    then show ?thesis using i64_out_zeros [OF assms(1,2), of "[0]" 63] True
      by (simp add: fill_digits.simps decimal_def del: replicate.simps)
  next
    case False
    then have ne: "digits 10 n \<noteq> []" "hd (digits 10 n) \<noteq> 0" using digits_hd [of 10 n] by auto
    have "hd (digits 10 n) < 10" using ne digits_less [of "hd (digits 10 n)" 10 n] by simp
    then have "(of_nat (hd (digits 10 n)) :: u8) \<noteq> 0" using ne(2) by (simp add: word_unat_eq_iff unat_of_nat)
    then have "hd (map of_nat (digits 10 n) :: u8 list) \<noteq> 0" using ne by (simp add: hd_map)
    moreover have "64 - length (digits 10 n) + length (digits 10 n) = 64" using len by simp
    moreover have "decimal n = map (\<lambda>d. 48 + d) (map of_nat (digits 10 n))" using False by (simp add: decimal_def)
    ultimately show ?thesis
      using i64_out_zeros [OF assms(1,2), of "map of_nat (digits 10 n)" "64 - length (digits 10 n)"] ne(1)
      unfolding fill by (simp only: length_map) simp
  qed
qed

lemma sint_uminus: "sint (x :: u64) \<noteq> - (2 ^ 63) \<Longrightarrow> sint (- x) = - sint x"
proof -
  assume "sint x \<noteq> - (2 ^ 63)"
  then have r: "- (2 ^ 63) \<le> - sint x \<and> - sint x < 2 ^ 63" using sint_greater_eq [of x] sint_less [of x] by simp
  have "- x = word_of_int (- sint x)" by simp
  then have "sint (- x) = sint (word_of_int (- sint x) :: u64)" by (rule arg_cong)
  then show "sint (- x) = - sint x" using r by (simp only: signed_of_int) (simp add: signed_take_bit_int_eq_self)
qed

section \<open>Hexadecimal output\<close>

lemma nibble: "unat (drop_bit (4 * i) (x :: u64) AND 0xf) = unat x div 16 ^ i mod 16"
proof -
  have "(0xf :: u64) = mask 4" by (simp add: mask_eq_exp_minus_1)
  then have "unat (drop_bit (4 * i) x AND 0xf) = unat (take_bit 4 (drop_bit (4 * i) x))" by (simp only: take_bit_eq_mask)
  also have "\<dots> = take_bit 4 (drop_bit (4 * i) (take_bit 64 (unat x)))"
    by (simp only: unsigned_take_bit_eq unsigned_drop_bit_eq) simp
  also have "take_bit 64 (unat x) = unat x" using unsigned_less [of x] by (intro take_bit_nat_eq_self) simp
  also have "take_bit 4 (drop_bit (4 * i) (unat x)) = unat x div 16 ^ i mod 16" by (simp add: take_bit_eq_mod drop_bit_eq_div power_mult)
  finally show ?thesis .
qed

lemma digits_nth: "2 \<le> b \<Longrightarrow> digits b n = map (\<lambda>i. n div b ^ i mod b) (rev [0..<length (digits b n)])"
proof (induction b n rule: digits.induct)
  case (1 b n)
  show ?case
  proof (cases "n = 0")
    case False
    let ?k = "length (digits b (n div b))"
    have d: "digits b n = digits b (n div b) @ [n mod b]" using 1 False by (subst digits.simps) simp
    have "rev [0..<Suc ?k] = map Suc (rev [0..<?k]) @ [0]" by (simp add: rev_map [symmetric] map_Suc_upt upt_conv_Cons del: upt_Suc)
    then have "map (\<lambda>i. n div b ^ i mod b) (rev [0..<Suc ?k]) = map (\<lambda>i. n div b div b ^ i mod b) (rev [0..<?k]) @ [n mod b]"
      by (simp add: o_def div_mult2_eq del: upt_Suc)
    then show ?thesis using 1(1) 1(2) False d by simp
  qed simp
qed

lemma digits_above: "2 \<le> b \<Longrightarrow> length (digits b n) \<le> i \<Longrightarrow> n div b ^ i = 0"
proof (induction b n arbitrary: i rule: digits.induct)
  case (1 b n)
  show ?case
  proof (cases "n = 0")
    case False
    have d: "digits b n = digits b (n div b) @ [n mod b]" using 1 False by (subst digits.simps) simp
    then obtain j where j: "i = Suc j" "length (digits b (n div b)) \<le> j" using 1(3) by (cases i) auto
    then have "n div b div b ^ j = 0" using 1(1,2) False by simp
    then show ?thesis using j by (simp add: div_mult2_eq)
  qed simp
qed

lemma hex_out_lead: "hex_out x spec True i = map (\<lambda>j. hex_digits ! (unat x div 16 ^ j mod 16)) (rev [0..<i])"
  by (induction i) (simp_all add: nibble Let_def)

lemma hex_out_zeros:
  assumes p: "sint (precision spec) = int p" and k: "k = max 1 (length (digits 16 (unat x)))"
  shows "k + z \<le> 16 \<Longrightarrow> hex_out x spec False (k + z) = replicate (k + z - max k (16 - p)) 48 @ hexadecimal (unat x)"
proof (induction z)
  case 0
  have "k \<noteq> 0" using k by simp
  then obtain j where j: "k = Suc j" by (cases k) auto
  show ?case
  proof (cases "unat x = 0")
    case True
    then have "x = 0" by (simp add: unat_eq_zero)
    then show ?thesis using k j by (simp add: Let_def hexadecimal_def hex_digits_def ch_def)
  next
    case False
    then have ne: "digits 16 (unat x) \<noteq> []" "hd (digits 16 (unat x)) \<noteq> 0" using digits_hd [of 16 "unat x"] by auto
    then have len: "length (digits 16 (unat x)) = Suc j" using k j by (cases "digits 16 (unat x)") auto
    have all: "digits 16 (unat x) = map (\<lambda>i. unat x div 16 ^ i mod 16) (rev [0..<Suc j])"
      using digits_nth [of 16 "unat x"] len by simp
    then have "unat x div 16 ^ j mod 16 \<noteq> 0" using ne(2) by simp
    then have "hex_out x spec False (Suc j) = map (\<lambda>j. hex_digits ! (unat x div 16 ^ j mod 16)) (rev [0..<Suc j])"
      by (simp add: nibble Let_def hex_out_lead)
    also have "\<dots> = hexadecimal (unat x)" using False unfolding hexadecimal_def all by (simp add: o_def)
    finally show ?thesis using j by simp
  qed
next
  case (Suc z)
  have "length (digits 16 (unat x)) \<le> k + z" using k by simp
  then have z0: "unat x div 16 ^ (k + z) = 0" using digits_above [of 16 "unat x"] by simp
  have pos: "k + z \<noteq> 0" using k by simp
  have "hex_out x spec False (Suc (k + z)) =
      (if 16 - int (k + z) \<le> int p then [48] else []) @ hex_out x spec False (k + z)"
    using pos p unfolding hex_out.simps(2) nibble z0 by (auto simp: Let_def PRINTK_U64_HEX_LEN_def hex_digits_def ch_def)
  moreover have "Suc (k + z) - max k (16 - p) = (if 16 - int (k + z) \<le> int p then Suc (k + z - max k (16 - p)) else k + z - max k (16 - p))"
    using Suc.prems by auto
  ultimately show ?case using Suc by simp
qed

lemma digits_16_length: "length (digits 16 (unat (x :: u64))) \<le> 16"
  using digits_length [of 16 "unat x" 16] unsigned_less [of x] by simp

section \<open>Conversion specifications\<close>

lemma digit_char:
  assumes "d < 10"
  shows "char_is_digit (48 + of_nat d)" and "scast (48 + of_nat d :: u8) - 48 = (of_nat d :: u32)"
    and "d \<noteq> 0 \<Longrightarrow> \<not> char_is_flag (48 + of_nat d)"
proof -
  have "d \<in> {0, 1, 2, 3, 4, 5, 6, 7, 8, 9}" using assms by auto
  then show "char_is_digit (48 + of_nat d)" "scast (48 + of_nat d :: u8) - 48 = (of_nat d :: u32)"
      "d \<noteq> 0 \<Longrightarrow> \<not> char_is_flag (48 + of_nat d)"
    by (auto simp: char_is_digit_def char_is_flag_def ch_def)
qed

lemma parse_flags:
  "\<forall>c \<in> set fl. char_is_flag c \<Longrightarrow>
    parse_loop FLAGS pb spec (fl @ cs) = parse_loop FLAGS pb (fold set_flag fl spec) cs"
  by (induction fl arbitrary: spec) auto

lemma parse_width:
  "\<forall>d \<in> set ds. d < 10 \<Longrightarrow>
    parse_loop FIELD_WIDTH pb spec (map (\<lambda>d. 48 + of_nat d) ds @ cs) =
    parse_loop FIELD_WIDTH pb (spec\<lparr>field_width := foldl (\<lambda>v d. v * 10 + of_nat d) (field_width spec) ds\<rparr>) cs"
  by (induction ds arbitrary: spec) (simp_all add: digit_char ch_def)

lemma parse_precision:
  "\<forall>d \<in> set ds. d < 10 \<Longrightarrow>
    parse_loop PRECISION True spec (map (\<lambda>d. 48 + of_nat d) ds @ cs) =
    parse_loop PRECISION True (spec\<lparr>precision := foldl (\<lambda>v d. v * 10 + of_nat d) (precision spec) ds\<rparr>) cs"
  by (induction ds arbitrary: spec) (simp_all add: digit_char ch_def)

lemma foldl_of_nat: "foldl (\<lambda>v d. v * 10 + of_nat d) (of_nat a :: u32) ds = of_nat (foldl (\<lambda>v d. v * 10 + d) a ds)"
proof (induction ds arbitrary: a)
  case (Cons d ds)
  from Cons.IH [of "a * 10 + d"] show ?case by simp
qed simp

lemma decimal_digits:
  "\<exists>ds. decimal n = map (\<lambda>d. 48 + of_nat d) ds \<and> (\<forall>d \<in> set ds. d < 10) \<and>
    foldl (\<lambda>v d. v * 10 + of_nat d) (0 :: u32) ds = of_nat n \<and> ds \<noteq> [] \<and> (n = 0 \<or> hd ds \<noteq> 0)"
proof (cases "n = 0")
  case True
  then show ?thesis by (intro exI [of _ "[0]"]) (simp add: decimal_def)
next
  case False
  then show ?thesis
    using digits_less digits_value [of 10 n] foldl_of_nat [of 0 "digits 10 n"] digits_hd [of 10 n]
    by (intro exI [of _ "digits 10 n"]) (auto simp: decimal_def)
qed

text \<open>The text of a conversion: flags, a width that is not 0, a precision, a length modifier and the conversion.\<close>

fun lm_text :: "len_modifier \<Rightarrow> u8 list" where
  "lm_text lm_NONE = []" | "lm_text lm_hh = map ch ''hh''" | "lm_text lm_h = map ch ''h''"
| "lm_text lm_l = map ch ''l''" | "lm_text lm_ll = map ch ''ll''" | "lm_text lm_z = map ch ''z''"

definition conversion_text :: "u8 list \<Rightarrow> nat \<Rightarrow> nat option \<Rightarrow> len_modifier \<Rightarrow> u8 \<Rightarrow> u8 list" where
  "conversion_text fl w prec lm c = ch CHR ''%'' # fl @ (if w = 0 then [] else decimal w) @
    (case prec of None \<Rightarrow> [] | Some p \<Rightarrow> ch CHR ''.'' # decimal p) @ lm_text lm @ [c]"

definition spec_of :: "u8 list \<Rightarrow> nat \<Rightarrow> nat option \<Rightarrow> len_modifier \<Rightarrow> u8 \<Rightarrow> conversion_specifier" where
  "spec_of fl w prec lm c = defaults_from_convspec c ((fold set_flag fl spec_init)\<lparr>field_width := of_nat w,
    precision := (case prec of None \<Rightarrow> 0 | Some p \<Rightarrow> of_nat p), lenmod := lm, convspec := c\<rparr>)"

lemma parse_lm:
  assumes "char_is_specifier c"
  shows "parse_loop LENGTH_MODIFIER pb spec (lm_text lm @ c # cs) =
    (Some cs, defaults_from_convspec c (spec\<lparr>lenmod := (if lm = lm_NONE then lenmod spec else lm), convspec := c\<rparr>))"
  using assms by (cases lm) (auto simp: char_is_specifier_def ch_def)

lemma lm_no_digit:
  assumes "char_is_specifier c"
  shows "\<exists>x xs. lm_text lm @ c # cs = x # xs \<and> \<not> char_is_digit x \<and> \<not> char_is_flag x \<and> x \<noteq> ch CHR ''.''"
  using assms by (cases lm) (auto simp: char_is_specifier_def char_is_digit_def char_is_flag_def ch_def)

lemma parse_precision_part:
  assumes "char_is_specifier c" and "precision spec = 0"
  shows "parse_loop PRECISION False spec ((case prec of None \<Rightarrow> [] | Some p \<Rightarrow> ch CHR ''.'' # decimal p) @ lm_text lm @ c # cs) =
    (Some cs, defaults_from_convspec c (spec\<lparr>precision := (case prec of None \<Rightarrow> 0 | Some p \<Rightarrow> of_nat p),
      lenmod := (if lm = lm_NONE then lenmod spec else lm), convspec := c\<rparr>))"
proof -
  obtain x xs where x: "lm_text lm @ c # cs = x # xs" "\<not> char_is_digit x" "x \<noteq> ch CHR ''.''"
    using lm_no_digit [OF assms(1)] by blast
  show ?thesis
  proof (cases prec)
    case None
    have s: "spec = spec\<lparr>precision := 0\<rparr>" using assms(2) by (cases spec) simp
    have "parse_loop PRECISION False spec (x # xs) = parse_loop LENGTH_MODIFIER False (spec\<lparr>precision := 0\<rparr>) (x # xs)"
      using x by (simp flip: s)
    then show ?thesis using None x(1) parse_lm [OF assms(1), of False "spec\<lparr>precision := 0\<rparr>" lm cs] by simp
  next
    case (Some p)
    obtain ds where ds: "decimal p = map (\<lambda>d. 48 + of_nat d) ds" "\<forall>d \<in> set ds. d < 10"
        "foldl (\<lambda>v d. v * 10 + of_nat d) (0 :: u32) ds = of_nat p" using decimal_digits by blast
    have "parse_loop PRECISION True s (x # xs) = parse_loop LENGTH_MODIFIER True s (x # xs)" for s using x by simp
    then show ?thesis
      using Some ds(1,3) x(1) parse_precision [OF ds(2), of "spec\<lparr>precision := 0\<rparr>"] parse_lm [OF assms(1), of True _ lm cs] by simp
  qed
qed

lemma fold_set_flag:
  "field_width (fold set_flag fl spec) = field_width spec" "precision (fold set_flag fl spec) = precision spec"
  "lenmod (fold set_flag fl spec) = lenmod spec"
  by (induction fl arbitrary: spec) (auto simp: set_flag_def)

lemma parse_conversion_text:
  assumes fl: "\<forall>c \<in> set fl. char_is_flag c" and c: "char_is_specifier c"
  shows "parse_conversion (conversion_text fl w prec lm c @ cs) = (Some cs, spec_of fl w prec lm c)"
proof -
  let ?s = "fold set_flag fl spec_init"
  let ?tail = "(case prec of None \<Rightarrow> [] | Some p \<Rightarrow> ch CHR ''.'' # decimal p) @ lm_text lm @ c # cs"
  have s0: "field_width ?s = 0" "precision ?s = 0" "lenmod ?s = lm_NONE" by (simp_all add: fold_set_flag spec_init_def)
  obtain x xs where x: "?tail = x # xs" "\<not> char_is_digit x" "\<not> char_is_flag x"
    using lm_no_digit [OF c, of lm cs] by (cases prec) (auto simp: char_is_digit_def char_is_flag_def ch_def)
  have tail: "parse_loop FIELD_WIDTH False (?s\<lparr>field_width := of_nat w\<rparr>) ?tail = (Some cs, spec_of fl w prec lm c)"
    using x parse_precision_part [OF c, of "?s\<lparr>field_width := of_nat w\<rparr>" prec lm cs] s0 by (simp add: spec_of_def)
  have "parse_loop FLAGS False ?s ((if w = 0 then [] else decimal w) @ ?tail) = (Some cs, spec_of fl w prec lm c)"
  proof (cases "w = 0")
    case True
    have eq: "s\<lparr>field_width := 0\<rparr> = s" if "field_width s = 0" for s :: conversion_specifier
      using that by (cases s) simp
    have same: "?s\<lparr>field_width := of_nat w\<rparr> = ?s" using eq [OF s0(1)] True by simp
    note tail0 = tail [unfolded same]
    have "parse_loop FLAGS False ?s ?tail = parse_loop FIELD_WIDTH False ?s ?tail" unfolding x(1) using x(3) by simp
    then show ?thesis using True tail0 by simp
  next
    case False
    obtain ds where ds: "decimal w = map (\<lambda>d. 48 + of_nat d) ds" "\<forall>d \<in> set ds. d < 10"
        "foldl (\<lambda>v d. v * 10 + of_nat d) (0 :: u32) ds = of_nat w" "ds \<noteq> []" "hd ds \<noteq> 0" using decimal_digits [of w] False by auto
    then obtain e es where e: "ds = e # es" "e \<noteq> 0" "e < 10" by (cases ds) auto
    have "parse_loop FLAGS False ?s (map (\<lambda>d. 48 + of_nat d) ds @ ?tail) =
        parse_loop FIELD_WIDTH False ?s (map (\<lambda>d. 48 + of_nat d) ds @ ?tail)"
      using digit_char(3) [OF e(3,2)] e(1) by simp
    also have "\<dots> = parse_loop FIELD_WIDTH False (?s\<lparr>field_width := of_nat w\<rparr>) ?tail"
      using parse_width [OF ds(2), of False ?s ?tail] ds(3) s0(1) by simp
    finally show ?thesis using False ds(1) tail by simp
  qed
  then show ?thesis
    using parse_flags [OF fl, of False spec_init] by (simp add: parse_conversion_def conversion_text_def)
qed

lemma printk_text: "ch CHR ''%'' \<notin> set lit \<Longrightarrow> printk m (lit @ fmt) ap = map_option ((@) lit) (printk m fmt ap)"
  by (induction lit) (auto simp: option.map_comp o_def map_conv_bind_option)

section \<open>The text of each conversion\<close>

text \<open>
  The reference for the output of a conversion, independent of the routines: the sign, spaces up to the width, zeros up to the
  precision (both at most 64) and the decimal representation; the prefix, zeros and the hexadecimal representation.
\<close>

definition decimal_text :: "bool \<Rightarrow> nat \<Rightarrow> nat \<Rightarrow> int \<Rightarrow> u8 list" where
  "decimal_text signed_plus w p v = (if v < 0 then [ch CHR ''-''] else if signed_plus then [ch CHR ''+''] else []) @
    (let d = decimal (nat \<bar>v\<bar>) in replicate (min w 64 - max p (length d)) 32 @ replicate (min p 64 - length d) 48 @ d)"

definition hexadecimal_text :: "bool \<Rightarrow> nat \<Rightarrow> nat \<Rightarrow> u8 list" where
  "hexadecimal_text alt p n = (if alt then map ch ''0x'' else []) @
    (let h = hexadecimal n in replicate (min p (16 - length h)) 48 @ h)"

lemma print_i64_text:
  assumes "sint x \<noteq> - (2 ^ 63)" and "sint (precision spec) = int p" and "sint (field_width spec) = int w"
  shows "print_i64 x spec = decimal_text (always_sign spec) w p (sint x)"
proof -
  have r: "- (2 ^ 63) < sint x" "sint x < 2 ^ 63" using assms(1) sint_greater_eq [of x] sint_less [of x] by auto
  then have n: "nat \<bar>sint x\<bar> < 2 ^ 63" by auto
  note out = i64_out_decimal [OF assms(2,3) n]
  show ?thesis
  proof (cases "sint x < 0")
    case True
    then have "sint (- x) = \<bar>sint x\<bar>" using sint_uminus [OF assms(1)] by simp
    then show ?thesis using True out by (simp add: print_i64_def decimal_text_def Let_def PRINTK_I64_BUF_LEN_def)
  next
    case False
    then have "sint x = \<bar>sint x\<bar>" by simp
    then show ?thesis using False out by (simp add: print_i64_def decimal_text_def Let_def PRINTK_I64_BUF_LEN_def)
  qed
qed

lemma hex_out_text:
  assumes "sint (precision spec) = int p"
  shows "hex_out x spec False 16 = (let h = hexadecimal (unat x) in replicate (min p (16 - length h)) 48 @ h)"
proof -
  let ?k = "max 1 (length (digits 16 (unat x)))"
  have k: "?k \<le> 16" using digits_16_length by simp
  have len: "length (hexadecimal (unat x)) = ?k"
    using digits_hd [of 16 "unat x"] by (cases "digits 16 (unat x)") (auto simp: hexadecimal_def)
  have "hex_out x spec False 16 = replicate (16 - max ?k (16 - p)) 48 @ hexadecimal (unat x)"
    using hex_out_zeros [where x = x and z = "16 - ?k" and k = ?k, OF assms refl] k by simp
  moreover have "16 - max ?k (16 - p) = min p (16 - ?k)" using k by auto
  ultimately show ?thesis by (simp add: Let_def len)
qed

lemma print_u64_hex_text:
  assumes "sint (precision spec) = int p"
  shows "print_u64_hex x False spec = hexadecimal_text (alternate_form spec) p (unat x)"
  using hex_out_text [OF assms] by (simp add: print_u64_hex_def hexadecimal_text_def PRINTK_U64_HEX_LEN_def)

lemma kputs_bytes_cstr: "cstr m p xs \<Longrightarrow> kputs_bytes m p = Some xs"
  using cstr_length [of m p xs] by (simp add: kputs_bytes_def strlen_cstr unat_of_nat cstr_iff)

text \<open>The output of a conversion as it is written: flags, width, precision, conversion, the argument, and the string it points to.\<close>

definition conversion_output :: "u8 list \<Rightarrow> nat \<Rightarrow> nat option \<Rightarrow> u8 \<Rightarrow> u64 \<Rightarrow> u8 list \<Rightarrow> u8 list" where
  "conversion_output fl w prec c a str =
    (let p = (case prec of None \<Rightarrow> 0 | Some p \<Rightarrow> p)
     in if c = ch CHR ''s'' then str
        else if c = ch CHR ''c'' then [ucast a]
        else if c = ch CHR ''d'' \<or> c = ch CHR ''u'' then decimal_text (ch CHR ''+'' \<in> set fl) w p (sint a)
        else if c = ch CHR ''x'' then hexadecimal_text (ch CHR ''#'' \<in> set fl) p (unat a)
        else if c = ch CHR ''p'' then hexadecimal_text True 16 (unat a)
        else [])"

lemma fold_set_flag_bits:
  "always_sign (fold set_flag fl spec) \<longleftrightarrow> always_sign spec \<or> ch CHR ''+'' \<in> set fl"
  "alternate_form (fold set_flag fl spec) \<longleftrightarrow> alternate_form spec \<or> ch CHR ''#'' \<in> set fl"
  by (induction fl arbitrary: spec) (auto simp: set_flag_def ch_def)

lemma sint_of_nat_u32: "n < 2 ^ 31 \<Longrightarrow> sint (of_nat n :: u32) = int n"
  using sint32_word_of_int [of "int n"] by simp

lemma spec_of_fields:
  "convspec (spec_of fl w prec lm c) = c"
  "field_width (spec_of fl w prec lm c) = of_nat w"
  "precision (spec_of fl w prec lm c) = (if c = ch CHR ''p'' then 16 else case prec of None \<Rightarrow> 0 | Some p \<Rightarrow> of_nat p)"
  "always_sign (spec_of fl w prec lm c) \<longleftrightarrow> ch CHR ''+'' \<in> set fl"
  "alternate_form (spec_of fl w prec lm c) \<longleftrightarrow> c = ch CHR ''p'' \<or> ch CHR ''#'' \<in> set fl"
  by (simp_all add: spec_of_def defaults_from_convspec_def fold_set_flag_bits) (simp_all add: spec_init_def)

definition small_number :: "nat option \<Rightarrow> bool" where
  "small_number prec \<longleftrightarrow> (case prec of None \<Rightarrow> True | Some p \<Rightarrow> p < 2 ^ 31)"

lemma spec_of_numbers:
  assumes "w < 2 ^ 31" and "small_number prec"
  shows "sint (field_width (spec_of fl w prec lm c)) = int w"
    and "sint (precision (spec_of fl w prec lm c)) = int (if c = ch CHR ''p'' then 16 else case prec of None \<Rightarrow> 0 | Some p \<Rightarrow> p)"
  using assms sint_of_nat_u32 by (auto simp: spec_of_fields small_number_def split: option.splits)

lemma print_arg_output:
  assumes "char_is_specifier c" and "w < 2 ^ 31" and "small_number prec"
    and "c \<in> {ch CHR ''d'', ch CHR ''u''} \<Longrightarrow> sint a \<noteq> - (2 ^ 63)" and "c = ch CHR ''s'' \<Longrightarrow> cstr m a str"
  shows "print_arg m (spec_of fl w prec lm c) (a # ap) =
    Some (conversion_output fl w prec c a str, if c \<in> {ch CHR ''%'', ch CHR ''X''} then a # ap else ap)"
proof -
  let ?s = "spec_of fl w prec lm c"
  note num = spec_of_numbers [OF assms(2,3), of fl lm c]
  consider "c = ch CHR ''s''" | "c = ch CHR ''c''" | "c \<in> {ch CHR ''d'', ch CHR ''u''}" | "c = ch CHR ''x''" | "c = ch CHR ''p''"
    | "c \<in> {ch CHR ''%'', ch CHR ''X''}" using assms(1) by (auto simp: char_is_specifier_def)
  then show ?thesis
  proof cases
    case 1
    then show ?thesis using kputs_bytes_cstr assms(5) by (simp add: print_arg_def conversion_output_def spec_of_fields ch_def)
  next
    case 3
    then have "print_i64 a ?s = decimal_text (ch CHR ''+'' \<in> set fl) w (case prec of None \<Rightarrow> 0 | Some p \<Rightarrow> p) (sint a)"
      using print_i64_text [OF assms(4) num(2,1)] by (auto simp: spec_of_fields ch_def)
    then show ?thesis using 3 by (auto simp: print_arg_def conversion_output_def spec_of_fields ch_def)
  next
    case 4
    then have "print_u64_hex a False ?s = hexadecimal_text (ch CHR ''#'' \<in> set fl) (case prec of None \<Rightarrow> 0 | Some p \<Rightarrow> p) (unat a)"
      using print_u64_hex_text [OF num(2), of a] by (simp add: spec_of_fields ch_def)
    then show ?thesis using 4 by (simp add: print_arg_def conversion_output_def spec_of_fields ch_def)
  next
    case 5
    then have "print_u64_hex a False ?s = hexadecimal_text True 16 (unat a)"
      using print_u64_hex_text [OF num(2), of a] by (simp add: spec_of_fields ch_def)
    then show ?thesis using 5 by (simp add: print_arg_def conversion_output_def spec_of_fields ch_def)
  qed (auto simp: print_arg_def conversion_output_def spec_of_fields ch_def)
qed

section \<open>Properties\<close>

text \<open>
  C21: decimal output. For every number but the smallest one, \<open>print_i64\<close> prints the sign, spaces up to
  the field width, zeros up to the precision and the usual decimal representation, which is the
  reference definition \<open>decimal\<close>. The width does not count the sign, which comes before the spaces.
\<close>

theorem print_i64_decimal:
  assumes "sint x \<noteq> - (2 ^ 63)" and "sint (precision spec) = int p" and "sint (field_width spec) = int w" and "p \<le> 64" and "w \<le> 64"
  shows "print_i64 x spec =
    (if sint x < 0 then [ch CHR ''-''] else if always_sign spec then [ch CHR ''+''] else []) @
    (let d = decimal (nat \<bar>sint x\<bar>) in replicate (w - max p (length d)) 32 @ replicate (p - length d) 48 @ d)"
  using print_i64_text [OF assms(1-3)] assms(4,5) by (simp add: decimal_text_def min_absorb1)

theorem print_i64_decimal_witness:
  "print_i64 (-42) (spec_init\<lparr>field_width := 5\<rparr>) = map ch ''-   42''"
proof -
  have "sint (-42 :: u64) = -42" by simp
  moreover have "decimal 42 = [52, 50]" by (simp add: decimal_def digits.simps)
  ultimately show ?thesis
    using print_i64_decimal [of "-42" "spec_init\<lparr>field_width := 5\<rparr>" 0 5]
    by (simp add: spec_init_def ch_def numeral_3_eq_3)
qed

text \<open>
  Hexadecimal output. \<open>print_u64_hex\<close> prints the prefix if asked for, then zeros and the usual
  hexadecimal representation. The zeros are the leading zeros of the 16-digit representation up to the
  number \<open>p\<close> given as precision, so with \<open>p = 16\<close> (\<^verbatim>\<open>%p\<close>) there are 16 digits; a smaller precision adds \<open>p\<close> zeros
  whatever the length of the number is. The field width is ignored.
\<close>

theorem print_u64_hex_digits:
  assumes "sint (precision spec) = int p"
  shows "print_u64_hex x up spec = (if alternate_form spec then [48, if up then 88 else 120] else []) @
    (let h = hexadecimal (unat x) in replicate (min p (16 - length h)) 48 @ h)"
  using hex_out_text [OF assms] by (simp add: print_u64_hex_def PRINTK_U64_HEX_LEN_def Let_def ch_def)

theorem print_u64_hex_digits_witness:
  "print_u64_hex 5 False (spec_init\<lparr>precision := 2\<rparr>) = map ch ''005''"
proof -
  have "hexadecimal 5 = [53]" by (simp add: hexadecimal_def digits.simps hex_digits_def ch_def)
  then show ?thesis
    using print_u64_hex_digits [of "spec_init\<lparr>precision := 2\<rparr>" 2 5 False]
    by (simp add: spec_init_def ch_def numeral_2_eq_2 [symmetric]) (simp add: numeral_2_eq_2)
qed

text \<open>
  C20: the parser of conversions reads back what such a conversion is written as. From the text of
  any flags, field width, precision, length modifier and conversion character, whatever follows it,
  \<open>parse_conversion\<close> returns exactly that specification (with the defaults of \<^verbatim>\<open>%p\<close>) and the rest of the string, for every width
  and precision that an \<^verbatim>\<open>int\<close> holds; these two are the numbers that were written.
\<close>

theorem parse_conversion_roundtrip:
  assumes "\<forall>c \<in> set fl. char_is_flag c" and "char_is_specifier c" and "w < 2 ^ 31" and "small_number prec"
  shows "parse_conversion (conversion_text fl w prec lm c @ cs) = (Some cs, spec_of fl w prec lm c) \<and>
    sint (field_width (spec_of fl w prec lm c)) = int w \<and>
    sint (precision (spec_of fl w prec lm c)) = int (if c = ch CHR ''p'' then 16 else case prec of None \<Rightarrow> 0 | Some p \<Rightarrow> p)"
  using parse_conversion_text [OF assms(1,2)] spec_of_numbers [OF assms(3,4)] by blast

theorem parse_conversion_roundtrip_witness:
  "parse_conversion (map ch ''%#2147483647.3llx!'') =
    (Some [ch CHR ''!''], spec_of [ch CHR ''#''] 2147483647 (Some 3) lm_ll (ch CHR ''x'')) \<and>
    sint (field_width (spec_of [ch CHR ''#''] 2147483647 (Some 3) lm_ll (ch CHR ''x''))) = 2147483647"
proof -
  have "conversion_text [ch CHR ''#''] 2147483647 (Some 3) lm_ll (ch CHR ''x'') @ [ch CHR ''!''] = map ch ''%#2147483647.3llx!''"
    by (simp add: conversion_text_def decimal_def digits.simps ch_def)
  then show ?thesis
    using parse_conversion_roundtrip [of "[ch CHR ''#'']" "ch CHR ''x''" 2147483647 "Some 3" lm_ll "[ch CHR ''!'']"]
    by (simp add: char_is_flag_def char_is_specifier_def small_number_def)
qed

text \<open>Without a guard in the parser, a width of \<open>2 ^ 32\<close> or more is cut to 32 bits: this one reads as the width 5.\<close>

lemma parse_width_wraps:
  "field_width (snd (parse_conversion (map ch ''%4294967301d''))) = 5"
  by (simp add: parse_conversion_def spec_init_def char_is_flag_def char_is_digit_def char_is_specifier_def defaults_from_convspec_def ch_def)

text \<open>
  C22: \<open>printk\<close> on one conversion, for each of the eight conversion characters. The text before it is copied, and between two escape sequences
  stands what the reference \<open>conversion_output\<close> says: for \<^verbatim>\<open>%d\<close> and \<^verbatim>\<open>%u\<close> the signed decimal number with sign, width and precision (not for the
  smallest number), for \<^verbatim>\<open>%x\<close> the hexadecimal one with the prefix if \<^verbatim>\<open>#\<close> is among the flags, for \<^verbatim>\<open>%p\<close> the prefix and 16 digits, for \<^verbatim>\<open>%c\<close> the
  byte, for \<^verbatim>\<open>%s\<close> the string that the argument points to, and nothing for \<^verbatim>\<open>%%\<close> and \<^verbatim>\<open>%X\<close>, which take no argument. It then goes
  on with the rest of the format and of the arguments. A text that ends in a percent sign makes \<open>printk\<close> go on at address 0. Width and
  precision are any numbers that an \<^verbatim>\<open>int\<close> holds.
\<close>

theorem printk_conversion:
  assumes "ch CHR ''%'' \<notin> set lit" and "\<forall>c \<in> set fl. char_is_flag c" and "char_is_specifier c" and "w < 2 ^ 31" and "small_number prec"
    and "c \<in> {ch CHR ''d'', ch CHR ''u''} \<Longrightarrow> sint a \<noteq> - (2 ^ 63)" and "c = ch CHR ''s'' \<Longrightarrow> cstr m a str"
  shows "printk m (lit @ conversion_text fl w prec lm c @ fmt) (a # ap) =
      map_option (\<lambda>r. lit @ highlight_on @ conversion_output fl w prec c a str @ highlight_off @ r)
        (printk m fmt (if c \<in> {ch CHR ''%'', ch CHR ''X''} then a # ap else ap)) \<and>
    printk m (lit @ [ch CHR ''%'']) ap = None"
proof -
  note p = parse_conversion_text [OF assms(2,3), of w prec lm fmt]
  note o = print_arg_output [OF assms(3-7), of fl lm ap]
  obtain t where t: "conversion_text fl w prec lm c = ch CHR ''%'' # t" by (simp add: conversion_text_def)
  have "printk m (conversion_text fl w prec lm c @ fmt) (a # ap) =
      map_option (\<lambda>r. highlight_on @ conversion_output fl w prec c a str @ highlight_off @ r)
        (printk m fmt (if c \<in> {ch CHR ''%'', ch CHR ''X''} then a # ap else ap))"
    using p t o by (simp add: map_conv_bind_option o_def)
  moreover have "printk m [ch CHR ''%''] ap = None" by (simp add: parse_conversion_def)
  ultimately show ?thesis using printk_text [OF assms(1)] by (simp add: option.map_comp o_def)
qed

text \<open>A padded number and a string, at address 16.\<close>

theorem printk_conversion_witness:
  "printk ((\<lambda>_. 0)(16 := ch CHR ''h'', 17 := ch CHR ''i'')) (map ch ''n=%+4.2d, %s.'') [7, 16] =
    Some (map ch ''n='' @ highlight_on @ map ch ''+  07'' @ highlight_off @ map ch '', '' @
      highlight_on @ map ch ''hi'' @ highlight_off @ map ch ''.'')"
proof -
  let ?m = "(\<lambda>_. 0)(16 := ch CHR ''h'', 17 := ch CHR ''i'') :: mem"
  have t: "conversion_text [ch CHR ''+''] 4 (Some 2) lm_NONE (ch CHR ''d'') = map ch ''%+4.2d''"
      "conversion_text [] 0 None lm_NONE (ch CHR ''s'') = map ch ''%s''"
    by (simp_all add: conversion_text_def decimal_def digits.simps ch_def)
  have o: "conversion_output [ch CHR ''+''] 4 (Some 2) (ch CHR ''d'') 7 [] = map ch ''+  07''"
      "conversion_output [] 0 None (ch CHR ''s'') 16 (map ch ''hi'') = map ch ''hi''"
    by (simp_all add: conversion_output_def decimal_text_def decimal_def digits.simps ch_def) (simp add: numeral_2_eq_2)
  have c: "cstr ?m 16 (map ch ''hi'')" by (simp add: ch_def)
  have "printk ?m (map ch '', '' @ map ch ''%s'' @ map ch ''.'') [16] =
      Some (map ch '', '' @ highlight_on @ map ch ''hi'' @ highlight_off @ map ch ''.'')"
    using printk_conversion [of "map ch '', ''" "[]" "ch CHR ''s''" 0 None 16 ?m "map ch ''hi''" lm_NONE "map ch ''.''" "[]"] t(2) o(2) c
    by (simp add: char_is_specifier_def small_number_def ch_def)
  then show ?thesis
    using printk_conversion [of "map ch ''n=''" "[ch CHR ''+'']" "ch CHR ''d''" 4 "Some 2" 7 ?m "[]" lm_NONE
        "map ch '', '' @ map ch ''%s'' @ map ch ''.''" "[16]"] t(1) o(1)
    by (simp add: char_is_specifier_def char_is_flag_def small_number_def ch_def)
qed

end
