(* ===== verification/Hardware.thy ===== *)
theory Hardware
  imports CString
begin

text \<open>
  Port input and output (\<^verbatim>\<open>arch/x64/io/io.c\<close>), the interrupt controller (\<^verbatim>\<open>arch/x64/int/pic.c\<close>) and the serial
  port (\<^verbatim>\<open>arch/x64/uart/uart.c\<close>). The machine behind the ports is not part of the sources: it is the
  parameter \<open>bus\<close>, functions on a state \<open>'d\<close> of the devices for every kind of access. A loop that polls a
  device is a \<open>partial_function\<close>: it does not return (\<open>None\<close>) when the device never becomes ready.
\<close>

section \<open>Model\<close>

record 'd bus =
  in8 :: "u16 \<Rightarrow> 'd \<Rightarrow> u8 \<times> 'd"
  out8 :: "u16 \<Rightarrow> u8 \<Rightarrow> 'd \<Rightarrow> 'd"
  in16 :: "u16 \<Rightarrow> 'd \<Rightarrow> u16 \<times> 'd"
  out16 :: "u16 \<Rightarrow> u16 \<Rightarrow> 'd \<Rightarrow> 'd"

definition inb :: "'d bus \<Rightarrow> u16 \<Rightarrow> 'd \<Rightarrow> u8 \<times> 'd" where "inb B port d = in8 B port d"
definition outb :: "'d bus \<Rightarrow> u16 \<Rightarrow> u8 \<Rightarrow> 'd \<Rightarrow> 'd" where "outb B port v d = out8 B port v d"
definition inw :: "'d bus \<Rightarrow> u16 \<Rightarrow> 'd \<Rightarrow> u16 \<times> 'd" where "inw B port d = in16 B port d"
definition outw :: "'d bus \<Rightarrow> u16 \<Rightarrow> u16 \<Rightarrow> 'd \<Rightarrow> 'd" where "outw B port v d = out16 B port v d"

subsection \<open>\<^verbatim>\<open>pic.c\<close>\<close>

definition PIC_MASTER_CMD :: u16 where "PIC_MASTER_CMD = 0x20"
definition PIC_MASTER_DAT :: u16 where "PIC_MASTER_DAT = 0x21"
definition PIC_SLAVE_CMD :: u16 where "PIC_SLAVE_CMD = 0xa0"
definition PIC_SLAVE_DAT :: u16 where "PIC_SLAVE_DAT = 0xa1"
definition PIC_FIRST_VECTOR :: u8 where "PIC_FIRST_VECTOR = 0x20"
definition PIC_IRQ_PITTIMER :: u8 where "PIC_IRQ_PITTIMER = 0x00"
definition PIC_IRQ_KEYBOARD :: u8 where "PIC_IRQ_KEYBOARD = 0x01"
definition PIC_IRQ_ATABUS_MASTER :: u8 where "PIC_IRQ_ATABUS_MASTER = 0x0e"
definition PIC_IRQ_ATABUS_SLAVE :: u8 where "PIC_IRQ_ATABUS_SLAVE = 0x0f"

definition SMALL_WAIT :: "'d bus \<Rightarrow> 'd \<Rightarrow> 'd" where "SMALL_WAIT B d = outb B 0x80 0 d"
definition USE_ICW4 :: u8 where "USE_ICW4 = 1"
definition ICW1_INIT :: u8 where "ICW1_INIT = 0x10"
definition MODE_8086 :: u8 where "MODE_8086 = 1"

text \<open>A list of writes, each followed by the small wait.\<close>

fun out_wait :: "'d bus \<Rightarrow> (u16 \<times> u8) list \<Rightarrow> 'd \<Rightarrow> 'd" where
  "out_wait B [] d = d"
| "out_wait B ((port, v) # ws) d = out_wait B ws (SMALL_WAIT B (outb B port v d))"

definition pic_map :: "'d bus \<Rightarrow> u8 \<Rightarrow> u8 \<Rightarrow> 'd \<Rightarrow> 'd" where
  "pic_map B offset_master offset_slave d =
    (let d1 = out_wait B
           [(PIC_MASTER_CMD, ICW1_INIT OR USE_ICW4), (PIC_SLAVE_CMD, ICW1_INIT OR USE_ICW4),
            (PIC_MASTER_DAT, offset_master), (PIC_SLAVE_DAT, offset_slave),
            (PIC_MASTER_DAT, 4), (PIC_SLAVE_DAT, 2),
            (PIC_MASTER_DAT, MODE_8086), (PIC_MASTER_DAT, MODE_8086)] d;
         d2 = outb B PIC_MASTER_DAT 0xfb d1
     in outb B PIC_SLAVE_DAT 0xff (outb B PIC_SLAVE_DAT 0xff d2))"

definition irq_line :: "u8 \<Rightarrow> u16 \<times> u8" where
  "irq_line irq = (if irq < 8 then (PIC_MASTER_DAT, irq) else (PIC_SLAVE_DAT, irq - 8))"

definition pic_block_irq :: "'d bus \<Rightarrow> u8 \<Rightarrow> 'd \<Rightarrow> 'd" where
  "pic_block_irq B irq d =
    (let (port, line) = irq_line irq; (v, d1) = inb B port d
     in outb B port (v OR ucast (shl32 1 (unat line))) d1)"

definition pic_unblock_irq :: "'d bus \<Rightarrow> u8 \<Rightarrow> 'd \<Rightarrow> 'd" where
  "pic_unblock_irq B irq d =
    (let (port, line) = irq_line irq; (v, d1) = inb B port d
     in outb B port (v AND ucast (NOT (shl32 1 (unat line)))) d1)"

definition pic_eoi :: "'d bus \<Rightarrow> u8 \<Rightarrow> 'd \<Rightarrow> 'd" where
  "pic_eoi B irq d = outb B PIC_MASTER_CMD 0x20 (if 8 \<le> irq then outb B PIC_SLAVE_CMD 0x20 d else d)"

subsection \<open>\<^verbatim>\<open>uart.c\<close>\<close>

definition COM_PORT_STATUS_READY :: u8 where "COM_PORT_STATUS_READY = 0"
definition COM_PORT_STATUS_BROKEN :: u8 where "COM_PORT_STATUS_BROKEN = 1"
definition COM_PORT_STATUS_BUSY :: u8 where "COM_PORT_STATUS_BUSY = 2"

definition COM_PORT_OFFSET_INT_ID :: u16 where "COM_PORT_OFFSET_INT_ID = 2"
definition COM_PORT_OFFSET_LINE_CTRL :: u16 where "COM_PORT_OFFSET_LINE_CTRL = 3"
definition COM_PORT_OFFSET_MODEM_CTRL :: u16 where "COM_PORT_OFFSET_MODEM_CTRL = 4"
definition COM_PORT_OFFSET_LINE_STAT :: u16 where "COM_PORT_OFFSET_LINE_STAT = 5"
definition COM_PORT_OFFSET_DATA :: u16 where "COM_PORT_OFFSET_DATA = 0"
definition COM_PORT_OFFSET_INT_ENABLE :: u16 where "COM_PORT_OFFSET_INT_ENABLE = 1"
definition COM_PORT_OFFSET_BAUD_DIVISOR_LOW :: u16 where "COM_PORT_OFFSET_BAUD_DIVISOR_LOW = 0"
definition COM_PORT_OFFSET_BAUD_DIVISOR_HIGH :: u16 where "COM_PORT_OFFSET_BAUD_DIVISOR_HIGH = 1"
definition LINE_STAT_DR :: u8 where "LINE_STAT_DR = 0x01"
definition LINE_STAT_THRE :: u8 where "LINE_STAT_THRE = 0x20"

definition SET_LINE_CTRL :: "u8 \<Rightarrow> u8 \<Rightarrow> u8 \<Rightarrow> u8" where
  "SET_LINE_CTRL char_len stop parity = ((char_len - 5) AND 3) OR push_bit 2 stop OR push_bit 3 parity"

record uart_com_port =
  io_port_base :: u16
  status :: u8

definition INIT_COM_PORT :: "u16 \<Rightarrow> uart_com_port" where
  "INIT_COM_PORT base = \<lparr>io_port_base = base, status = COM_PORT_STATUS_BUSY\<rparr>"

definition com_ports :: "uart_com_port list" where
  "com_ports = map INIT_COM_PORT [0x3f8, 0x2f8, 0x3e8, 0x2e8, 0x5f8, 0x4f8, 0x5e8, 0x4e8]"

definition com_port_setup :: "'d bus \<Rightarrow> uart_com_port \<Rightarrow> u16 \<Rightarrow> 'd \<Rightarrow> int \<times> uart_com_port \<times> 'd" where
  "com_port_setup B port divisor d =
    (let base = io_port_base port;
         d1 = outb B (base + COM_PORT_OFFSET_INT_ENABLE) 0 d;
         d2 = outb B (base + COM_PORT_OFFSET_LINE_CTRL) 0x80 d1;
         d3 = outb B (base + COM_PORT_OFFSET_BAUD_DIVISOR_LOW) (ucast (divisor AND 0xff)) d2;
         d4 = outb B (base + COM_PORT_OFFSET_BAUD_DIVISOR_HIGH) (ucast (drop_bit 8 divisor AND 0xff)) d3;
         d5 = outb B (base + COM_PORT_OFFSET_LINE_CTRL) (SET_LINE_CTRL 8 0 0) d4;
         d6 = outb B (base + COM_PORT_OFFSET_INT_ID) 0xc7 d5;
         d7 = outb B (base + COM_PORT_OFFSET_MODEM_CTRL) 0x0b d6;
         d8 = outb B (base + COM_PORT_OFFSET_MODEM_CTRL) 0x1e d7;
         d9 = outb B (base + COM_PORT_OFFSET_DATA) 0xc4 d8;
         (v, d10) = inb B (base + COM_PORT_OFFSET_DATA) d9
     in if v \<noteq> 0xc4 then (-1, port\<lparr>status := COM_PORT_STATUS_BROKEN\<rparr>, d10)
        else (0, port\<lparr>status := COM_PORT_STATUS_READY\<rparr>, outb B (base + COM_PORT_OFFSET_MODEM_CTRL) 0x0f d10))"

definition uart_can_send :: "'d bus \<Rightarrow> uart_com_port \<Rightarrow> 'd \<Rightarrow> bool \<times> 'd" where
  "uart_can_send B port d =
    (let (v, d1) = inb B (io_port_base port + COM_PORT_OFFSET_LINE_STAT) d in (v AND LINE_STAT_THRE \<noteq> 0, d1))"

definition uart_can_read :: "'d bus \<Rightarrow> uart_com_port \<Rightarrow> 'd \<Rightarrow> bool \<times> 'd" where
  "uart_can_read B port d =
    (let (v, d1) = inb B (io_port_base port + COM_PORT_OFFSET_LINE_STAT) d in (v AND LINE_STAT_DR \<noteq> 0, d1))"

partial_function (option) wait_send :: "'d bus \<Rightarrow> uart_com_port \<Rightarrow> 'd \<Rightarrow> 'd option" where
  "wait_send B port d = (let (ok, d1) = uart_can_send B port d in if ok then Some d1 else wait_send B port d1)"

partial_function (option) wait_read :: "'d bus \<Rightarrow> uart_com_port \<Rightarrow> 'd \<Rightarrow> 'd option" where
  "wait_read B port d = (let (ok, d1) = uart_can_read B port d in if ok then Some d1 else wait_read B port d1)"

definition com_send :: "'d bus \<Rightarrow> uart_com_port \<Rightarrow> u8 \<Rightarrow> 'd \<Rightarrow> 'd option" where
  "com_send B port c d =
    (if status port = COM_PORT_STATUS_READY
     then do { d1 \<leftarrow> wait_send B port d; Some (outb B (io_port_base port + COM_PORT_OFFSET_DATA) c d1) }
     else Some d)"

partial_function (option) com_sends :: "'d bus \<Rightarrow> uart_com_port \<Rightarrow> u64 \<Rightarrow> mem \<Rightarrow> 'd \<Rightarrow> 'd option" where
  "com_sends B port s m d =
    (if m s = 0 then Some d
     else Option.bind (com_send B port (m s) d) (\<lambda>d1. com_sends B port (s + 1) m d1))"

definition com_read :: "'d bus \<Rightarrow> uart_com_port \<Rightarrow> 'd \<Rightarrow> (u8 \<times> 'd) option" where
  "com_read B port d =
    (if status port = COM_PORT_STATUS_READY
     then do { d1 \<leftarrow> wait_read B port d; Some (inb B (io_port_base port + COM_PORT_OFFSET_DATA) d1) }
     else Some (0, d))"

partial_function (option) com_reads :: "'d bus \<Rightarrow> uart_com_port \<Rightarrow> u64 \<Rightarrow> u8 \<Rightarrow> mem \<Rightarrow> 'd \<Rightarrow> (mem \<times> 'd) option" where
  "com_reads B port buff delim m d =
    Option.bind (com_read B port d) (\<lambda>r.
      if fst r = delim then Some (m, snd r)
      else com_reads B port (buff + 1) delim (m(buff := fst r)) (snd r))"

text \<open>
  The loop of \<open>x64_uart_init\<close> over the ports; \<open>msg1\<close> and \<open>msg2\<close> are the addresses of its two literals. The
  state is the ports tried so far, the index of \<open>uart_port\<close> and the devices.
\<close>

fun uart_init_loop :: "'d bus \<Rightarrow> u64 \<Rightarrow> u64 \<Rightarrow> mem \<Rightarrow> uart_com_port list \<Rightarrow> uart_com_port list \<Rightarrow> nat option \<Rightarrow> 'd \<Rightarrow>
    (uart_com_port list \<times> nat option \<times> 'd) option" where
  "uart_init_loop B msg1 msg2 m tried [] up d = Some (tried, up, d)"
| "uart_init_loop B msg1 msg2 m tried (port # ports) up d =
    (let (r, port', d1) = com_port_setup B port 3 d
     in if r = 0
        then do {
          let up' = (if up = None then Some (length tried) else up);
          d2 \<leftarrow> com_sends B port' msg1 m d1;
          d3 \<leftarrow> com_sends B port' msg2 m d2;
          uart_init_loop B msg1 msg2 m (tried @ [port']) ports up' d3 }
        else uart_init_loop B msg1 msg2 m (tried @ [port']) ports up d1)"

definition x64_uart_init :: "'d bus \<Rightarrow> u64 \<Rightarrow> u64 \<Rightarrow> mem \<Rightarrow> 'd \<Rightarrow> (int \<times> uart_com_port list \<times> nat option \<times> 'd) option" where
  "x64_uart_init B msg1 msg2 m d = do {
    (ports, up, d1) \<leftarrow> uart_init_loop B msg1 msg2 m [] com_ports None d;
    Some (if up = None then -1 else 0, ports, up, d1) }"

text \<open>\<open>kputc\<close> and \<open>kputs\<close> dereference \<open>uart_port\<close>.\<close>

definition kputc :: "'d bus \<Rightarrow> uart_com_port option \<Rightarrow> u8 \<Rightarrow> 'd \<Rightarrow> 'd option" where
  "kputc B up c d = do { port \<leftarrow> up; com_send B port c d }"

definition kputs :: "'d bus \<Rightarrow> uart_com_port option \<Rightarrow> u64 \<Rightarrow> mem \<Rightarrow> 'd \<Rightarrow> 'd option" where
  "kputs B up str m d = do { port \<leftarrow> up; com_sends B port str m d }"

section \<open>Lemmas\<close>

text \<open>
  The interrupt mask registers of the two controllers: a read of a data port gives the mask, a write
  sets it.
\<close>

definition pic_regs :: "'d bus \<Rightarrow> (u16 \<Rightarrow> 'd \<Rightarrow> u8) \<Rightarrow> bool" where
  "pic_regs B imr \<longleftrightarrow> (\<forall>p \<in> {PIC_MASTER_DAT, PIC_SLAVE_DAT}. (\<forall>d. in8 B p d = (imr p d, d)) \<and>
    (\<forall>q \<in> {PIC_MASTER_DAT, PIC_SLAVE_DAT}. \<forall>v d. imr q (out8 B p v d) = (if q = p then v else imr q d)))"

definition irq_masked :: "(u16 \<Rightarrow> 'd \<Rightarrow> u8) \<Rightarrow> u8 \<Rightarrow> 'd \<Rightarrow> bool" where
  "irq_masked imr irq d = bit (imr (fst (irq_line irq)) d) (unat (snd (irq_line irq)))"

lemma irq_line_range: "irq < 16 \<Longrightarrow> fst (irq_line irq) \<in> {PIC_MASTER_DAT, PIC_SLAVE_DAT} \<and> unat (snd (irq_line irq)) < 8"
  by (auto simp: irq_line_def word_less_nat_alt unat_sub_if')

lemma irq_line_inj: "i < 16 \<Longrightarrow> j < 16 \<Longrightarrow> irq_line i = irq_line j \<longleftrightarrow> i = j"
  by (auto simp: irq_line_def PIC_MASTER_DAT_def PIC_SLAVE_DAT_def)

lemma bit_line:
  assumes "k < 8"
  shows "bit (ucast (shl32 1 k) :: u8) n \<longleftrightarrow> n = k" and "bit (ucast (NOT (shl32 1 k)) :: u8) n \<longleftrightarrow> n < 8 \<and> n \<noteq> k"
  using assms by (auto simp: shl32_def bit_unsigned_iff bit_not_iff bit_push_bit_iff bit_1_iff bit_exp_iff)

lemma mask_write:
  assumes "pic_regs B imr" and "i < 16" and "j < 16"
  shows "irq_masked imr j (pic_block_irq B i d) \<longleftrightarrow> j = i \<or> irq_masked imr j d"
    and "irq_masked imr j (pic_unblock_irq B i d) \<longleftrightarrow> j \<noteq> i \<and> irq_masked imr j d"
proof -
  obtain p k where i: "irq_line i = (p, k)" by fastforce
  obtain q l where j: "irq_line j = (q, l)" by fastforce
  have r: "p \<in> {PIC_MASTER_DAT, PIC_SLAVE_DAT}" "unat k < 8" "q \<in> {PIC_MASTER_DAT, PIC_SLAVE_DAT}" "unat l < 8"
    using irq_line_range [OF assms(2)] irq_line_range [OF assms(3)] i j by auto
  have eq: "j = i \<longleftrightarrow> q = p \<and> unat l = unat k" using irq_line_inj [OF assms(3,2)] i j by (auto simp: word_unat_eq_iff)
  have rd: "in8 B p d = (imr p d, d)" and wr: "imr q (out8 B p v d) = (if q = p then v else imr q d)" for v
    using assms(1) r(1,3) unfolding pic_regs_def by blast+
  then have wr': "q = p \<Longrightarrow> imr p (out8 B p v d) = v" for v by metis
  show "irq_masked imr j (pic_block_irq B i d) \<longleftrightarrow> j = i \<or> irq_masked imr j d"
    by (cases "q = p") (auto simp: irq_masked_def pic_block_irq_def inb_def outb_def Let_def i j rd wr wr' bit_or_iff bit_line r eq)
  show "irq_masked imr j (pic_unblock_irq B i d) \<longleftrightarrow> j \<noteq> i \<and> irq_masked imr j d"
    by (cases "q = p") (auto simp: irq_masked_def pic_unblock_irq_def inb_def outb_def Let_def i j rd wr wr' bit_and_iff bit_line r eq)
qed

text \<open>
  A serial port as its data sheet describes it: \<open>sent\<close> are the bytes it got, reading the line status
  sends nothing, a write of the data register appends a byte, and the transmitter becomes ready after
  finitely many polls.
\<close>

definition poll :: "'d bus \<Rightarrow> uart_com_port \<Rightarrow> 'd \<Rightarrow> 'd" where
  "poll B port d = snd (in8 B (io_port_base port + 5) d)"

definition uart_works :: "'d bus \<Rightarrow> uart_com_port \<Rightarrow> ('d \<Rightarrow> u8 list) \<Rightarrow> bool" where
  "uart_works B port sent \<longleftrightarrow> status port = COM_PORT_STATUS_READY \<and>
    (\<forall>d. sent (poll B port d) = sent d) \<and> (\<forall>d c. sent (out8 B (io_port_base port) c d) = sent d @ [c]) \<and>
    (\<forall>d. \<exists>n. fst (in8 B (io_port_base port + 5) ((poll B port ^^ n) d)) AND 0x20 \<noteq> 0)"

lemma wait_send_returns:
  assumes "\<forall>d. sent (poll B port d) = sent d"
  shows "fst (in8 B (io_port_base port + 5) ((poll B port ^^ n) d)) AND 0x20 \<noteq> 0 \<Longrightarrow>
    \<exists>d'. wait_send B port d = Some d' \<and> sent d' = sent d"
proof (induction n arbitrary: d)
  case 0
  then show ?case using assms
    by (subst wait_send.simps)
      (simp add: uart_can_send_def inb_def LINE_STAT_THRE_def COM_PORT_OFFSET_LINE_STAT_def poll_def split_beta)
next
  case (Suc n)
  from Suc.prems have "fst (in8 B (io_port_base port + 5) ((poll B port ^^ n) (poll B port d))) AND 0x20 \<noteq> 0"
    by (simp add: funpow_swap1)
  from Suc.IH [OF this] assms show ?case
    by (subst wait_send.simps)
      (auto simp: uart_can_send_def inb_def LINE_STAT_THRE_def COM_PORT_OFFSET_LINE_STAT_def poll_def split_beta)
qed

lemma com_sends_string:
  assumes w: "uart_works B port sent" and s: "cstr m s xs"
  shows "\<exists>d'. com_sends B port s m d = Some d' \<and> sent d' = sent d @ xs"
  using s
proof (induction xs arbitrary: s d)
  case Nil
  then show ?case by (simp add: com_sends.simps)
next
  case (Cons x xs)
  obtain n where "fst (in8 B (io_port_base port + 5) ((poll B port ^^ n) d)) AND 0x20 \<noteq> 0"
    using w unfolding uart_works_def by blast
  then obtain d1 where d1: "wait_send B port d = Some d1" "sent d1 = sent d"
    using wait_send_returns [of sent B port n d] w by (auto simp: uart_works_def)
  obtain d' where "com_sends B port (s + 1) m (out8 B (io_port_base port) x d1) = Some d'"
      "sent d' = sent (out8 B (io_port_base port) x d1) @ xs"
    using Cons by auto
  then show ?case using d1 w Cons.prems
    by (subst com_sends.simps) (auto simp: com_send_def uart_works_def outb_def COM_PORT_OFFSET_DATA_def)
qed

text \<open>A transmitter that never becomes ready blocks the sender for ever.\<close>

lemma wait_send_stuck:
  assumes "\<And>n. fst (in8 B (io_port_base port + 5) ((poll B port ^^ n) d)) AND 0x20 = 0"
  shows "wait_send B port d = None"
proof (rule ccontr)
  assume "wait_send B port d \<noteq> None"
  then obtain r where r: "wait_send B port d = Some r" by blast
  have "\<exists>n. fst (in8 B (io_port_base port + 5) ((poll B port ^^ n) d)) AND 0x20 \<noteq> 0"
  proof (rule wait_send.raw_induct [where P = "\<lambda>B port d r.
      \<exists>n. fst (in8 B (io_port_base port + 5) ((poll B port ^^ n) d)) AND 0x20 \<noteq> 0", OF _ r], goal_cases)
    case (1 f B port d r)
    show ?case
    proof (cases "fst (in8 B (io_port_base port + 5) d) AND 0x20 = 0")
      case True
      with 1(2) have "f B port (poll B port d) = Some r"
        by (simp add: uart_can_send_def inb_def LINE_STAT_THRE_def COM_PORT_OFFSET_LINE_STAT_def poll_def split_beta Let_def)
      from 1(1) [OF this] obtain n where "fst (in8 B (io_port_base port + 5) ((poll B port ^^ n) (poll B port d))) AND 0x20 \<noteq> 0" by blast
      then show ?thesis by (intro exI [of _ "Suc n"]) (simp add: funpow_swap1)
    next
      case False
      then show ?thesis by (intro exI [of _ 0]) simp
    qed
  qed
  then show False using assms by simp
qed

text \<open>The first port that answers becomes \<open>uart_port\<close>; without one the result is -1.\<close>

lemma uart_init_loop_ports:
  assumes "uart_init_loop B msg1 msg2 m tried ports up d = Some (ports', up', d')"
    and "\<And>i. up = Some i \<Longrightarrow> i < length tried \<and> status (tried ! i) = COM_PORT_STATUS_READY"
    and "up = None \<Longrightarrow> \<forall>p \<in> set tried. status p = COM_PORT_STATUS_BROKEN"
  shows "length ports' = length tried + length ports \<and>
    (\<forall>i. up' = Some i \<longrightarrow> i < length ports' \<and> status (ports' ! i) = COM_PORT_STATUS_READY) \<and>
    (up' = None \<longrightarrow> (\<forall>p \<in> set ports'. status p = COM_PORT_STATUS_BROKEN))"
  using assms
proof (induction ports arbitrary: tried up d)
  case (Cons port ports)
  obtain r port' d1 where s: "com_port_setup B port 3 d = (r, port', d1)" by (metis prod_cases3)
  then have st: "if r = 0 then status port' = COM_PORT_STATUS_READY else status port' = COM_PORT_STATUS_BROKEN"
    by (auto simp: com_port_setup_def Let_def split: prod.splits if_splits)
  show ?case
  proof (cases "r = 0")
    case True
    let ?up = "if up = None then Some (length tried) else up"
    obtain d3 where "uart_init_loop B msg1 msg2 m (tried @ [port']) ports ?up d3 = Some (ports', up', d')"
      using Cons.prems(1) s True by (auto simp: bind_eq_Some_conv Let_def)
    from Cons.IH [OF this] show ?thesis using Cons.prems(2) st True by (fastforce simp: nth_append split: if_splits)
  next
    case False
    then have "uart_init_loop B msg1 msg2 m (tried @ [port']) ports up d1 = Some (ports', up', d')"
      using Cons.prems(1) s by simp
    from Cons.IH [OF this] show ?thesis using Cons.prems(2,3) st False by (fastforce simp: nth_append)
  qed
qed auto

section \<open>Properties\<close>

text \<open>
  Masking interrupts. On a controller whose data ports read and write its mask,
  \<open>pic_block_irq\<close> masks the given one of the sixteen lines and \<open>pic_unblock_irq\<close> unmasks it, and neither
  changes any other line.
\<close>

theorem pic_masks_one_line:
  assumes "pic_regs B imr" and "i < 16" and "j < 16"
  shows "(irq_masked imr j (pic_block_irq B i d) \<longleftrightarrow> j = i \<or> irq_masked imr j d) \<and>
    (irq_masked imr j (pic_unblock_irq B i d) \<longleftrightarrow> j \<noteq> i \<and> irq_masked imr j d)"
  using mask_write [OF assms] by simp

definition latch_bus :: "(u16 \<Rightarrow> u8) bus" where
  "latch_bus = \<lparr>in8 = (\<lambda>p d. (d p, d)), out8 = (\<lambda>p v d. d(p := v)), in16 = (\<lambda>p d. (0, d)), out16 = (\<lambda>p v d. d)\<rparr>"

theorem pic_masks_one_line_witness:
  "\<not> irq_masked (\<lambda>p d. d p) 14 (pic_unblock_irq latch_bus 14 (\<lambda>_. 0xff)) \<and>
    irq_masked (\<lambda>p d. d p) 14 (pic_block_irq latch_bus 14 (\<lambda>_. 0xff))"
proof -
  have "pic_regs latch_bus (\<lambda>p d. d p)" by (simp add: pic_regs_def latch_bus_def)
  from pic_masks_one_line [OF this, of 14 14 "\<lambda>_. 0xff"] show ?thesis by simp
qed

text \<open>
  Sending a string. On a serial port that becomes ready after finitely many polls each time,
  \<open>kputs\<close> returns and exactly the bytes of the string have been sent, in order.
\<close>

theorem kputs_sends_string:
  assumes "uart_works B port sent" and "cstr m s xs"
  shows "\<exists>d'. kputs B (Some port) s m d = Some d' \<and> sent d' = sent d @ xs"
  using com_sends_string [OF assms] by (simp add: kputs_def)

text \<open>A port that is busy for two polls after every byte.\<close>

definition slow_uart :: "(nat \<times> u8 list) bus" where
  "slow_uart = \<lparr>in8 = (\<lambda>p (n, s). (if n = 0 then 0x20 else 0, (n - 1, s))), out8 = (\<lambda>p v (n, s). (2, s @ [v])),
    in16 = (\<lambda>p d. (0, d)), out16 = (\<lambda>p v d. d)\<rparr>"

theorem kputs_sends_string_witness:
  "\<exists>d'. kputs slow_uart (Some \<lparr>io_port_base = 0x3f8, status = COM_PORT_STATUS_READY\<rparr>) 200 two_strings (0, []) = Some d' \<and>
    snd d' = [97, 98, 99]"
proof -
  let ?p = "\<lparr>io_port_base = 0x3f8, status = COM_PORT_STATUS_READY\<rparr>"
  have "(poll slow_uart ?p ^^ n) (k, s) = (k - n, s)" for n k s
    by (induction n) (simp_all add: poll_def slow_uart_def)
  then have "uart_works slow_uart ?p snd"
    by (auto simp: uart_works_def poll_def) (auto simp: slow_uart_def intro!: exI)
  from kputs_sends_string [OF this two_strings(2), of "(0, [])"] show ?thesis by simp
qed

end
