(* ===== verification/Interrupt.thy ===== *)
theory Interrupt
  imports Syscall Printk Hardware
begin

text \<open>
  Interrupts: \<open>interrupt_dispatch\<close> of \<^verbatim>\<open>arch/x64/int/idt.c\<close> on the whole machine, with the timer, the run
  queue, the system calls, the interrupt controller and the console. The main result says with which
  registers a preempted process is resumed.
\<close>

section \<open>Model\<close>

definition INT_DE :: u64 where "INT_DE = 0"
definition INT_GP :: u64 where "INT_GP = 13"
definition INT_PF :: u64 where "INT_PF = 14"

text \<open>
  The machine: the kernel's tables, the run queue, the timer with its callbacks, the devices on the
  bus, and what \<open>printk\<close> has printed.
\<close>

record 'd machine =
  kern :: kernel
  runq :: sched
  tmr :: "(sched \<times> int) timer"
  devs :: 'd
  console :: "u8 list"

definition emit :: "string \<Rightarrow> u64 list \<Rightarrow> 'd machine \<Rightarrow> 'd machine option" where
  "emit fmt args M = do { b \<leftarrow> printk (kmem (kern M)) (chars fmt) args; Some (M\<lparr>console := console M @ b\<rparr>) }"

definition timer_interrupt :: "'d bus \<Rightarrow> register_ctx \<Rightarrow> 'd machine \<Rightarrow> (register_ctx \<times> 'd machine) option" where
  "timer_interrupt B c M = do {
    let proc_save = current_proc (kern M);
    (tm1, q1, cur) \<leftarrow> timer_tick (tmr M) (runq M, proc_save);
    let k1 = (kern M)\<lparr>current_proc := cur\<rparr>;
    (c1, k2) \<leftarrow> (if proc_save \<noteq> cur then do {
        k2 \<leftarrow> (if 0 \<le> proc_save \<and> rip c < 0xffff800000000000
               then do { p \<leftarrow> nth_int (procs k1) proc_save;
                         Some (k1\<lparr>procs := (procs k1)[nat proc_save := p\<lparr>ctx := c\<rparr>]\<rparr>) }
               else Some k1);
        p \<leftarrow> nth_int (procs k2) cur;
        Some (ctx p, k2) }
      else Some (c, k1));
    Some (c1, M\<lparr>kern := k2, runq := q1, tmr := tm1, devs := pic_eoi B 0 (devs M)\<rparr>) }"

definition keyboard_interrupt :: "'d bus \<Rightarrow> 'd machine \<Rightarrow> 'd machine option" where
  "keyboard_interrupt B M = do {
    let (sc, d1) = inb B 0x60 (devs M);
    M1 \<leftarrow> (if sc AND 0x80 = 0 then emit ''Keystroke (%#x)\<newline>'' [ucast sc] (M\<lparr>devs := d1\<rparr>) else Some (M\<lparr>devs := d1\<rparr>));
    Some (M1\<lparr>devs := pic_eoi B 1 (devs M1)\<rparr>) }"

definition syscall_interrupt :: "boot_info \<Rightarrow> kernel vfs_env \<Rightarrow> register_ctx \<Rightarrow> 'd machine \<Rightarrow> (register_ctx \<times> 'd machine) option" where
  "syscall_interrupt bi E c M =
    (if rax c = 100 then do {
       M1 \<leftarrow> emit ''(Task %d dbg) '%s'\<newline>'' [word_of_int (current_proc (kern M)), rsi c] M;
       Some (c, M1) }
     else do {
       (sysret, k1) \<leftarrow> syscall_dispatch bi E (rax c) (rsi c) (rbx c) (rcx c) (kern M);
       Some (c\<lparr>rax := word_of_int sysret\<rparr>, M\<lparr>kern := k1\<rparr>) })"

text \<open>The result is the set of registers that is loaded when the handler returns. A panic and the
  endless loop for an unknown vector do not return.\<close>

definition interrupt_dispatch :: "'d bus \<Rightarrow> boot_info \<Rightarrow> kernel vfs_env \<Rightarrow> register_ctx \<Rightarrow> 'd machine \<Rightarrow>
    (register_ctx \<times> 'd machine) option" where
  "interrupt_dispatch B bi E c M =
    (if vector c = INT_PF \<or> vector c = INT_GP \<or> vector c = INT_DE then None
     else if vector c = ucast (PIC_FIRST_VECTOR + PIC_IRQ_PITTIMER) then timer_interrupt B c M
     else if vector c = ucast (PIC_FIRST_VECTOR + PIC_IRQ_KEYBOARD) then map_option (Pair c) (keyboard_interrupt B M)
     else if vector c = ucast (PIC_FIRST_VECTOR + PIC_IRQ_ATABUS_MASTER) \<or> vector c = ucast (PIC_FIRST_VECTOR + PIC_IRQ_ATABUS_SLAVE)
     then Some (c, M\<lparr>devs := pic_eoi B 14 (devs M)\<rparr>)
     else if vector c = ucast SYSCALL_VECTOR then syscall_interrupt bi E c M
     else None)"

section \<open>System calls keep the saved contexts\<close>

definition same_procs :: "'x kernel_scheme \<Rightarrow> 'x kernel_scheme \<Rightarrow> bool" where
  "same_procs s s' \<longleftrightarrow> procs s' = procs s \<and> current_proc s' = current_proc s"

lemma same_procs_refl [simp]: "same_procs s s"
  and same_procs_trans: "same_procs s s1 \<Longrightarrow> same_procs s1 s2 \<Longrightarrow> same_procs s s2"
  and same_procs_tables: "same_tables s s' \<Longrightarrow> same_procs s s'"
  and same_procs_upd [simp]: "same_procs s (upd_node k g s')  \<longleftrightarrow> same_procs s s'" "same_procs s (upd_file k h s') \<longleftrightarrow> same_procs s s'"
    "same_procs (upd_node k g s) s' \<longleftrightarrow> same_procs s s'"
  by (auto simp: same_procs_def same_tables_def upd_node_def upd_file_def)

context fs_contract
begin

lemma get_node_procs:
  assumes "get_node_with_len E parent nm len s = Some (r, s')"
  shows "same_procs s s'"
proof (cases "s' = s")
  case False
  then obtain ft par mp cid s2 f2 q where k: "\<not> find_free_node s < 0"
      and ret: "retrieve_child (fs_types E ft) par nm len (upd_node (nat (find_free_node s)) (\<lambda>n. n\<lparr>mountpoint := mp\<rparr>) s) = Some (cid, s2)"
      and n: "node_from_id (fs_types E f2) cid (nat (find_free_node s)) s2 = Some (q, s')"
    using assms by (auto simp: get_node_with_len_def bind_eq_Some_conv Let_def split: option.splits if_splits)
  let ?k = "nat (find_free_node s)"
  have t: "same_tables (upd_node ?k (\<lambda>n. n\<lparr>mountpoint := mp\<rparr>) s) s2" by (rule retrieve_frame [OF ret])
  have "?k < length (fsnodes s)" using nt.find_in_range [of "fsnodes s"] k by (auto simp: find_free_node_def)
  then have "?k < length (fsnodes s2)" using t by (simp add: same_tables_def)
  then have "\<exists>nd. same_tables (s2\<lparr>fsnodes := (fsnodes s2)[?k := nd]\<rparr>) s'" using node_frame [OF n] by blast
  then have "same_procs s2 s'" by (auto simp: same_tables_def same_procs_def)
  then show ?thesis using same_procs_tables [OF t] same_procs_trans by (metis same_procs_upd(3))
qed simp

lemma find_parent_loop_procs:
  assumes "find_parent_loop E' endp ld p parent path s = Some r" and "E' = E"
  shows "same_procs s (snd r)"
proof -
  have "E' = E \<longrightarrow> same_procs s (snd r)"
  proof (rule find_parent_loop.raw_induct [where P = "\<lambda>E' endp ld p parent path s r. E' = E \<longrightarrow> same_procs s (snd r)", OF _ assms(1)],
      intro impI, goal_cases)
    case (1 f E' endp ld p parent path s r)
    let ?nd = "strnchr path 47 (endp - path) (kmem s)" let ?fld = "0 < sint (?nd - path)"
    show ?case
    proof (cases "?nd = 0")
      case True
      with 1(2) show ?thesis by (auto simp: Let_def)
    next
      case False
      then obtain q s1 where q: "(if ?fld then get_node_with_len E parent path (?nd - path) s else Some (parent, s)) = Some (q, s1)"
        using 1(2,3) by (auto simp: Let_def bind_eq_Some_conv)
      then have r: "same_procs s s1" using get_node_procs by (auto split: if_splits)
      with False 1(2,3) q show ?thesis
        by (auto simp: Let_def bind_eq_Some_conv split: if_splits dest!: 1(1) intro: same_procs_trans)
    qed
  qed
  then show ?thesis using assms(2) by blast
qed

lemma vfs_open_procs:
  assumes "vfs_open E p path mode s = Some (fd, s')"
  shows "same_procs s s'"
proof -
  obtain par s1 where p: "find_parent_checkperm E (vfs_root s) path p s = Some (par, s1)"
    using assms by (auto simp: vfs_open_def bind_eq_Some_conv)
  have p1: "same_procs s s1"
    using p find_parent_loop_procs [OF _ refl]
    by (fastforce simp: find_parent_checkperm_def Let_def bind_eq_Some_conv split: if_splits)
  show ?thesis
  proof (cases "s' = s1")
    case False
    then obtain b node s2 where g: "get_node E par b s1 = Some (node, s2)" and n: "vfs_open_node E p mode node s2 = Some (fd, s')"
      using assms p by (auto simp: vfs_open_def bind_eq_Some_conv split: if_splits)
    have "same_procs s1 s2" using g get_node_procs by (auto simp: get_node_def split: if_splits)
    moreover have "same_procs s2 s'" using n
      by (auto simp: vfs_open_node_def Let_def bind_eq_Some_conv split: if_splits dest!: open_frame same_procs_tables)
    ultimately show ?thesis using p1 same_procs_trans by blast
  qed (use p1 in simp)
qed

text \<open>A system call changes no saved registers and does not switch.\<close>

lemma syscall_keeps_ctx:
  assumes "syscall_dispatch bi E vec p1 p2 p3 s = Some (r, s')"
  shows "map ctx (procs s') = map ctx (procs s) \<and> current_proc s' = current_proc s"
proof -
  have fdmap: "map ctx (procs (set_fdmap i j fd t)) = map ctx (procs t)" for i j fd and t :: "'x kernel_scheme"
    by (rule nth_equalityI) (auto simp: set_fdmap_def nth_update_any)
  consider "sys_open bi E p1 (ucast p2) s = Some (r, s')" | "sys_close E (sint p2) s = Some (r, s')"
    | "sys_read E (sint p2) p3 p1 s = Some (r, s')" | "sys_write E (sint p2) p3 p1 s = Some (r, s')" | "s' = s"
    using assms unfolding syscall_dispatch_def by (metis option.inject prod.inject)
  then show ?thesis
  proof cases
    case 1
    show ?thesis
    proof (cases "s' = s")
      case False
      then obtain pfd fp s1 fd s2 h where a: "new_prepend_cwd (proc_cwd bi (nat (current_proc s)) s) p1 s = Some (fp, s1)"
          "vfs_open E (current_proc s1) fp (ucast p2) s1 = Some (fd, s2)"
          "s' = (if fd < 0 then s2\<lparr>kheap := h\<rparr> else set_fdmap (current_proc s2) pfd fd (s2\<lparr>kheap := h\<rparr>))"
        using 1 by (auto simp: sys_open_def bind_eq_Some_conv Let_def split: if_splits)
      have "same_procs s s1" using new_prepend_cwd_frame [OF a(1)] by (auto simp: same_procs_def)
      then have "same_procs s s2" using vfs_open_procs [OF a(2)] same_procs_trans by blast
      then show ?thesis using a(3) by (simp add: same_procs_def fdmap) (simp add: set_fdmap_def)
    qed simp
  next
    case 2
    show ?thesis
    proof (cases "s' = s")
      case False
      then obtain fd where "vfs_close E fd (set_fdmap (current_proc s) (sint p2) (-1) s) = Some (r, s')"
        using 2 by (auto simp: sys_close_def bind_eq_Some_conv split: if_splits)
      from vfs_close_files [OF this] show ?thesis by (simp add: fdmap) (simp add: set_fdmap_def)
    qed simp
  next
    case 3
    then show ?thesis
      by (auto simp: sys_read_def bind_eq_Some_conv same_tables_def split: if_splits dest!: vfs_read_same)
  next
    case 4
    then show ?thesis
      by (auto simp: sys_write_def bind_eq_Some_conv same_tables_def split: if_splits dest!: vfs_write_same)
  qed simp
qed

end

section \<open>Interrupts keep the saved contexts\<close>

lemma emit_kern: "emit fmt args M = Some M' \<Longrightarrow> kern M' = kern M"
  by (auto simp: emit_def bind_eq_Some_conv)

lemma keyboard_kern: "keyboard_interrupt B M = Some M' \<Longrightarrow> kern M' = kern M"
  by (auto simp: keyboard_interrupt_def bind_eq_Some_conv Let_def split: prod.splits if_splits dest!: emit_kern)

text \<open>What a timer interrupt does to the process table, and which registers it returns.\<close>

lemma timer_interrupt_cases:
  fixes c :: register_ctx and M :: "'d machine"
  assumes "timer_interrupt B c M = Some (c', M')"
  defines "cur \<equiv> current_proc (kern M)" and "cur' \<equiv> current_proc (kern M')" and "ps \<equiv> procs (kern M)"
  shows "if cur' = cur then c' = c \<and> procs (kern M') = ps
    else procs (kern M') = (if 0 \<le> cur \<and> rip c < 0xffff800000000000 then ps[nat cur := (ps ! nat cur)\<lparr>ctx := c\<rparr>] else ps) \<and>
      (0 \<le> cur \<and> rip c < 0xffff800000000000 \<longrightarrow> nat cur < length ps) \<and>
      0 \<le> cur' \<and> nat cur' < length ps \<and> c' = ctx (procs (kern M') ! nat cur')"
proof -
  obtain tm q n where tick: "timer_tick (tmr M) (runq M, cur) = Some (tm, q, n)"
    using assms(1) by (auto simp: timer_interrupt_def bind_eq_Some_conv Let_def cur_def)
  then have n: "cur' = n"
    using assms(1) by (auto simp: timer_interrupt_def bind_eq_Some_conv Let_def cur_def cur'_def split: if_splits)
  show ?thesis
  proof (cases "cur = n")
    case True
    then show ?thesis using assms(1) tick n by (auto simp: timer_interrupt_def Let_def cur_def ps_def)
  next
    case False
    then show ?thesis using assms(1) tick n
      by (auto simp: timer_interrupt_def bind_eq_Some_conv Let_def cur_def ps_def nth_int_Some split: if_splits)
  qed
qed

text \<open>An interrupt changes the saved registers of the running process at most, and only the timer switches.\<close>

lemma dispatch_keeps_ctx:
  assumes fs: "fs_contract E" and d: "interrupt_dispatch B bi E c M = Some (c', M')"
  shows "length (procs (kern M')) = length (procs (kern M)) \<and>
    (\<forall>p. int p \<noteq> current_proc (kern M) \<longrightarrow> p < length (procs (kern M)) \<longrightarrow> ctx (procs (kern M') ! p) = ctx (procs (kern M) ! p)) \<and>
    (current_proc (kern M') = current_proc (kern M) \<or> timer_interrupt B c M = Some (c', M'))"
proof (cases "timer_interrupt B c M = Some (c', M')")
  case True
  show ?thesis using timer_interrupt_cases [OF True] True by (auto simp: nth_update_any split: if_splits)
next
  case False
  then consider "kern M' = kern M" | "syscall_interrupt bi E c M = Some (c', M')"
    using d keyboard_kern by (auto simp: interrupt_dispatch_def split: if_splits)
  then show ?thesis
  proof cases
    case 2
    then consider "kern M' = kern M"
      | r where "syscall_dispatch bi E (rax c) (rsi c) (rbx c) (rcx c) (kern M) = Some (r, kern M')"
      using emit_kern by (auto simp: syscall_interrupt_def bind_eq_Some_conv split: if_splits)
    then show ?thesis
    proof cases
      case 2
      note k = fs_contract.syscall_keeps_ctx [OF fs 2]
      then have "length (procs (kern M')) = length (procs (kern M))" by (metis length_map)
      then show ?thesis using k by (metis nth_map)
    qed simp
  qed simp
qed

text \<open>Any interrupts while process \<open>p\<close> does not run.\<close>

inductive others_run :: "'d bus \<Rightarrow> boot_info \<Rightarrow> kernel vfs_env \<Rightarrow> nat \<Rightarrow> 'd machine \<Rightarrow> 'd machine \<Rightarrow> bool" for B bi E p where
  none: "others_run B bi E p M M"
| one: "others_run B bi E p M M1 \<Longrightarrow> current_proc (kern M1) \<noteq> int p \<Longrightarrow> interrupt_dispatch B bi E c M1 = Some (c', M2) \<Longrightarrow>
    others_run B bi E p M M2"

lemma others_keep_ctx:
  assumes "others_run B bi E p M M'" and "fs_contract E" and "p < length (procs (kern M))"
  shows "length (procs (kern M')) = length (procs (kern M)) \<and> ctx (procs (kern M') ! p) = ctx (procs (kern M) ! p)"
  using assms
proof (induction rule: others_run.induct)
  case (one M M1 c c' M2)
  then show ?case using dispatch_keeps_ctx [OF one.prems(1) one.hyps(3)] by auto
qed simp

section \<open>Properties\<close>

text \<open>
  C7: Preemption. When a timer interrupt takes the processor away from process \<open>p\<close>, and after any
  interrupts of other processes (timer, system calls, devices) one gives it back, the registers that
  are loaded are exactly those \<open>p\<close> was interrupted with, provided it was interrupted in user mode; when it
  was interrupted inside the kernel, they are the ones that were saved the time before, so the work
  since then is repeated.
\<close>

theorem preempted_process_resumes:
  assumes "interrupt_dispatch B bi (tfs_env R base) c M = Some (c1, M1)" and "current_proc (kern M) = int p"
    and "current_proc (kern M1) \<noteq> int p" and "others_run B bi (tfs_env R base) p M1 M2" and "current_proc (kern M2) \<noteq> int p"
    and "interrupt_dispatch B bi (tfs_env R base) d M2 = Some (c2, M3)" and "current_proc (kern M3) = int p"
  shows "c2 = (if rip c < 0xffff800000000000 then c else ctx (procs (kern M) ! p))"
proof -
  have fs: "fs_contract (tfs_env R base)" by (rule tf.fs_contract_axioms)
  have t1: "timer_interrupt B c M = Some (c1, M1)" using dispatch_keeps_ctx [OF fs assms(1)] assms(2,3) by auto
  have t3: "timer_interrupt B d M2 = Some (c2, M3)" using dispatch_keeps_ctx [OF fs assms(6)] assms(5,7) by auto
  note k1 = timer_interrupt_cases [OF t1] and k3 = timer_interrupt_cases [OF t3]
  have p2: "p < length (procs (kern M2))" "c2 = ctx (procs (kern M3) ! p)" using k3 assms(5,7) by auto
  have len1: "length (procs (kern M1)) = length (procs (kern M))" using dispatch_keeps_ctx [OF fs assms(1)] by blast
  have p1: "p < length (procs (kern M1))"
  proof -
    have "length (procs (kern M2)) = length (procs (kern M1))"
      using assms(4) by (induction rule: others_run.induct) (auto dest!: dispatch_keeps_ctx [OF fs])
    then show ?thesis using p2(1) by simp
  qed
  have "ctx (procs (kern M3) ! p) = ctx (procs (kern M2) ! p)" using dispatch_keeps_ctx [OF fs assms(6)] p2(1) assms(5) by auto
  also have "\<dots> = ctx (procs (kern M1) ! p)" using others_keep_ctx [OF assms(4) fs p1] by blast
  also have "\<dots> = (if rip c < 0xffff800000000000 then c else ctx (procs (kern M) ! p))"
    using k1 assms(2,3) p1 len1 by (auto simp: nth_list_update split: if_splits)
  finally show ?thesis using p2(2) by simp
qed

definition quiet_bus :: "unit bus" where
  "quiet_bus = \<lparr>in8 = (\<lambda>p d. (0, d)), out8 = (\<lambda>p x d. d), in16 = (\<lambda>p d. (0, d)), out16 = (\<lambda>p x d. d)\<rparr>"

definition tick_ctx :: "u64 \<Rightarrow> register_ctx" where
  "tick_ctx pc = zero_ctx\<lparr>vector := 0x20, rip := pc\<rparr>"

definition demo_machine :: "unit machine" where
  "demo_machine = \<lparr>kern = demo_kernel\<lparr>procs := [free_proc, free_proc], current_proc := 0\<rparr>,
    runq = snd (enqueue_proc 0 (snd (enqueue_proc 1 sched_init))), tmr = arch_start_running_procs timer_init, devs = (), console = []\<rparr>"

lemma timer_interrupt_step:
  assumes "timer_tick (tmr M) (runq M, current_proc (kern M)) = Some (tm, q, n)" and "n \<noteq> current_proc (kern M)" and "0 \<le> n"
    and "nat n < length (procs (kern M))" and "0 \<le> current_proc (kern M)" and "nat (current_proc (kern M)) < length (procs (kern M))"
    and "rip c < 0xffff800000000000"
  shows "\<exists>c' M'. timer_interrupt B c M = Some (c', M') \<and> current_proc (kern M') = n \<and> tmr M' = tm \<and> runq M' = q \<and>
    length (procs (kern M')) = length (procs (kern M))"
  using assms by (simp add: timer_interrupt_def Let_def nth_int_def nth_opt_def)

lemma tick_schedules:
  assumes "next_handle_ind tm = 1" and "handles tm = \<lparr>cbk = Some schedule_set_current_proc, hperiod = 1\<rparr> # hs"
  shows "timer_tick tm (q, n) = Some (tm\<lparr>ticks := ticks tm + 1\<rparr>, snd (schedule q), fst (schedule q))"
  using assms by (simp add: timer_tick_def Let_def schedule_set_current_proc_def split_beta)

lemma schedule_next:
  assumes "sq_inv q" and "sq_list q = t # ts"
  shows "fst (schedule q) = t" and "sq_inv (snd (schedule q))" and "sq_list (snd (schedule q)) = ts @ [t]"
  using schedules_list [OF assms(1), of 1] assms(2) by (simp_all add: split_beta)

lemma demo_ticks:
  "\<exists>tm q. timer_tick (tmr demo_machine) (runq demo_machine, 0) = Some (tm, q, 1) \<and> (\<exists>tm' q'. timer_tick tm (q, 1) = Some (tm', q', 0))"
proof -
  let ?tm = "tmr demo_machine" and ?q = "runq demo_machine"
  obtain hs where tm: "next_handle_ind ?tm = 1" "handles ?tm = \<lparr>cbk = Some schedule_set_current_proc, hperiod = 1\<rparr> # hs"
    by (simp add: demo_machine_def arch_start_running_procs_def timer_init_def add_timer_handle_def MAX_TIMER_HANDLES_def numeral_eq_Suc)
  have q: "sq_inv ?q" "sq_list ?q = [1, 0]"
    by (simp_all add: demo_machine_def sq_inv_def sq_list_def sq_len_def enqueue_proc_def sq_full_def sched_init_def MAX_PROCS_def upt_conv_Cons)
  note s1 = schedule_next [OF q] note s2 = schedule_next(1) [OF s1(2), of 0 "[1]"]
  show ?thesis
    using tick_schedules [OF tm, of ?q 0] tick_schedules [of "?tm\<lparr>ticks := ticks ?tm + 1\<rparr>" hs "snd (schedule ?q)" 1] tm s1 s2 by simp
qed

theorem preempted_process_resumes_witness:
  "\<exists>c1 M1 M2. interrupt_dispatch quiet_bus demo_boot (tfs_env demo_ro 0x10000) (tick_ctx 0x200000042) demo_machine = Some (c1, M1) \<and>
    interrupt_dispatch quiet_bus demo_boot (tfs_env demo_ro 0x10000) (tick_ctx 0x300000000) M1 = Some (tick_ctx 0x200000042, M2)"
proof -
  let ?E = "tfs_env demo_ro 0x10000 :: kernel vfs_env"
  have v: "interrupt_dispatch quiet_bus demo_boot ?E (tick_ctx a) M = timer_interrupt quiet_bus (tick_ctx a) M" for a M
    by (simp add: interrupt_dispatch_def tick_ctx_def zero_ctx_def INT_PF_def INT_GP_def INT_DE_def PIC_FIRST_VECTOR_def PIC_IRQ_PITTIMER_def)
  have r: "rip (tick_ctx a) = a" for a by (simp add: tick_ctx_def)
  have d: "procs (kern demo_machine) = [free_proc, free_proc]" "current_proc (kern demo_machine) = 0" by (simp_all add: demo_machine_def)
  obtain tm q tm' q' where ticks: "timer_tick (tmr demo_machine) (runq demo_machine, 0) = Some (tm, q, 1)" "timer_tick tm (q, 1) = Some (tm', q', 0)"
    using demo_ticks by blast
  obtain c1 M1 where 1: "timer_interrupt quiet_bus (tick_ctx 0x200000042) demo_machine = Some (c1, M1)" "current_proc (kern M1) = 1"
      "tmr M1 = tm" "runq M1 = q" "length (procs (kern M1)) = 2"
    using timer_interrupt_step [of demo_machine tm q 1 "tick_ctx 0x200000042" quiet_bus] ticks(1) d r by auto
  obtain c2 M2 where 2: "timer_interrupt quiet_bus (tick_ctx 0x300000000) M1 = Some (c2, M2)" "current_proc (kern M2) = 0"
    using timer_interrupt_step [of M1 tm' q' 0 "tick_ctx 0x300000000" quiet_bus] ticks(2) 1(2-5) r by auto
  have "c2 = tick_ctx 0x200000042"
    using preempted_process_resumes [of quiet_bus demo_boot demo_ro "0x10000" "tick_ctx 0x200000042" demo_machine c1 M1 0 M1 "tick_ctx 0x300000000" c2 M2]
      1(1,2) 2 d(2) r by (simp add: v others_run.none)
  then show ?thesis using 1(1) 2(1) by (auto simp: v)
qed

end
