(* ===== verification/FirstProcess.thy ===== *)
theory FirstProcess
  imports Interrupt
begin

text \<open>
  The program of the first process, \<open>task1\<close> of \<^verbatim>\<open>generic/main.c\<close>, as the kernel sees it: three system-call
  interrupts with the registers that its inline assembly sets. The result puts the interrupt dispatch, the system calls,
  the virtual file system, the test file system, the heap and the formatted output together.
\<close>

section \<open>Model\<close>

text \<open>
  \<open>path\<close> is the address of the literal \<^verbatim>\<open>"test.txt"\<close> and \<open>buff\<close> that of the local array; the variable \<open>ret\<close> is an
  \<^verbatim>\<open>int\<close>. The endless loop at the end is left out.
\<close>

definition task1 :: "'d bus \<Rightarrow> boot_info \<Rightarrow> kernel vfs_env \<Rightarrow> u64 \<Rightarrow> u64 \<Rightarrow> register_ctx \<Rightarrow> 'd machine \<Rightarrow> (register_ctx \<times> 'd machine) option" where
  "task1 B bi E path buff c M = do {
    (c1, M1) \<leftarrow> interrupt_dispatch B bi E (c\<lparr>vector := ucast SYSCALL_VECTOR, rax := 0, rsi := path, rbx := 2\<rparr>) M;
    let ret = (ucast (rax c1) :: u32);
    (c2, M2) \<leftarrow> interrupt_dispatch B bi E (c1\<lparr>vector := ucast SYSCALL_VECTOR, rax := 2, rsi := buff, rbx := ucast ret, rcx := 128\<rparr>) M1;
    interrupt_dispatch B bi E (c2\<lparr>vector := ucast SYSCALL_VECTOR, rax := 100, rsi := buff\<rparr>) M2 }"

section \<open>The calls\<close>

lemma dispatch_syscall:
  "interrupt_dispatch B bi E (c\<lparr>vector := ucast SYSCALL_VECTOR, rax := a, rsi := x, rbx := y\<rparr>) M =
    syscall_interrupt bi E (c\<lparr>vector := ucast SYSCALL_VECTOR, rax := a, rsi := x, rbx := y\<rparr>) M"
  "interrupt_dispatch B bi E (c\<lparr>vector := ucast SYSCALL_VECTOR, rax := a, rsi := x, rbx := y, rcx := z\<rparr>) M =
    syscall_interrupt bi E (c\<lparr>vector := ucast SYSCALL_VECTOR, rax := a, rsi := x, rbx := y, rcx := z\<rparr>) M"
  "interrupt_dispatch B bi E (c\<lparr>vector := ucast SYSCALL_VECTOR, rax := a, rsi := x\<rparr>) M =
    syscall_interrupt bi E (c\<lparr>vector := ucast SYSCALL_VECTOR, rax := a, rsi := x\<rparr>) M"
  by (simp_all add: interrupt_dispatch_def SYSCALL_VECTOR_def INT_PF_def INT_GP_def INT_DE_def PIC_FIRST_VECTOR_def PIC_IRQ_PITTIMER_def
      PIC_IRQ_KEYBOARD_def PIC_IRQ_ATABUS_MASTER_def PIC_IRQ_ATABUS_SLAVE_def)

text \<open>
  The tables when process \<open>t\<close> has opened entry \<open>i\<close> of the root directory \<open>r\<close> for reading, as descriptor \<open>j\<close> and with node \<open>k\<close>.
\<close>

definition opened :: "nat \<Rightarrow> nat \<Rightarrow> nat \<Rightarrow> nat \<Rightarrow> nat \<Rightarrow> kernel \<Rightarrow> kernel" where
  "opened t j k r i s = set_fdmap (int t) (int j) (find_free_fd s)
    (upd_node k (\<lambda>n. (tfs_fill (int i) (n\<lparr>mountpoint := mountpoint (fsnodes s ! r)\<rparr>))\<lparr>ref_count := 1\<rparr>)
      (upd_file (nat (find_free_fd s)) (\<lambda>_. \<lparr>onode = Some k, cursor = 0, omode = OF_READ, oproc = int t\<rparr>) s))"

lemma opened_simps [simp]:
  "kmem (opened t j k r i s) = kmem s" "current_proc (opened t j k r i s) = current_proc s" "length (procs (opened t j k r i s)) = length (procs s)"
  "length (open_files (opened t j k r i s)) = length (open_files s)" "length (fsnodes (opened t j k r i s)) = length (fsnodes s)"
  by (simp_all add: opened_def set_fdmap_def upd_node_def upd_file_def)

text \<open>Opening a file of the root directory, when the directory of the process is the root.\<close>

lemma sys_open_root:
  assumes rt: "root_ready R r s" and k: "find_free_node s = int k" and fd: "find_free_fd s \<noteq> -1"
    and t: "current_proc s = int t" "t < MAX_PROCS" "t < length (procs s)" and j: "find_free_proc_fd_in (fdmap (procs s ! t)) = int j"
    and cwd: "cstr (kmem s) (proc_cwd bi t s) [47]" and nm: "cstr (kmem s) path xs" "47 \<notin> set xs" "xs \<noteq> []" "length xs < 32"
    and h: "heap_ok (kheap s) fl A" "length xs + 2 \<le> unat (bsize (kheap s))" "kalloc (path_size [47] xs) (kheap s) = Some (p, h)" "kfree p h = Some h'"
    and out: "(range_of (proc_cwd bi t s) 2 \<union> range_of path (Suc (length xs)) \<union> rodata_area R) \<inter> heap_area (kheap s) = {}"
    and i: "find (\<lambda>i. name_matches xs (chars (node_names ! i))) [0..<6] = Some i"
  obtains m where "sys_open bi (tfs_env R base) path OF_READ s = Some (int j, opened t j k r i (s\<lparr>kheap := h', kmem := m\<rparr>))"
    and "root_ready R r (s\<lparr>kheap := h', kmem := m\<rparr>)" and "\<And>a. a \<notin> heap_area (kheap s) \<Longrightarrow> m a = kmem s a"
proof -
  have o1: "(range_of (proc_cwd bi t s) (Suc (length [47 :: u8])) \<union> range_of path (Suc (length xs))) \<inter> heap_area (kheap s) = {}"
    using out by (simp add: eval_nat_numeral Int_Un_distrib2)
  have o2: "length [47 :: u8] + length xs + 1 \<le> unat (bsize (kheap s))" using h(2) by simp
  have "\<exists>m. 0 \<notin> range_of p (Suc (length [47 :: u8] + length xs)) \<and>
      new_prepend_cwd (proc_cwd bi t s) path s = Some (p, s\<lparr>kheap := h, kmem := m\<rparr>) \<and> cstr m p ([47] @ xs) \<and>
      (\<forall>a. a \<in> heap_area (kheap s) \<or> m a = kmem s a)"
    using new_prepend_cwd_alloc [OF h(1) cwd nm(1) o1 o2 h(3)] by (elim exE conjE) blast
  then obtain m where m: "0 \<notin> range_of p (Suc (length [47 :: u8] + length xs))"
      "new_prepend_cwd (proc_cwd bi t s) path s = Some (p, s\<lparr>kheap := h, kmem := m\<rparr>)" "cstr m p ([47] @ xs)"
      "\<forall>a. a \<in> heap_area (kheap s) \<or> m a = kmem s a"
    by (elim exE conjE) blast
  let ?s1 = "s\<lparr>kheap := h, kmem := m\<rparr>"
  have fp: "file_path (kmem ?s1) p xs" using m(1,3) nm by (auto simp: file_path_def range_of_Suc)
  have "m a = kmem s a" if "a \<in> rodata_area R" for a using that m(4) out by blast
  moreover have "rodata_ok R (kmem s)" using rt by (simp add: root_ready_def)
  ultimately have ro: "rodata_ok R m" using rodata_cong by blast
  have rt1: "root_ready R r ?s1" "root_ready R r (s\<lparr>kheap := h', kmem := m\<rparr>)" using rt ro by (simp_all add: root_ready_def node_fs_def)
  have fr: "find_free_node ?s1 = int k" "find_free_fd ?s1 = find_free_fd s" using k by (simp_all add: find_free_node_def find_free_fd_def)
  note o = vfs_open_root [OF rt1(1) fp fr(1), of base "int t"]
  have "0 \<le> find_free_fd s" using fd find_free_fd_neg by blast
  then have "sys_open bi (tfs_env R base) path OF_READ s = Some (int j, opened t j k r i (s\<lparr>kheap := h', kmem := m\<rparr>))"
    using m(1,2) t j h(4) o fd i
    by (simp add: sys_open_def find_free_proc_fd_def nth_int_def nth_opt_def fr(2) opened_def find_free_fd_def upd_node_def upd_file_def set_fdmap_def Let_def range_of_Suc)
  then show thesis using that rt1(2) m(4) by blast
qed

text \<open>The message that a debug call prints.\<close>

definition dbg_text :: "nat \<Rightarrow> u8 list \<Rightarrow> u8 list" where
  "dbg_text t xs = chars ''(Task '' @ highlight_on @ decimal t @ highlight_off @ chars '' dbg) '' @ [39] @
    highlight_on @ xs @ highlight_off @ [39, 10]"

lemma print_i64_small: "t < 2 ^ 63 \<Longrightarrow> precision spec = 0 \<Longrightarrow> field_width spec = 0 \<Longrightarrow> \<not> always_sign spec \<Longrightarrow> print_i64 (word_of_int (int t)) spec = decimal t"
  using print_i64_text [of "word_of_int (int t)" spec 0 0] sint_of_nat_u64 [of t] by (simp add: decimal_text_def)

lemma printk_dbg:
  assumes "cstr m a xs" and "t < 2 ^ 63"
  shows "printk m (chars ''(Task %d dbg) '%s'\<newline>'') [word_of_int (int t), a] = Some (dbg_text t xs)"
  using print_i64_small [OF assms(2)] kputs_bytes_cstr [OF assms(1)]
  by (simp add: chars_def ch_def dbg_text_def parse_conversion_def char_is_flag_def char_is_digit_def char_is_specifier_def
      defaults_from_convspec_def spec_init_def print_arg_def)

lemma fd_register: "j < 2 ^ 31 \<Longrightarrow> sint (ucast (ucast (word_of_int (int j) :: u64) :: u32) :: u64) = int j"
proof -
  assume j: "j < 2 ^ 31"
  then have "(ucast (ucast (word_of_int (int j) :: u64) :: u32) :: u64) = of_nat j"
    by (simp add: word_unat_eq_iff unsigned_ucast_eq unat_of_nat unsigned_take_bit_eq take_bit_nat_eq_self)
  then show ?thesis using j sint_of_nat_u64 [of j] by simp
qed

text \<open>Reading the message through a descriptor of the process.\<close>

lemma sys_read_message:
  assumes "rodata_ok R (kmem s)" and "current_proc s = int t" and "t < length (procs s)" and "j < FDS_PER_PROC" and "length (fdmap (procs s ! t)) = FDS_PER_PROC"
    and "fdmap (procs s ! t) ! j = int fd" and "fd < length (open_files s)" and "open_files s ! fd = \<lparr>onode = Some k, cursor = 0, omode = OF_READ, oproc = q\<rparr>"
    and "k < length (fsnodes s)" and "ntype (fsnodes s ! k) = FILE" and "node_fs (Some k) s \<noteq> None" and "sizeof_msg \<le> unat n"
    and "range_of buf sizeof_msg \<inter> range_of (msg_addr R) sizeof_msg = {}"
  obtains m where "sys_read (tfs_env R base) (int j) n buf s = Some (int sizeof_msg, s\<lparr>kmem := m\<rparr>)" and "cstr m buf (chars tfs_msg)"
    and "\<And>a. a \<notin> range_of buf sizeof_msg \<Longrightarrow> m a = kmem s a"
proof -
  have min: "Suc (min (unat n) (length tfs_msg - 0)) = sizeof_msg" "min (unat n) sizeof_msg = sizeof_msg" "take (unat n) (drop 0 (chars tfs_msg)) = chars tfs_msg"
    using assms(12) by (simp_all add: sizeof_msg_def length_chars)
  have "sys_read (tfs_env R base) (int j) n buf s = vfs_read (tfs_env R base) (int fd) n buf s"
    using assms(2-6) by (simp add: sys_read_def PFD_VALID_def nth_int_def nth_opt_def)
  moreover have "\<exists>m. vfs_read (tfs_env R base) (int fd) n buf s = Some (int sizeof_msg, s\<lparr>kmem := m\<rparr>) \<and> cstr m buf (chars tfs_msg) \<and>
      (\<forall>a. a \<in> range_of buf sizeof_msg \<or> m a = kmem s a)"
    using vfs_read_message [of R s "int fd" "open_files s ! fd" k 0 buf n base, unfolded min] assms(1,7-13)
    by (simp add: OF_READ_def sizeof_msg_def)
  ultimately show thesis using that by auto
qed

lemma sys_read_opened:
  assumes rt: "root_ready R r s" and k: "find_free_node s = int k" and fd: "find_free_fd s = int f" "f < length (open_files s)"
    and t: "current_proc s = int t" "t < length (procs s)" "length (fdmap (procs s ! t)) = FDS_PER_PROC" "j < FDS_PER_PROC"
    and n: "sizeof_msg \<le> unat n" and dis: "range_of buf sizeof_msg \<inter> range_of (msg_addr R) sizeof_msg = {}"
  obtains m where "sys_read (tfs_env R base) (int j) n buf (opened t j k r 1 s) = Some (int sizeof_msg, (opened t j k r 1 s)\<lparr>kmem := m\<rparr>)"
    and "cstr m buf (chars tfs_msg)" and "\<And>a. a \<notin> range_of buf sizeof_msg \<Longrightarrow> m a = kmem s a"
proof -
  let ?s = "opened t j k r 1 s"
  have r: "r < length (fsnodes s)" "k < length (fsnodes s)" "r \<noteq> k" "node_fs (Some r) s \<noteq> None" "rodata_ok R (kmem ?s)"
    using rt k nt.find_in_range [of "fsnodes s"] nt.find_is_free [of "fsnodes s"] by (auto simp: root_ready_def Let_def find_free_node_def)
  have p1: "current_proc ?s = int t" "t < length (procs ?s)" "length (fdmap (procs ?s ! t)) = FDS_PER_PROC" "fdmap (procs ?s ! t) ! j = int f"
    using t fd by (simp_all add: opened_def set_fdmap_def)
  have f1: "f < length (open_files ?s)" "open_files ?s ! f = \<lparr>onode = Some k, cursor = 0, omode = OF_READ, oproc = int t\<rparr>"
    using fd by (simp_all add: opened_def set_fdmap_def)
  have n1: "k < length (fsnodes ?s)" "ntype (fsnodes ?s ! k) = FILE" "node_fs (Some k) ?s \<noteq> None"
    using r by (auto simp: opened_def set_fdmap_def node_fs_def nth_opt_def)
  obtain m where m: "sys_read (tfs_env R base) (int j) n buf ?s = Some (int sizeof_msg, ?s\<lparr>kmem := m\<rparr>)" "cstr m buf (chars tfs_msg)"
      "\<And>a. a \<notin> range_of buf sizeof_msg \<Longrightarrow> m a = kmem ?s a"
    by (rule sys_read_message [OF r(5) p1(1,2) t(4) p1(3,4) f1 n1 n dis, of base]) (rule that)
  show thesis using that [OF m(1,2)] m(3) by simp
qed

text \<open>The three interrupts, from the results of the system calls.\<close>

lemma task1_calls:
  assumes o: "sys_open bi E path OF_READ (kern M) = Some (int j, s1)" and j: "j < FDS_PER_PROC"
    and rd: "sys_read E (int j) 128 buff s1 = Some (int n, s2)" and b: "cstr (kmem s2) buff xs" and t: "current_proc s2 = int t" "t < MAX_PROCS"
  shows "\<exists>c'. task1 B bi E path buff c M = Some (c', M\<lparr>kern := s2, console := console M @ dbg_text t xs\<rparr>)"
proof -
  have j31: "j < 2 ^ 31" using j by (simp add: FDS_PER_PROC_def)
  have t63: "t < 2 ^ 63" using t(2) by (simp add: MAX_PROCS_def)
  have c1: "syscall_interrupt bi E c M = Some (c\<lparr>rax := word_of_int (int j)\<rparr>, M\<lparr>kern := s1\<rparr>)" if "rax c = 0" "rsi c = path" "rbx c = 2" for c
    using that o by (simp add: syscall_interrupt_def syscall_dispatch_def OF_READ_def)
  have c2: "syscall_interrupt bi E c (M\<lparr>kern := s1\<rparr>) = Some (c\<lparr>rax := word_of_int (int n)\<rparr>, M\<lparr>kern := s2\<rparr>)"
    if "rax c = 2" "rsi c = buff" "sint (rbx c) = int j" "rcx c = 128" for c
    using that rd by (simp add: syscall_interrupt_def syscall_dispatch_def)
  have c3: "syscall_interrupt bi E c (M\<lparr>kern := s2\<rparr>) = Some (c, M\<lparr>kern := s2, console := console M @ dbg_text t xs\<rparr>)"
    if "rax c = 100" "rsi c = buff" for c
    using that printk_dbg [OF b t63] t(1) by (simp add: syscall_interrupt_def emit_def)
  show ?thesis using fd_register [OF j31] by (simp add: task1_def dispatch_syscall c1 c2 c3 Let_def)
qed

section \<open>Properties\<close>

text \<open>
  C11: The first program works. On a machine whose root is the test file system, with a free node, a free open file, a free descriptor of the
  running process, whose directory is \<^verbatim>\<open>/\<close>, and a heap that has room for the path and takes it back, the three system calls of \<open>task1\<close> return,
  and the console shows the number of the process and the contents of \<^verbatim>\<open>test.txt\<close>. Memory changes in the heap and in the
  buffer only.
\<close>

theorem task1_prints_file:
  assumes "root_ready R r (kern M)" and "find_free_node (kern M) \<noteq> -1" and "find_free_fd (kern M) \<noteq> -1" and "length (open_files (kern M)) = NUM_OPEN_FILES"
    and "current_proc (kern M) = int t" and "t < MAX_PROCS" and "t < length (procs (kern M))" and "length (fdmap (procs (kern M) ! t)) = FDS_PER_PROC"
    and "-1 \<in> set (fdmap (procs (kern M) ! t))"
    and "cstr (kmem (kern M)) (proc_cwd bi t (kern M)) (chars ''/'')" and "cstr (kmem (kern M)) path (chars ''test.txt'')"
    and "heap_ok (kheap (kern M)) fl A" and "10 \<le> bsize (kheap (kern M))" and "kalloc 10 (kheap (kern M)) = Some (p, h)" and "kfree p h = Some h'"
    and "(range_of (proc_cwd bi t (kern M)) 2 \<union> range_of path 9 \<union> rodata_area R) \<inter> heap_area (kheap (kern M)) = {}"
    and "range_of buff sizeof_msg \<inter> range_of (msg_addr R) sizeof_msg = {}"
  shows "\<exists>c' M'. task1 B bi (tfs_env R base) path buff c M = Some (c', M') \<and>
    console M' = console M @ dbg_text t (chars tfs_msg) \<and>
    (\<forall>a. a \<notin> heap_area (kheap (kern M)) \<union> range_of buff sizeof_msg \<longrightarrow> kmem (kern M') a = kmem (kern M) a)"
proof -
  let ?s = "kern M" and ?xs = "chars ''test.txt''"
  note a = assms
  obtain k where k: "find_free_node ?s = int k"
    using a(2) nt.find_in_range [of "fsnodes ?s"] by (auto simp: find_free_node_def intro: nonneg_int_cases)
  obtain j where j: "find_free_proc_fd_in (fdmap (procs ?s ! t)) = int j" "j < FDS_PER_PROC"
    using a(8,9) pf.find_none_iff [of "fdmap (procs ?s ! t)"] pf.find_in_range [of "fdmap (procs ?s ! t)"] by (auto intro: nonneg_int_cases)
  obtain f where f: "find_free_fd ?s = int f" "f < length (open_files ?s)"
    using a(3,4) ft.find_in_range [of "open_files ?s"] by (auto simp: find_free_fd_def intro: nonneg_int_cases)
  have xs: "?xs = [116, 101, 115, 116, 46, 116, 120, 116]" by (simp add: chars_def)
  have cw: "cstr (kmem ?s) (proc_cwd bi t ?s) [47]" using a(10) by (simp add: chars_def)
  have b10: "length ?xs + 2 \<le> unat (bsize (kheap ?s))" using a(13) by (simp add: xs word_le_nat_alt)
  have al: "kalloc (path_size [47] ?xs) (kheap ?s) = Some (p, h)" using a(14) by (simp add: path_size_def xs)
  have l9: "Suc (length ?xs) = 9" by (simp add: xs)
  have out: "(range_of (proc_cwd bi t ?s) 2 \<union> range_of path (Suc (length ?xs)) \<union> rodata_area R) \<inter> heap_area (kheap ?s) = {}"
    using a(16) by (simp only: l9)
  have nm: "47 \<notin> set ?xs" "?xs \<noteq> []" "length ?xs < 32" by (simp_all add: xs)
  obtain m where o: "sys_open bi (tfs_env R base) path OF_READ ?s = Some (int j, opened t j k r 1 (?s\<lparr>kheap := h', kmem := m\<rparr>))"
      and rt: "root_ready R r (?s\<lparr>kheap := h', kmem := m\<rparr>)" and m: "\<And>a. a \<notin> heap_area (kheap ?s) \<Longrightarrow> m a = kmem ?s a"
    by (rule sys_open_root [OF a(1) k a(3,5,6,7) j(1) cw a(11) nm a(12) b10 al a(15) out demo_match, of base]) (rule that)
  let ?u = "?s\<lparr>kheap := h', kmem := m\<rparr>"
  have u: "find_free_node ?u = int k" "find_free_fd ?u = int f" "f < length (open_files ?u)" "current_proc ?u = int t" "t < length (procs ?u)"
      "length (fdmap (procs ?u ! t)) = FDS_PER_PROC" using k f a(5,7,8) by (simp_all add: find_free_node_def find_free_fd_def)
  have n: "sizeof_msg \<le> unat (128 :: u64)" by (simp add: sizeof_msg_def tfs_msg_def)
  obtain m2 where rd: "sys_read (tfs_env R base) (int j) 128 buff (opened t j k r 1 ?u) = Some (int sizeof_msg, (opened t j k r 1 ?u)\<lparr>kmem := m2\<rparr>)"
      and m2: "cstr m2 buff (chars tfs_msg)" "\<And>a. a \<notin> range_of buff sizeof_msg \<Longrightarrow> m2 a = kmem ?u a"
    by (rule sys_read_opened [OF rt u j(2) n a(17), of base]) (rule that)
  have "\<exists>c'. task1 B bi (tfs_env R base) path buff c M =
      Some (c', M\<lparr>kern := (opened t j k r 1 ?u)\<lparr>kmem := m2\<rparr>, console := console M @ dbg_text t (chars tfs_msg)\<rparr>)"
    by (rule task1_calls [OF o j(2) rd]) (use m2(1) a(5,6) in simp_all)
  moreover have "m2 b = kmem ?s b" if "b \<notin> heap_area (kheap ?s) \<union> range_of buff sizeof_msg" for b
    using that m m2(2) by simp
  ultimately show ?thesis by force
qed

subsection \<open>A machine with the first process\<close>

text \<open>The literals of the test file system are below address 200, \<^verbatim>\<open>"/"\<close> is at 17185, the heap is
  the page as \<open>buddy_init\<close> leaves it.\<close>

definition task1_mem :: mem where
  "task1_mem = store_ptr (proc_cwd_addr demo_boot 0) 0x4321 ((mem_of (0 # pack demo_strs))(0x4321 := 47))"

definition task1_heap :: buddy_allocator where
  "task1_heap = kst [0, 0, 0, 0, 0, 0, 0, 0x10000] [(0x10000, \<lparr>order = 12, taken = 0, bnext = 0, bprev = 0\<rparr>)]"

definition task1_kernel :: kernel where
  "task1_kernel = demo_kernel\<lparr>kmem := task1_mem, kheap := task1_heap, procs := [free_proc\<lparr>present := True, fdmap := replicate FDS_PER_PROC (-1)\<rparr>], current_proc := 0\<rparr>"

lemma task1_heap_ok: "heap_ok task1_heap ((\<lambda>_. [])(7 := [0x10000])) {}"
proof -
  have "free_blocks task1_heap ((\<lambda>_. [])(7 := [0x10000])) = {(0x10000, 12)}"
    by (auto simp: free_blocks_def task1_heap_def kst_def BUDDY_NUM_LISTS_def split: if_splits)
  then show ?thesis
    by (simp add: heap_ok_def params_ok_def lists_ok_def taken_ok_def tiling_def blk_range_def dll_Cons
        task1_heap_def kst_def field_defs BUDDY_NUM_LISTS_def nth_append nth_Cons')
qed

text \<open>The heap splits its page down to a block for the path, and merges the blocks again.\<close>

lemma task1_heap_alloc: "\<exists>p h h'. kalloc 10 task1_heap = Some (p, h) \<and> kfree p h = Some h'"
proof -
  have r: "round_size 34 5 = Some 64"
  proof -
    obtain k where k: "round_size 34 5 = Some (push_bit k 1)" "34 \<le> (2 :: nat) ^ k" "k = 5 \<or> 2 ^ (k - 1) < (34 :: nat)"
      using round_size_ok [of 34 5] by auto
    have "k \<noteq> 5" using k(2) by auto
    then have "(2 :: nat) ^ (k - 1) < 2 ^ 6" "(2 :: nat) ^ 5 < 2 ^ k" using k(2,3) by auto
    then have "k - 1 < 6" "5 < k" by (simp_all only: power_strict_increasing_iff one_less_numeral_iff semiring_norm)
    then have "k = 6" by simp
    with k(1) show ?thesis by simp
  qed
  have c: "builtin_ctz 64 = Some 6" using builtin_ctz_power [of 6] by simp
  have "case kalloc 10 task1_heap of None \<Rightarrow> False | Some (p, h) \<Rightarrow> \<exists>h'. kfree p h = Some h'"
    unfolding task1_heap_def by (simp add: kst_eval r c cong: let_weak_cong bind_weak_cong del: replicate.simps)
  then show ?thesis by (auto split: option.splits)
qed

lemma task1_mem_low: "unat a < 0x4000 \<Longrightarrow> task1_mem a = mem_of (0 # pack demo_strs) a"
proof -
  assume a: "unat a < 0x4000"
  then have "a \<notin> range_of 0x8040 8" using range_of_below [of a "0x8040" 8] by auto
  moreover have "a \<noteq> 0x4321" using a by auto
  ultimately show ?thesis by (simp add: task1_mem_def store_ptr_other proc_cwd_addr_def proc_name_addr_def demo_boot_def PROC_NAME_LENGTH_def)
qed

lemma task1_strings: "rodata_ok demo_ro task1_mem" "cstr task1_mem 2 (chars ''test.txt'')" "load_ptr (proc_cwd_addr demo_boot 0) task1_mem = 0x4321"
  "cstr task1_mem 0x4321 (chars ''/'')"
proof -
  have low: "task1_mem a = mem_of (0 # pack demo_strs) a" if "unat a < 200" for a using that by (intro task1_mem_low) simp
  show "rodata_ok demo_ro task1_mem" by (rule rodata_cong [OF demo_rodata]) (simp add: low demo_rodata_below)
  have c: "cstr (mem_of (0 # pack demo_strs)) 2 (chars ''test.txt'')" using demo_path by (simp add: file_path_def)
  have "unat a < 200" if "a \<in> range_of 2 (Suc (length (chars ''test.txt'')))" for a using range_of_below [OF that] by (simp add: length_chars)
  then show "cstr task1_mem 2 (chars ''test.txt'')" using low by (intro cstr_cong [OF c]) blast
  show "load_ptr (proc_cwd_addr demo_boot 0) task1_mem = 0x4321" by (simp add: task1_mem_def load_store_ptr)
  have "a \<notin> range_of 0x8040 8" if "unat a < 0x8040" for a using that range_of_below [of a "0x8040" 8] by auto
  then have st: "task1_mem a = ((mem_of (0 # pack demo_strs))(0x4321 := 47)) a" if "unat a < 0x8040" for a
    using that by (simp add: task1_mem_def store_ptr_other proc_cwd_addr_def proc_name_addr_def demo_boot_def PROC_NAME_LENGTH_def)
  have "length (0 # pack demo_strs) \<le> 0x4322" by (simp add: pack_def demo_strs_def tfs_msg_def node_names_def chars_def)
  then have "mem_of (0 # pack demo_strs) 0x4322 = 0" by (simp add: mem_of_def)
  then show "cstr task1_mem 0x4321 (chars ''/'')" using st [of "0x4321"] st [of "0x4322"] by (simp add: chars_def)
qed

lemma mount_root_frame: "mount_root R base s = Some s0 \<Longrightarrow> procs s0 = procs s \<and> current_proc s0 = current_proc s \<and> kheap s0 = kheap s"
  by (auto simp: mount_root_def get_node_byid_def tfs_ops upd_node_def bind_eq_Some_conv nth_opt_Some Let_def split: if_splits)

theorem task1_prints_file_witness:
  "\<exists>s0 c' M'. mount_root demo_ro 0x40000 task1_kernel = Some s0 \<and>
    task1 quiet_bus demo_boot (tfs_env demo_ro 0x40000) 2 0x20000 zero_ctx (demo_machine\<lparr>kern := s0\<rparr>) = Some (c', M') \<and> console M' = dbg_text 0 (chars tfs_msg)"
proof -
  have k: "zero_tables task1_kernel" "kmem task1_kernel = task1_mem" "open_files task1_kernel = open_files demo_kernel"
    by (simp_all add: task1_kernel_def zero_tables_def demo_kernel_def)
  obtain s0 where s0: "mount_root demo_ro 0x40000 task1_kernel = Some s0" "root_ready demo_ro 0 s0" "open_files s0 = open_files demo_kernel"
      "kmem s0 = task1_mem" "find_free_node s0 = 1" "find_free_fd s0 = 0"
    using mount_root_ready [OF k(1), of demo_ro "0x40000"] task1_strings(1) k(2,3) by auto
  have p0: "procs s0 = [free_proc\<lparr>present := True, fdmap := replicate FDS_PER_PROC (-1)\<rparr>]" "current_proc s0 = 0" "kheap s0 = task1_heap"
    using mount_root_frame [OF s0(1)] by (simp_all add: task1_kernel_def)
  have area: "heap_area task1_heap = {p. 0x10000 \<le> unat p \<and> unat p < 0x11000}" by (simp add: heap_area_def task1_heap_def kst_def)
  have cwd: "proc_cwd demo_boot 0 s0 = 0x4321" using task1_strings(3) s0(4) by (simp add: proc_cwd_def)
  have "unat a < 0x10000" if "a \<in> range_of 0x4321 2 \<union> range_of 2 9 \<union> rodata_area demo_ro" for a
    using that range_of_below [of a "0x4321" 2] range_of_below [of a 2 9] demo_rodata_below [of a] by auto
  then have out: "(range_of 0x4321 2 \<union> range_of 2 9 \<union> rodata_area demo_ro) \<inter> heap_area task1_heap = {}" unfolding area by force
  have dis: "range_of 0x20000 sizeof_msg \<inter> range_of (msg_addr demo_ro) sizeof_msg = {}"
    using range_of_below [of _ "0x20000" sizeof_msg] range_of_below [of _ 11 sizeof_msg] by (force simp: demo_ro_def sizeof_msg_def tfs_msg_def)
  obtain p h h' where h: "kalloc 10 task1_heap = Some (p, h)" "kfree p h = Some h'" using task1_heap_alloc by blast
  let ?M = "demo_machine\<lparr>kern := s0\<rparr>"
  have "\<exists>c' M'. task1 quiet_bus demo_boot (tfs_env demo_ro 0x40000) 2 0x20000 zero_ctx ?M = Some (c', M') \<and>
      console M' = console ?M @ dbg_text 0 (chars tfs_msg)"
    using task1_prints_file [of demo_ro 0 ?M 0 demo_boot 2 "(\<lambda>_. [])(7 := [0x10000])" "{}" p h h' "0x20000" quiet_bus "0x40000" zero_ctx]
      s0 p0 cwd out dis h task1_heap_ok task1_strings(2,4)
    by (auto simp: demo_kernel_def FDS_PER_PROC_def MAX_PROCS_def task1_heap_def kst_fields)
  then show ?thesis using s0(1) by (auto simp: demo_machine_def)
qed

end
