(* ===== verification/Ata.thy ===== *)
theory Ata
  imports Hardware
begin

text \<open>
  The disk driver \<^verbatim>\<open>arch/x64/ata.c\<close> (programmed input and output). The disk is behind the ports of the
  parameter \<open>bus\<close>. Buffers are in byte memory; a 16-bit word is stored little endian.
\<close>

section \<open>Model\<close>

definition ATA_PRIMARY_DATA :: u16 where "ATA_PRIMARY_DATA = 0x1F0"
definition ATA_PRIMARY_CTRL :: u16 where "ATA_PRIMARY_CTRL = 0x3F6"
definition ATA_SECONDARY_DATA :: u16 where "ATA_SECONDARY_DATA = 0x170"
definition ATA_SECONDARY_CTRL :: u16 where "ATA_SECONDARY_CTRL = 0x376"
definition ATA_STATUS_BSY :: u8 where "ATA_STATUS_BSY = 0x80"
definition ATA_STATUS_DRQ :: u8 where "ATA_STATUS_DRQ = 0x08"
definition ATA_STATUS_ERR :: u8 where "ATA_STATUS_ERR = 0x01"
definition ATA_CMD_READ_SECTORS :: u8 where "ATA_CMD_READ_SECTORS = 0x20"
definition ATA_CMD_WRITE_SECTORS :: u8 where "ATA_CMD_WRITE_SECTORS = 0x30"
definition ATA_CMD_IDENTIFY :: u8 where "ATA_CMD_IDENTIFY = 0xEC"
definition ATA_DRIVE_MASTER :: u8 where "ATA_DRIVE_MASTER = 0xA0"
definition ATA_DRIVE_SLAVE :: u8 where "ATA_DRIVE_SLAVE = 0xB0"
definition ATA_DRIVE_LBA :: u8 where "ATA_DRIVE_LBA = 0x40"
definition ATA_OK :: int where "ATA_OK = 0"
definition ATA_ERR_TIMEOUT :: int where "ATA_ERR_TIMEOUT = -1"
definition ATA_ERR_DRIVE_ERROR :: int where "ATA_ERR_DRIVE_ERROR = -2"
definition ATA_ERR_INVALID_DRIVE :: int where "ATA_ERR_INVALID_DRIVE = -3"

record ata_device =
  base_port :: u16
  ctrl_port :: u16
  drive :: u8

definition ata_init_device :: "'d bus \<Rightarrow> bool \<Rightarrow> bool \<Rightarrow> 'd \<Rightarrow> ata_device \<times> 'd" where
  "ata_init_device B primary master d =
    (\<lparr>base_port = (if primary then ATA_PRIMARY_DATA else ATA_SECONDARY_DATA),
      ctrl_port = (if primary then ATA_PRIMARY_CTRL else ATA_SECONDARY_CTRL),
      drive = (if master then 0 else 1)\<rparr>,
     pic_unblock_irq B (if master then PIC_IRQ_ATABUS_MASTER else PIC_IRQ_ATABUS_SLAVE) d)"

text \<open>The two polling loops; the number is the rounds left before the timeout.\<close>

fun wait_ready_loop :: "'d bus \<Rightarrow> u16 \<Rightarrow> nat \<Rightarrow> 'd \<Rightarrow> int \<times> 'd" where
  "wait_ready_loop B port 0 d = (ATA_ERR_TIMEOUT, d)"
| "wait_ready_loop B port (Suc timeout) d =
    (let (st, d1) = inb B port d
     in if st AND ATA_STATUS_BSY = 0 then (ATA_OK, d1) else wait_ready_loop B port timeout d1)"

definition ata_wait_ready :: "'d bus \<Rightarrow> ata_device \<Rightarrow> 'd \<Rightarrow> int \<times> 'd" where
  "ata_wait_ready B dev d = wait_ready_loop B (base_port dev + 7) 1000000 d"

fun wait_drq_loop :: "'d bus \<Rightarrow> u16 \<Rightarrow> nat \<Rightarrow> 'd \<Rightarrow> int \<times> 'd" where
  "wait_drq_loop B port 0 d = (ATA_ERR_TIMEOUT, d)"
| "wait_drq_loop B port (Suc timeout) d =
    (let (st, d1) = inb B port d
     in if st AND ATA_STATUS_DRQ \<noteq> 0 then (ATA_OK, d1)
        else if st AND ATA_STATUS_ERR \<noteq> 0 then (ATA_ERR_DRIVE_ERROR, d1)
        else wait_drq_loop B port timeout d1)"

definition ata_wait_drq :: "'d bus \<Rightarrow> ata_device \<Rightarrow> 'd \<Rightarrow> int \<times> 'd" where
  "ata_wait_drq B dev d = wait_drq_loop B (base_port dev + 7) 1000000 d"

definition ata_select_drive :: "'d bus \<Rightarrow> ata_device \<Rightarrow> u64 \<Rightarrow> 'd \<Rightarrow> int \<times> 'd" where
  "ata_select_drive B dev lba d =
    (let drive_select = (if drive dev = 0 then ATA_DRIVE_MASTER else ATA_DRIVE_SLAVE) OR ATA_DRIVE_LBA
           OR ucast (drop_bit 24 lba AND 0x0F);
         d1 = outb B (base_port dev + 6) drive_select d;
         d2 = ((\<lambda>d. snd (inb B (ctrl_port dev) d)) ^^ 4) d1
     in ata_wait_ready B dev d2)"

text \<open>The register writes that the read and the write of a sector have in common.\<close>

definition ata_setup :: "'d bus \<Rightarrow> ata_device \<Rightarrow> u64 \<Rightarrow> u8 \<Rightarrow> 'd \<Rightarrow> 'd" where
  "ata_setup B dev lba cmd d =
    (let d1 = outb B (base_port dev + 1) 0x00 d;
         d2 = outb B (base_port dev + 2) 1 d1;
         d3 = outb B (base_port dev + 3) (ucast (lba AND 0xFF)) d2;
         d4 = outb B (base_port dev + 4) (ucast (drop_bit 8 lba AND 0xFF)) d3;
         d5 = outb B (base_port dev + 5) (ucast (drop_bit 16 lba AND 0xFF)) d4
     in outb B (base_port dev + 7) cmd d5)"

definition store16 :: "u64 \<Rightarrow> u16 \<Rightarrow> mem \<Rightarrow> mem" where
  "store16 p w m = m(p := ucast w, p + 1 := ucast (drop_bit 8 w))"

definition load16 :: "u64 \<Rightarrow> mem \<Rightarrow> u16" where
  "load16 p m = ucast (m p) OR push_bit 8 (ucast (m (p + 1)))"

fun read_words :: "'d bus \<Rightarrow> u16 \<Rightarrow> nat \<Rightarrow> u64 \<Rightarrow> mem \<times> 'd \<Rightarrow> mem \<times> 'd" where
  "read_words B port 0 p s = s"
| "read_words B port (Suc n) p (m, d) =
    (let (w, d1) = inw B port d in read_words B port n (p + 2) (store16 p w m, d1))"

fun write_words :: "'d bus \<Rightarrow> u16 \<Rightarrow> nat \<Rightarrow> u64 \<Rightarrow> mem \<Rightarrow> 'd \<Rightarrow> 'd" where
  "write_words B port 0 p m d = d"
| "write_words B port (Suc n) p m d = write_words B port n (p + 2) m (outw B port (load16 p m) d)"

definition ata_read_sector :: "'d bus \<Rightarrow> ata_device \<Rightarrow> u64 \<Rightarrow> u64 \<Rightarrow> mem \<times> 'd \<Rightarrow> int \<times> mem \<times> 'd" where
  "ata_read_sector B dev lba buf s =
    (let (m, d) = s; (ret, d1) = ata_wait_ready B dev d
     in if ret \<noteq> ATA_OK then (ret, m, d1)
        else
          (let (ret, d2) = ata_select_drive B dev lba d1
           in if ret \<noteq> ATA_OK then (ret, m, d2)
              else
                (let d3 = ata_setup B dev lba ATA_CMD_READ_SECTORS d2; (ret, d4) = ata_wait_drq B dev d3
                 in if ret \<noteq> ATA_OK then (ret, m, d4)
                    else (ATA_OK, read_words B (base_port dev) 256 buf (m, d4)))))"

definition ata_write_sector :: "'d bus \<Rightarrow> ata_device \<Rightarrow> u64 \<Rightarrow> u64 \<Rightarrow> mem \<times> 'd \<Rightarrow> int \<times> mem \<times> 'd" where
  "ata_write_sector B dev lba buf s =
    (let (m, d) = s; (ret, d1) = ata_wait_ready B dev d
     in if ret \<noteq> ATA_OK then (ret, m, d1)
        else
          (let (ret, d2) = ata_select_drive B dev lba d1
           in if ret \<noteq> ATA_OK then (ret, m, d2)
              else
                (let d3 = ata_setup B dev lba ATA_CMD_WRITE_SECTORS d2; (ret, d4) = ata_wait_drq B dev d3
                 in if ret \<noteq> ATA_OK then (ret, m, d4)
                    else
                      (let d5 = write_words B (base_port dev) 256 buf m d4; (ret, d6) = ata_wait_ready B dev d5
                       in if ret \<noteq> ATA_OK then (ret, m, d6)
                          else
                            (let (st, d7) = inb B (base_port dev + 7) d6
                             in (if st AND ATA_STATUS_ERR \<noteq> 0 then ATA_ERR_DRIVE_ERROR else ATA_OK, m, d7))))))"

fun sectors_loop :: "(u64 \<Rightarrow> u64 \<Rightarrow> mem \<times> 'd \<Rightarrow> int \<times> mem \<times> 'd) \<Rightarrow> nat \<Rightarrow> u64 \<Rightarrow> u64 \<Rightarrow> u64 \<Rightarrow> mem \<times> 'd \<Rightarrow> int \<times> mem \<times> 'd" where
  "sectors_loop op 0 i lba buf s = (ATA_OK, s)"
| "sectors_loop op (Suc n) i lba buf s =
    (let (ret, s1) = op (lba + i) (buf + i * 512) s
     in if ret \<noteq> ATA_OK then (ret, s1) else sectors_loop op n (i + 1) lba buf s1)"

definition ata_read_sectors :: "'d bus \<Rightarrow> ata_device \<Rightarrow> u64 \<Rightarrow> u64 \<Rightarrow> u64 \<Rightarrow> mem \<times> 'd \<Rightarrow> int \<times> mem \<times> 'd" where
  "ata_read_sectors B dev start_lba cnt buf s = sectors_loop (ata_read_sector B dev) (unat cnt) 0 start_lba buf s"

definition ata_write_sectors :: "'d bus \<Rightarrow> ata_device \<Rightarrow> u64 \<Rightarrow> u64 \<Rightarrow> u64 \<Rightarrow> mem \<times> 'd \<Rightarrow> int \<times> mem \<times> 'd" where
  "ata_write_sectors B dev start_lba cnt buf s = sectors_loop (ata_write_sector B dev) (unat cnt) 0 start_lba buf s"

definition ata_identify :: "'d bus \<Rightarrow> ata_device \<Rightarrow> u64 \<Rightarrow> mem \<times> 'd \<Rightarrow> int \<times> mem \<times> 'd" where
  "ata_identify B dev identify_data s =
    (let (m, d) = s; (ret, d1) = ata_wait_ready B dev d
     in if ret \<noteq> ATA_OK then (ret, m, d1)
        else
          (let (ret, d2) = ata_select_drive B dev 0 d1
           in if ret \<noteq> ATA_OK then (ret, m, d2)
              else
                (let d3 = outb B (base_port dev + 7) ATA_CMD_IDENTIFY d2; (st, d4) = inb B (base_port dev + 7) d3
                 in if st = 0 then (ATA_ERR_INVALID_DRIVE, m, d4)
                    else
                      (let (ret, d5) = ata_wait_drq B dev d4
                       in if ret \<noteq> ATA_OK then (ret, m, d5)
                          else (ATA_OK, read_words B (base_port dev) 256 identify_data (m, d5))))))"

definition ata_num_blocks :: "ata_device \<Rightarrow> u64" where
  "ata_num_blocks dev = 0"

subsection \<open>The store type\<close>

text \<open>The operations return 1 for success, like C's comparison.\<close>

definition st_rd :: "'d bus \<Rightarrow> ata_device \<Rightarrow> u64 \<Rightarrow> u64 \<Rightarrow> mem \<times> 'd \<Rightarrow> int \<times> mem \<times> 'd" where
  "st_rd B dev addr buf s = (let (ret, s1) = ata_read_sector B dev addr buf s in (if ATA_OK = ret then 1 else 0, s1))"

definition st_wr :: "'d bus \<Rightarrow> ata_device \<Rightarrow> u64 \<Rightarrow> u64 \<Rightarrow> mem \<times> 'd \<Rightarrow> int \<times> mem \<times> 'd" where
  "st_wr B dev addr buf s = (let (ret, s1) = ata_write_sector B dev addr buf s in (if ATA_OK = ret then 1 else 0, s1))"

definition st_nb :: "ata_device \<Rightarrow> u64" where
  "st_nb dev = ata_num_blocks dev"

text \<open>The message that \<open>st_init\<close> prints is left out, like all messages of the drivers.\<close>

definition st_init :: "'d bus \<Rightarrow> u64 \<Rightarrow> mem \<times> 'd \<Rightarrow> int \<times> ata_device \<times> mem \<times> 'd" where
  "st_init B cfg s =
    (let (m, d) = s; primary = (m cfg = of_char CHR ''p''); master = (m (cfg + 1) = of_char CHR ''m'');
         (dev, d1) = ata_init_device B primary master d
     in (1, dev, m, d1))"

section \<open>Words in memory\<close>

lemma load_store16: "load16 p (store16 p w m) = w"
proof (rule bit_word_eqI)
  fix n
  assume "n < LENGTH(16)"
  moreover have "p + 1 \<noteq> p" by simp
  ultimately show "bit (load16 p (store16 p w m)) n = bit w n"
    by (auto simp: load16_def store16_def bit_or_iff bit_push_bit_iff bit_unsigned_iff bit_drop_bit_eq)
qed

lemma load16_other: "p \<notin> {q, q + 1} \<Longrightarrow> p + 1 \<notin> {q, q + 1} \<Longrightarrow> load16 p (store16 q w m) = load16 p m"
  by (auto simp: load16_def store16_def)

section \<open>A disk\<close>

text \<open>
  The disk of the ATA standard, as far as the driver relies on it: the registers of the task file, the
  words the data register will give, the words collected by a write command with the place they are
  for, and the sectors of the two drives.
\<close>

record disk =
  task_reg :: "u16 \<Rightarrow> u8"
  rd_words :: "u16 list"
  wr_words :: "u16 list"
  wr_place :: "bool \<times> nat"
  sectors :: "bool \<times> nat \<Rightarrow> u16 list"

definition disk_place :: "disk \<Rightarrow> bool \<times> nat" where
  "disk_place v = (bit (task_reg v 6) 4,
    unat (task_reg v 3) + 2 ^ 8 * unat (task_reg v 4) + 2 ^ 16 * unat (task_reg v 5) + 2 ^ 24 * unat (task_reg v 6 AND 0xf))"

definition disk_take :: "u16 \<Rightarrow> disk \<Rightarrow> disk" where
  "disk_take w v =
    (let ws = wr_words v @ [w]
     in if length ws = 256 then v\<lparr>wr_words := [], sectors := (sectors v)(wr_place v := ws)\<rparr> else v\<lparr>wr_words := ws\<rparr>)"

definition disk_poll :: "'d bus \<Rightarrow> u16 \<Rightarrow> 'd \<Rightarrow> 'd" where
  "disk_poll B base d = snd (in8 B (base + 7) d)"

text \<open>
  The devices behind the ports, seen through \<open>v\<close>, are a disk without faults: reading a status
  register changes nothing; a write of registers 1 to 6 sets them; the busy bit is found clear within
  1000000 polls and the error bit is never set; a read command selects the words of the sector that the
  registers name, a write command collects 256 words for it; after either, DRQ is found set within
  1000000 polls. Only while the status register shows DRQ does the data register give or take words, so nothing is said of a driver that
  does not wait for it; polling keeps DRQ, and it stays set until the last word of the sector.
\<close>

definition drq_set :: "'d bus \<Rightarrow> u16 \<Rightarrow> 'd \<Rightarrow> bool" where
  "drq_set B base d \<longleftrightarrow> fst (in8 B (base + 7) d) AND ATA_STATUS_DRQ \<noteq> 0"

definition drq_soon :: "'d bus \<Rightarrow> u16 \<Rightarrow> 'd \<Rightarrow> bool" where
  "drq_soon B base d \<longleftrightarrow> (\<exists>n < 1000000. drq_set B base ((disk_poll B base ^^ n) d))"

definition ata_disk :: "'d bus \<Rightarrow> ata_device \<Rightarrow> ('d \<Rightarrow> disk) \<Rightarrow> bool" where
  "ata_disk B dev v \<longleftrightarrow>
    (\<forall>d. v (snd (in8 B (base_port dev + 7) d)) = v d \<and> v (snd (in8 B (ctrl_port dev) d)) = v d) \<and>
    (\<forall>d x. \<forall>i \<in> {1, 2, 3, 4, 5, 6}. v (out8 B (base_port dev + i) x d) = (v d)\<lparr>task_reg := (task_reg (v d))(i := x)\<rparr>) \<and>
    (\<forall>d. \<exists>n < 1000000. fst (in8 B (base_port dev + 7) ((disk_poll B (base_port dev) ^^ n) d)) AND ATA_STATUS_BSY = 0) \<and>
    (\<forall>d. fst (in8 B (base_port dev + 7) d) AND ATA_STATUS_ERR = 0) \<and>
    (\<forall>d. let d' = out8 B (base_port dev + 7) ATA_CMD_READ_SECTORS d
      in v d' = (v d)\<lparr>rd_words := sectors (v d) (disk_place (v d))\<rparr> \<and> drq_soon B (base_port dev) d') \<and>
    (\<forall>d. let d' = out8 B (base_port dev + 7) ATA_CMD_WRITE_SECTORS d
      in v d' = (v d)\<lparr>wr_words := [], wr_place := disk_place (v d)\<rparr> \<and> drq_soon B (base_port dev) d') \<and>
    (\<forall>d. drq_set B (base_port dev) d \<longrightarrow> drq_set B (base_port dev) (disk_poll B (base_port dev) d)) \<and>
    (\<forall>d w ws. drq_set B (base_port dev) d \<and> rd_words (v d) = w # ws \<longrightarrow>
      fst (in16 B (base_port dev) d) = w \<and> v (snd (in16 B (base_port dev) d)) = (v d)\<lparr>rd_words := ws\<rparr> \<and>
      (ws \<noteq> [] \<longrightarrow> drq_set B (base_port dev) (snd (in16 B (base_port dev) d)))) \<and>
    (\<forall>d w. drq_set B (base_port dev) d \<longrightarrow> v (out16 B (base_port dev) w d) = disk_take w (v d) \<and>
      (Suc (length (wr_words (v d))) < 256 \<longrightarrow> drq_set B (base_port dev) (out16 B (base_port dev) w d))) \<and>
    (\<forall>d x. length (sectors (v d) x) = 256)"

lemma wait_ready_loop_returns:
  assumes "n < k" and "fst (in8 B (base + 7) ((disk_poll B base ^^ n) d)) AND ATA_STATUS_BSY = 0"
    and "\<And>d. P d \<Longrightarrow> P (disk_poll B base d)" and "P d"
  shows "\<exists>d'. wait_ready_loop B (base + 7) k d = (ATA_OK, d') \<and> P d'"
  using assms(1,2,4)
proof (induction n arbitrary: d k)
  case 0
  then obtain j where "k = Suc j" by (cases k) auto
  then show ?case using 0 assms(3) by (simp add: inb_def split_beta Let_def disk_poll_def)
next
  case (Suc n)
  then obtain j where j: "k = Suc j" "n < j" by (cases k) auto
  have "fst (in8 B (base + 7) ((disk_poll B base ^^ n) (disk_poll B base d))) AND ATA_STATUS_BSY = 0"
    using Suc.prems(2) by (simp add: funpow_swap1)
  from Suc.IH [OF j(2) this assms(3)] Suc.prems(3) show ?case
    using assms(3) [OF Suc.prems(3)] j(1) by (auto simp: inb_def split_beta Let_def disk_poll_def)
qed

lemma wait_drq_loop_returns:
  assumes "n < k" and "drq_set B base ((disk_poll B base ^^ n) d)"
    and "\<forall>j < n. fst (in8 B (base + 7) ((disk_poll B base ^^ j) d)) AND ATA_STATUS_ERR = 0"
    and "\<And>d. P d \<Longrightarrow> P (disk_poll B base d)" and "P d"
    and keep: "\<And>d. drq_set B base d \<Longrightarrow> drq_set B base (disk_poll B base d)"
  shows "\<exists>d'. wait_drq_loop B (base + 7) k d = (ATA_OK, d') \<and> P d' \<and> drq_set B base d'"
  using assms(1,2,3,5)
proof (induction n arbitrary: d k)
  case 0
  then obtain j where "k = Suc j" by (cases k) auto
  then show ?case using 0 assms(4) keep [of d] by (simp add: inb_def split_beta Let_def disk_poll_def drq_set_def)
next
  case (Suc n)
  then obtain j where j: "k = Suc j" "n < j" by (cases k) auto
  have 1: "drq_set B base ((disk_poll B base ^^ n) (disk_poll B base d))"
    using Suc.prems(2) by (simp add: funpow_swap1)
  have 2: "\<forall>j < n. fst (in8 B (base + 7) ((disk_poll B base ^^ j) (disk_poll B base d))) AND ATA_STATUS_ERR = 0"
    using Suc.prems(3) by (metis Suc_less_eq funpow_swap1 comp_apply funpow.simps(2))
  have 3: "fst (in8 B (base + 7) d) AND ATA_STATUS_ERR = 0" using Suc.prems(3) by (metis funpow_0 zero_less_Suc)
  obtain d' where "wait_drq_loop B (base + 7) j (disk_poll B base d) = (ATA_OK, d')" "P d'" "drq_set B base d'"
    using Suc.IH [OF j(2) 1 2] assms(4) [OF Suc.prems(4)] by blast
  moreover have "\<exists>d'. wait_drq_loop B (base + 7) k d = (ATA_OK, d') \<and> P d' \<and> drq_set B base d'"
    if "fst (in8 B (base + 7) d) AND ATA_STATUS_DRQ \<noteq> 0"
    using that j(1) assms(4) [OF Suc.prems(4)] keep [of d] by (simp add: inb_def split_beta Let_def disk_poll_def drq_set_def)
  ultimately show ?case using j(1) 3 by (auto simp: inb_def split_beta Let_def disk_poll_def)
qed

lemma unat_drop_bit: "unat (drop_bit k (x :: u64)) = unat x div 2 ^ k"
proof -
  have "take_bit 64 (unat x) = unat x" using unsigned_less [of x] by (intro take_bit_nat_eq_self) simp
  then show ?thesis by (simp only: unsigned_drop_bit_eq) (simp add: drop_bit_eq_div)
qed

lemma lba_byte: "unat (ucast (drop_bit k (lba :: u64) AND 0xff) :: u8) = unat lba div 2 ^ k mod 256"
proof -
  have "(0xff :: u64) = mask 8" by (simp add: mask_eq_exp_minus_1)
  then have "(ucast (drop_bit k lba AND 0xff) :: u8) = ucast (take_bit 8 (drop_bit k lba))" by (simp only: take_bit_eq_mask)
  also have "\<dots> = ucast (drop_bit k lba)" by (rule bit_word_eqI) (simp add: bit_unsigned_iff bit_take_bit_iff)
  finally have "unat (ucast (drop_bit k lba AND 0xff) :: u8) = take_bit 8 (unat (drop_bit k lba))"
    by (simp add: unsigned_ucast_eq)
  then show ?thesis by (simp add: take_bit_eq_mod unat_drop_bit)
qed

lemma head_register:
  fixes lba :: u64
  assumes "s \<in> {ATA_DRIVE_MASTER, ATA_DRIVE_SLAVE}"
  defines "h \<equiv> s OR ATA_DRIVE_LBA OR ucast (drop_bit 24 lba AND 0x0F)"
  shows "unat (h AND 0xf) = unat lba div 2 ^ 24 mod 16" and "bit h 4 \<longleftrightarrow> s = ATA_DRIVE_SLAVE"
proof -
  have m: "(0xf :: u64) = mask 4" "(0xf :: u8) = mask 4" by (simp_all add: mask_eq_exp_minus_1)
  have s: "s AND 0xf = 0" "bit s 4 \<longleftrightarrow> s = ATA_DRIVE_SLAVE" "ATA_DRIVE_LBA AND 0xf = 0" "\<not> bit ATA_DRIVE_LBA 4"
    using assms(1) by (auto simp: ATA_DRIVE_MASTER_def ATA_DRIVE_SLAVE_def ATA_DRIVE_LBA_def)
  have "h AND 0xf = ucast (drop_bit 24 lba AND 0x0F) AND 0xf"
    using s by (simp add: h_def bit.conj_disj_distrib2)
  also have "\<dots> = ucast (take_bit 4 (drop_bit 24 lba))"
    by (rule bit_word_eqI) (simp add: m bit_unsigned_iff bit_and_iff bit_mask_iff bit_take_bit_iff, blast)
  finally have "unat (h AND 0xf) = take_bit 8 (take_bit 4 (unat (drop_bit 24 lba)))"
    by (simp add: unsigned_ucast_eq unsigned_take_bit_eq)
  then show "unat (h AND 0xf) = unat lba div 2 ^ 24 mod 16" by (simp add: take_bit_eq_mod unat_drop_bit)
  show "bit h 4 \<longleftrightarrow> s = ATA_DRIVE_SLAVE"
    using s by (simp add: h_def bit_or_iff bit_unsigned_iff m bit_and_iff bit_mask_iff)
qed

lemma lba_split:
  "(L :: nat) mod 256 + 2 ^ 8 * (L div 2 ^ 8 mod 256) + 2 ^ 16 * (L div 2 ^ 16 mod 256) + 2 ^ 24 * (L div 2 ^ 24 mod 16) = L mod 2 ^ 28"
proof -
  have "L mod 2 ^ 28 = L mod (2 ^ 8 * (2 ^ 8 * (2 ^ 8 * 16)))" by simp
  also have "\<dots> = 2 ^ 8 * (2 ^ 8 * (2 ^ 8 * (L div 2 ^ 8 div 2 ^ 8 div 2 ^ 8 mod 16) + L div 2 ^ 8 div 2 ^ 8 mod 2 ^ 8) + L div 2 ^ 8 mod 2 ^ 8) + L mod 2 ^ 8"
    by (simp only: mod_mult2_eq)
  also have "L div 2 ^ 8 div 2 ^ 8 = L div 2 ^ 16" by (simp add: div_mult2_eq [symmetric])
  also have "L div 2 ^ 16 div 2 ^ 8 = L div 2 ^ 24" by (simp add: div_mult2_eq [symmetric])
  finally have split: "L mod 2 ^ 28 = 2 ^ 8 * (2 ^ 8 * (2 ^ 8 * (L div 2 ^ 24 mod 16) + L div 2 ^ 16 mod 2 ^ 8) + L div 2 ^ 8 mod 2 ^ 8) + L mod 2 ^ 8" .
  have "2 ^ 8 * (2 ^ 8 * (2 ^ 8 * x + y) + z) + w = w + 2 ^ 8 * z + 2 ^ 16 * y + 2 ^ 24 * x" for x y z w :: nat by simp
  moreover have "(2 :: nat) ^ 8 = 256" by simp
  ultimately show ?thesis using split by (simp only:)
qed

definition sector_place :: "ata_device \<Rightarrow> u64 \<Rightarrow> bool \<times> nat" where
  "sector_place dev lba = (drive dev \<noteq> 0, unat lba mod 2 ^ 28)"

lemma place_registers:
  assumes "task_reg v 3 = ucast (lba AND 0xff)" and "task_reg v 4 = ucast (drop_bit 8 lba AND 0xff)"
    and "task_reg v 5 = ucast (drop_bit 16 lba AND 0xff)"
    and "task_reg v 6 = (if drive dev = 0 then ATA_DRIVE_MASTER else ATA_DRIVE_SLAVE) OR ATA_DRIVE_LBA OR ucast (drop_bit 24 lba AND 0x0F)"
  shows "disk_place v = sector_place dev lba"
proof -
  let ?s = "if drive dev = 0 then ATA_DRIVE_MASTER else ATA_DRIVE_SLAVE"
  have s: "?s \<in> {ATA_DRIVE_MASTER, ATA_DRIVE_SLAVE}" "?s = ATA_DRIVE_SLAVE \<longleftrightarrow> drive dev \<noteq> 0"
    by (simp_all add: ATA_DRIVE_MASTER_def ATA_DRIVE_SLAVE_def)
  have 0: "unat (task_reg v 3) = unat lba mod 256" using lba_byte [of 0 lba] assms(1) by simp
  show ?thesis
    unfolding disk_place_def sector_place_def 0 assms(2-4) lba_byte head_register [OF s(1)] lba_split s(2) ..
qed

section \<open>The driver on a disk\<close>

lemma ata_diskD:
  assumes "ata_disk B dev v"
  shows "v (snd (in8 B (base_port dev + 7) d)) = v d" and "v (snd (in8 B (ctrl_port dev) d)) = v d"
    and "i \<in> {1, 2, 3, 4, 5, 6} \<Longrightarrow> v (out8 B (base_port dev + i) x d) = (v d)\<lparr>task_reg := (task_reg (v d))(i := x)\<rparr>"
    and "\<exists>n < 1000000. fst (in8 B (base_port dev + 7) ((disk_poll B (base_port dev) ^^ n) d)) AND ATA_STATUS_BSY = 0"
    and "fst (in8 B (base_port dev + 7) d) AND ATA_STATUS_ERR = 0"
    and "v (out8 B (base_port dev + 7) ATA_CMD_READ_SECTORS d) = (v d)\<lparr>rd_words := sectors (v d) (disk_place (v d))\<rparr>"
    and "drq_soon B (base_port dev) (out8 B (base_port dev + 7) ATA_CMD_READ_SECTORS d)"
    and "v (out8 B (base_port dev + 7) ATA_CMD_WRITE_SECTORS d) = (v d)\<lparr>wr_words := [], wr_place := disk_place (v d)\<rparr>"
    and "drq_soon B (base_port dev) (out8 B (base_port dev + 7) ATA_CMD_WRITE_SECTORS d)"
    and "drq_set B (base_port dev) d \<Longrightarrow> rd_words (v d) = w # ws \<Longrightarrow> fst (in16 B (base_port dev) d) = w"
    and "drq_set B (base_port dev) d \<Longrightarrow> rd_words (v d) = w # ws \<Longrightarrow> v (snd (in16 B (base_port dev) d)) = (v d)\<lparr>rd_words := ws\<rparr>"
    and "drq_set B (base_port dev) d \<Longrightarrow> v (out16 B (base_port dev) w d) = disk_take w (v d)"
    and "length (sectors (v d) p) = 256"
    and "drq_set B (base_port dev) d \<Longrightarrow> drq_set B (base_port dev) (disk_poll B (base_port dev) d)"
    and "drq_set B (base_port dev) d \<Longrightarrow> rd_words (v d) = w # ws \<Longrightarrow> ws \<noteq> [] \<Longrightarrow> drq_set B (base_port dev) (snd (in16 B (base_port dev) d))"
    and "drq_set B (base_port dev) d \<Longrightarrow> Suc (length (wr_words (v d))) < 256 \<Longrightarrow> drq_set B (base_port dev) (out16 B (base_port dev) w d)"
  using assms unfolding ata_disk_def Let_def by blast+

lemma ata_wait_ready_ok:
  assumes "ata_disk B dev v"
  obtains d' where "ata_wait_ready B dev d = (ATA_OK, d')" and "v d' = v d"
proof -
  obtain n where n: "n < 1000000" "fst (in8 B (base_port dev + 7) ((disk_poll B (base_port dev) ^^ n) d)) AND ATA_STATUS_BSY = 0"
    using ata_diskD(4) [OF assms] by blast
  from wait_ready_loop_returns [OF n, of "\<lambda>d'. v d' = v d"] show ?thesis
    using that ata_diskD(1) [OF assms] unfolding ata_wait_ready_def disk_poll_def by metis
qed

lemma ata_wait_drq_ok:
  assumes "ata_disk B dev v" and "drq_soon B (base_port dev) d"
  obtains d' where "ata_wait_drq B dev d = (ATA_OK, d')" and "v d' = v d" and "drq_set B (base_port dev) d'"
proof -
  obtain n where n: "n < 1000000" "drq_set B (base_port dev) ((disk_poll B (base_port dev) ^^ n) d)"
    using assms(2) unfolding drq_soon_def by blast
  have "\<exists>d'. wait_drq_loop B (base_port dev + 7) 1000000 d = (ATA_OK, d') \<and> v d' = v d \<and> drq_set B (base_port dev) d'"
    using ata_diskD(1,5) [OF assms(1)] ata_diskD(14) [OF assms(1)]
    by (intro wait_drq_loop_returns [OF n, of "\<lambda>d'. v d' = v d"]) (simp_all add: disk_poll_def)
  then show ?thesis using that unfolding ata_wait_drq_def by blast
qed

lemma alt_status_keeps:
  assumes "ata_disk B dev v"
  shows "v (((\<lambda>d. snd (inb B (ctrl_port dev) d)) ^^ n) d) = v d"
  by (induction n) (simp_all add: inb_def ata_diskD(2) [OF assms])

lemma ata_command:
  assumes disk: "ata_disk B dev v"
  obtains d1 d2 where "ata_select_drive B dev lba d = (ATA_OK, d1)"
    and "ata_setup B dev lba cmd d1 = out8 B (base_port dev + 7) cmd d2"
    and "disk_place (v d2) = sector_place dev lba" and "sectors (v d2) = sectors (v d)"
proof -
  define h where "h = (if drive dev = 0 then ATA_DRIVE_MASTER else ATA_DRIVE_SLAVE) OR ATA_DRIVE_LBA OR ucast (drop_bit 24 lba AND 0x0F)"
  define e where "e = ((\<lambda>d. snd (inb B (ctrl_port dev) d)) ^^ 4) (outb B (base_port dev + 6) h d)"
  obtain d1 where d1: "ata_wait_ready B dev e = (ATA_OK, d1)" "v d1 = v e" by (rule ata_wait_ready_ok [OF disk])
  have sel: "ata_select_drive B dev lba d = (ATA_OK, d1)"
    using d1(1) unfolding ata_select_drive_def Let_def e_def h_def by simp
  have v1: "v d1 = (v d)\<lparr>task_reg := (task_reg (v d))(6 := h)\<rparr>"
    unfolding d1(2) e_def alt_status_keeps [OF disk] outb_def by (rule ata_diskD(3) [OF disk]) simp
  let ?o = "\<lambda>i x. out8 B (base_port dev + i) x"
  define d2 where "d2 = ?o 5 (ucast (drop_bit 16 lba AND 0xFF)) (?o 4 (ucast (drop_bit 8 lba AND 0xFF)) (?o 3 (ucast (lba AND 0xFF)) (?o 2 1 (?o 1 0 d1))))"
  have set: "ata_setup B dev lba cmd d1 = out8 B (base_port dev + 7) cmd d2"
    by (simp add: ata_setup_def Let_def outb_def d2_def)
  have v2: "v d2 = (v d)\<lparr>task_reg := (task_reg (v d))(6 := h, 1 := 0, 2 := 1, 3 := ucast (lba AND 0xFF),
      4 := ucast (drop_bit 8 lba AND 0xFF), 5 := ucast (drop_bit 16 lba AND 0xFF))\<rparr>"
    by (simp add: d2_def ata_diskD(3) [OF disk] v1)
  have "disk_place (v d2) = sector_place dev lba" by (rule place_registers) (simp_all add: v2 h_def)
  moreover have "sectors (v d2) = sectors (v d)" by (simp add: v2)
  ultimately show ?thesis by (rule that [OF sel set])
qed

lemma read_words_ok:
  assumes disk: "ata_disk B dev v"
  shows "rd_words (v d) = ws \<Longrightarrow> 2 * length ws \<le> 2 ^ 64 \<Longrightarrow> ws \<noteq> [] \<longrightarrow> drq_set B (base_port dev) d \<Longrightarrow> \<exists>m' d'. read_words B (base_port dev) (length ws) p (m, d) = (m', d') \<and>
    sectors (v d') = sectors (v d) \<and> (\<forall>i < length ws. load16 (p + 2 * of_nat i) m' = ws ! i) \<and>
    (\<forall>a. 2 * length ws \<le> unat (a - p) \<longrightarrow> m' a = m a)"
proof (induction ws arbitrary: p m d)
  case Nil
  then show ?case by simp
next
  case (Cons w ws)
  let ?d1 = "snd (in16 B (base_port dev) d)"
  have 1: "inw B (base_port dev) d = (w, ?d1)" "v ?d1 = (v d)\<lparr>rd_words := ws\<rparr>"
    using ata_diskD(10,11) [OF disk _ Cons.prems(1)] Cons.prems(3) by (auto simp: inw_def prod_eq_iff)
  have drq: "ws \<noteq> [] \<longrightarrow> drq_set B (base_port dev) ?d1"
    using ata_diskD(15) [OF disk _ Cons.prems(1)] Cons.prems(3) by blast
  obtain m' d' where ih: "read_words B (base_port dev) (length ws) (p + 2) (store16 p w m, ?d1) = (m', d')"
    "sectors (v d') = sectors (v d)" "\<forall>i < length ws. load16 (p + 2 + 2 * of_nat i) m' = ws ! i"
    "\<forall>a. 2 * length ws \<le> unat (a - (p + 2)) \<longrightarrow> m' a = store16 p w m a"
    using Cons.IH [of ?d1 "p + 2" "store16 p w m"] Cons.prems(2) 1(2) drq by auto
  have off: "p - (p + 2) = - 2" "p + 1 - (p + 2) = - 1" by simp_all
  have neg: "unat (- 2 :: u64) = 2 ^ 64 - 2" "unat (- 1 :: u64) = 2 ^ 64 - 1"
    by (simp_all add: unsigned_minus_1_eq_mask mask_eq_exp_minus_1)
  have far: "2 * length ws \<le> unat (p - (p + 2))" "2 * length ws \<le> unat (p + 1 - (p + 2))"
    using Cons.prems(2) neg unfolding off by simp_all
  have "load16 p m' = w" using ih(4) far load_store16 [of p w m] by (simp add: load16_def)
  moreover have "load16 (p + 2 * of_nat i) m' = ws ! (i - 1)" if "0 < i" "i < Suc (length ws)" for i
    using ih(3) [rule_format, of "i - 1"] that by (simp add: algebra_simps)
  moreover have "m' a = m a" if "2 * Suc (length ws) \<le> unat (a - p)" for a
  proof -
    have "2 \<le> a - p" using that by (simp add: word_le_nat_alt)
    then have "unat (a - p - 2) = unat (a - p) - unat (2 :: u64)" by (rule unat_sub)
    then have "unat (a - (p + 2)) = unat (a - p) - 2" by (simp add: diff_diff_eq)
    then have "m' a = store16 p w m a" using ih(4) that by simp
    moreover have "a \<noteq> p" "a \<noteq> p + 1" using that by auto
    ultimately show ?thesis by (simp add: store16_def)
  qed
  ultimately show ?case using ih(1,2) 1(1) by (auto simp: nth_Cons')
qed

definition words_at :: "u64 \<Rightarrow> nat \<Rightarrow> mem \<Rightarrow> u16 list" where
  "words_at p n m = map (\<lambda>i. load16 (p + 2 * of_nat i) m) [0..<n]"

lemma words_at_Suc: "words_at p (Suc n) m = load16 p m # words_at (p + 2) n m"
  unfolding words_at_def by (rule nth_equalityI) (auto simp: nth_Cons' algebra_simps simp del: upt_Suc)

lemma write_words_ok:
  assumes disk: "ata_disk B dev v"
  shows "length (wr_words (v d)) + Suc n = 256 \<Longrightarrow> drq_set B (base_port dev) d \<Longrightarrow> sectors (v (write_words B (base_port dev) (Suc n) p m d)) =
    (sectors (v d))(wr_place (v d) := wr_words (v d) @ words_at p (Suc n) m)"
proof (induction n arbitrary: p d)
  case 0
  then show ?case by (simp add: outw_def ata_diskD(12) [OF disk] disk_take_def Let_def words_at_def)
next
  case (Suc n)
  let ?d1 = "outw B (base_port dev) (load16 p m) d"
  have "v ?d1 = (v d)\<lparr>wr_words := wr_words (v d) @ [load16 p m]\<rparr>"
    using Suc.prems by (simp add: outw_def ata_diskD(12) [OF disk] disk_take_def Let_def)
  moreover have "drq_set B (base_port dev) ?d1" using ata_diskD(16) [OF disk Suc.prems(2)] Suc.prems(1) by (simp add: outw_def)
  ultimately show ?case using Suc.IH [of ?d1 "p + 2"] Suc.prems
    by (simp only: write_words.simps(2) words_at_Suc) (simp add: words_at_Suc)
qed

lemma ata_read_sector_ok:
  assumes disk: "ata_disk B dev v"
  obtains m' d' where "ata_read_sector B dev lba buf (m, d) = (ATA_OK, m', d')" and "sectors (v d') = sectors (v d)"
    and "words_at buf 256 m' = sectors (v d) (sector_place dev lba)" and "\<forall>a. 512 \<le> unat (a - buf) \<longrightarrow> m' a = m a"
proof -
  obtain d0 where 0: "ata_wait_ready B dev d = (ATA_OK, d0)" "v d0 = v d" by (rule ata_wait_ready_ok [OF disk])
  obtain d1 d2 where 1: "ata_select_drive B dev lba d0 = (ATA_OK, d1)"
    "ata_setup B dev lba ATA_CMD_READ_SECTORS d1 = out8 B (base_port dev + 7) ATA_CMD_READ_SECTORS d2"
    "disk_place (v d2) = sector_place dev lba" "sectors (v d2) = sectors (v d0)" by (rule ata_command [OF disk])
  obtain d4 where 4: "ata_wait_drq B dev (out8 B (base_port dev + 7) ATA_CMD_READ_SECTORS d2) = (ATA_OK, d4)"
    "v d4 = v (out8 B (base_port dev + 7) ATA_CMD_READ_SECTORS d2)" "drq_set B (base_port dev) d4" by (rule ata_wait_drq_ok [OF disk ata_diskD(7) [OF disk]])
  have q: "rd_words (v d4) = sectors (v d) (sector_place dev lba)" "sectors (v d4) = sectors (v d)"
    using 0(2) 1(3,4) by (simp_all add: 4(2) ata_diskD(6) [OF disk])
  have len: "length (sectors (v d) (sector_place dev lba)) = 256" by (rule ata_diskD(13) [OF disk])
  obtain m' d' where r: "read_words B (base_port dev) 256 buf (m, d4) = (m', d')" "sectors (v d') = sectors (v d4)"
    "\<forall>i < 256. load16 (buf + 2 * of_nat i) m' = sectors (v d) (sector_place dev lba) ! i" "\<forall>a. 512 \<le> unat (a - buf) \<longrightarrow> m' a = m a"
    using read_words_ok [OF disk q(1), of buf m] len 4(3) by auto
  have "words_at buf 256 m' = sectors (v d) (sector_place dev lba)"
    by (rule nth_equalityI) (simp_all add: words_at_def len r(3))
  moreover have "ata_read_sector B dev lba buf (m, d) = (ATA_OK, m', d')"
    unfolding ata_read_sector_def Let_def prod.case 0(1) 1(1,2) 4(1) r(1) by simp
  ultimately show ?thesis using that r(2,4) q(2) by simp
qed

lemma ata_write_sector_ok:
  assumes disk: "ata_disk B dev v"
  obtains d' where "ata_write_sector B dev lba buf (m, d) = (ATA_OK, m, d')"
    and "sectors (v d') = (sectors (v d))(sector_place dev lba := words_at buf 256 m)"
proof -
  obtain d0 where 0: "ata_wait_ready B dev d = (ATA_OK, d0)" "v d0 = v d" by (rule ata_wait_ready_ok [OF disk])
  obtain d1 d2 where 1: "ata_select_drive B dev lba d0 = (ATA_OK, d1)"
    "ata_setup B dev lba ATA_CMD_WRITE_SECTORS d1 = out8 B (base_port dev + 7) ATA_CMD_WRITE_SECTORS d2"
    "disk_place (v d2) = sector_place dev lba" "sectors (v d2) = sectors (v d0)" by (rule ata_command [OF disk])
  obtain d4 where 4: "ata_wait_drq B dev (out8 B (base_port dev + 7) ATA_CMD_WRITE_SECTORS d2) = (ATA_OK, d4)"
    "v d4 = v (out8 B (base_port dev + 7) ATA_CMD_WRITE_SECTORS d2)" "drq_set B (base_port dev) d4" by (rule ata_wait_drq_ok [OF disk ata_diskD(9) [OF disk]])
  have q: "wr_words (v d4) = []" "wr_place (v d4) = sector_place dev lba" "sectors (v d4) = sectors (v d)"
    using 0(2) 1(3,4) by (simp_all add: 4(2) ata_diskD(8) [OF disk])
  define d5 where "d5 = write_words B (base_port dev) 256 buf m d4"
  have s5: "sectors (v d5) = (sectors (v d))(sector_place dev lba := words_at buf 256 m)"
    using write_words_ok [OF disk, of d4 255 buf m] q 4(3) by (simp add: d5_def)
  obtain d6 where 6: "ata_wait_ready B dev d5 = (ATA_OK, d6)" "v d6 = v d5" by (rule ata_wait_ready_ok [OF disk])
  have "ata_write_sector B dev lba buf (m, d) = (ATA_OK, m, snd (in8 B (base_port dev + 7) d6))"
    unfolding ata_write_sector_def Let_def prod.case 0(1) 1(1,2) 4(1) d5_def [symmetric] 6(1)
    using ata_diskD(5) [OF disk, of d6] by (simp add: inb_def split_beta)
  then show ?thesis by (rule that) (simp add: ata_diskD(1) [OF disk] 6(2) s5)
qed

lemma load16_bytes: "ucast (load16 p m) = m p" "ucast (drop_bit 8 (load16 p m)) = m (p + 1)"
  by (rule bit_word_eqI, auto simp: load16_def bit_or_iff bit_push_bit_iff bit_unsigned_iff bit_drop_bit_eq dest: bit_imp_le_length)+

lemma bytes_of_words:
  assumes "words_at p n m' = words_at q n m" and "k < 2 * n"
  shows "m' (p + of_nat k) = m (q + of_nat k)"
proof -
  have eq: "load16 (p + 2 * of_nat i) m' = load16 (q + 2 * of_nat i) m" if "i < n" for i
    using arg_cong [OF assms(1), of "\<lambda>xs. xs ! i"] that by (simp add: words_at_def)
  consider i where "k = 2 * i" "i < n" | i where "k = Suc (2 * i)" "i < n"
    using assms(2) by (metis Suc_mult_less_cancel1 nat_mult_less_cancel_disj less_Suc_eq_le parity_cases even_two_times_div_two odd_two_times_div_two_succ Suc_lessD add.commute plus_1_eq_Suc numeral_2_eq_2)
  then show ?thesis
  proof cases
    case 1
    then show ?thesis using arg_cong [OF eq [OF 1(2)], of "ucast :: u16 \<Rightarrow> u8"] by (simp add: load16_bytes)
  next
    case 2
    then show ?thesis
      using arg_cong [OF eq [OF 2(2)], of "\<lambda>w. ucast (drop_bit 8 w) :: u8"] by (simp only: load16_bytes) (simp add: algebra_simps)
  qed
qed

lemma words_at_cong:
  assumes "\<And>k. k < 2 * n \<Longrightarrow> m' (p + of_nat k) = m (p + of_nat k)"
  shows "words_at p n m' = words_at p n m"
proof -
  have "load16 (p + 2 * of_nat i) m' = load16 (p + 2 * of_nat i) m" if "i < n" for i
    using assms [of "2 * i"] assms [of "Suc (2 * i)"] that by (simp add: load16_def algebra_simps)
  then show ?thesis by (simp add: words_at_def)
qed

lemma far_from_next_sector:
  fixes p :: u64
  assumes "512 * Suc n \<le> 2 ^ 64" and "k < 512"
  shows "512 * n \<le> unat (p + of_nat k - (p + 512))"
proof -
  have "p + of_nat k - (p + 512) = - of_nat (512 - k)" using assms(2) by (simp add: of_nat_diff)
  then have "unat (p + of_nat k - (p + 512)) = unat (- (of_nat (512 - k) :: u64))" by (simp only:)
  also have "\<dots> = 2 ^ 64 - (512 - k)"
  proof -
    have "unat (of_nat (512 - k) :: u64) = 512 - k" by (simp only: unat_of_nat) simp
    then show ?thesis using unat_sub_if' [of 0 "of_nat (512 - k) :: u64"] assms(2) by (simp del: of_nat_diff)
  qed
  finally show ?thesis using assms by simp
qed

lemma read_sectors_loop_ok:
  assumes disk: "ata_disk B dev v"
  shows "512 * n \<le> 2 ^ 64 \<Longrightarrow> \<exists>m' d'. sectors_loop (ata_read_sector B dev) n i lba buf (m, d) = (ATA_OK, m', d') \<and>
    sectors (v d') = sectors (v d) \<and>
    (\<forall>j < n. words_at (buf + (i + of_nat j) * 512) 256 m' = sectors (v d) (sector_place dev (lba + (i + of_nat j)))) \<and>
    (\<forall>a. 512 * n \<le> unat (a - (buf + i * 512)) \<longrightarrow> m' a = m a)"
proof (induction n arbitrary: i m d)
  case 0
  then show ?case by simp
next
  case (Suc n)
  let ?p = "buf + i * 512"
  obtain m1 d1 where 1: "ata_read_sector B dev (lba + i) ?p (m, d) = (ATA_OK, m1, d1)" "sectors (v d1) = sectors (v d)"
    "words_at ?p 256 m1 = sectors (v d) (sector_place dev (lba + i))" "\<forall>a. 512 \<le> unat (a - ?p) \<longrightarrow> m1 a = m a"
    by (rule ata_read_sector_ok [OF disk])
  have p2: "buf + (i + 1) * 512 = ?p + 512" by (simp add: algebra_simps)
  obtain m2 d2 where 2: "sectors_loop (ata_read_sector B dev) n (i + 1) lba buf (m1, d1) = (ATA_OK, m2, d2)"
    "sectors (v d2) = sectors (v d)"
    "\<forall>j < n. words_at (buf + (i + 1 + of_nat j) * 512) 256 m2 = sectors (v d) (sector_place dev (lba + (i + 1 + of_nat j)))"
    "\<forall>a. 512 * n \<le> unat (a - (?p + 512)) \<longrightarrow> m2 a = m1 a"
    using Suc.IH [of "i + 1" m1 d1] Suc.prems unfolding p2 1(2) by auto
  have "words_at ?p 256 m2 = words_at ?p 256 m1"
    using 2(4) far_from_next_sector [OF Suc.prems] by (intro words_at_cong) simp
  then have "words_at (buf + (i + of_nat j) * 512) 256 m2 = sectors (v d) (sector_place dev (lba + (i + of_nat j)))"
    if "j < Suc n" for j using 1(3) 2(3) [rule_format, of "j - 1"] that by (cases j) (simp_all add: add.assoc)
  moreover have "m2 a = m a" if a: "512 * Suc n \<le> unat (a - ?p)" for a
  proof -
    have "512 \<le> a - ?p" using a by (simp add: word_le_nat_alt)
    then have "unat (a - ?p - 512) = unat (a - ?p) - unat (512 :: u64)" by (rule unat_sub)
    then have "unat (a - (?p + 512)) = unat (a - ?p) - 512" by (simp add: diff_diff_eq)
    then show ?thesis using a 1(4) 2(4) by simp
  qed
  ultimately show ?case using 1(1) 2(1,2) by auto
qed

lemma add_mod_inj: "a < n \<Longrightarrow> b < n \<Longrightarrow> (c + a) mod n = (c + b) mod n \<Longrightarrow> a = (b :: nat)"
proof (induction a b rule: linorder_wlog)
  case (le a b)
  then have "n dvd c + b - (c + a)" using mod_eq_dvd_iff_nat [of "c + a" "c + b" n] by simp
  then have "n dvd b - a" by simp
  moreover have "b - a < n" using le by simp
  ultimately have "b - a = 0" by (meson nat_dvd_not_less neq0_conv)
  then show ?case using le by simp
next
  case (sym a b)
  then show ?case by simp
qed

lemma sector_place_eq: "a < 2 ^ 28 \<Longrightarrow> b < 2 ^ 28 \<Longrightarrow>
  sector_place dev (lba + of_nat a) = sector_place dev (lba + of_nat b) \<longleftrightarrow> a = b"
proof -
  assume ab: "a < 2 ^ 28" "b < 2 ^ 28"
  have e: "unat (lba + of_nat k) mod 2 ^ 28 = (unat lba + k) mod 2 ^ 28" for k
  proof -
    have "unat (lba + of_nat k) = (unat lba + k) mod 2 ^ 64"
      using unat_word_ariths(1) [of lba "of_nat k"] by (simp add: unat_of_nat mod_add_right_eq)
    then show ?thesis by (simp add: mod_mod_cancel)
  qed
  then show ?thesis using ab add_mod_inj [of a "2 ^ 28" b "unat lba"] by (auto simp: sector_place_def)
qed

lemma write_sectors_loop_ok:
  assumes disk: "ata_disk B dev v"
  shows "n \<le> 2 ^ 28 \<Longrightarrow> \<exists>d'. sectors_loop (ata_write_sector B dev) n i lba buf (m, d) = (ATA_OK, m, d') \<and>
    (\<forall>j < n. sectors (v d') (sector_place dev (lba + i + of_nat j)) = words_at (buf + (i + of_nat j) * 512) 256 m) \<and>
    (\<forall>pl. (\<forall>j < n. pl \<noteq> sector_place dev (lba + i + of_nat j)) \<longrightarrow> sectors (v d') pl = sectors (v d) pl)"
proof (induction n arbitrary: i d)
  case 0
  then show ?case by simp
next
  case (Suc n)
  obtain d1 where 1: "ata_write_sector B dev (lba + i) (buf + i * 512) (m, d) = (ATA_OK, m, d1)"
    "sectors (v d1) = (sectors (v d))(sector_place dev (lba + i) := words_at (buf + i * 512) 256 m)"
    by (rule ata_write_sector_ok [OF disk])
  have i1: "lba + (i + 1) + of_nat j = lba + i + of_nat (Suc j)" "i + 1 + of_nat j = i + of_nat (Suc j)" for j
    by (simp_all add: algebra_simps)
  obtain d2 where 2: "sectors_loop (ata_write_sector B dev) n (i + 1) lba buf (m, d1) = (ATA_OK, m, d2)"
    "\<forall>j < n. sectors (v d2) (sector_place dev (lba + i + of_nat (Suc j))) = words_at (buf + (i + of_nat (Suc j)) * 512) 256 m"
    "\<forall>pl. (\<forall>j < n. pl \<noteq> sector_place dev (lba + i + of_nat (Suc j))) \<longrightarrow> sectors (v d2) pl = sectors (v d1) pl"
    using Suc.IH [of "i + 1" d1] Suc.prems unfolding i1 by (metis Suc_leD)
  have "sectors (v d2) (sector_place dev (lba + i + of_nat j)) = words_at (buf + (i + of_nat j) * 512) 256 m" if j: "j < Suc n" for j
  proof (cases j)
    case 0
    have "sector_place dev (lba + i + of_nat 0) \<noteq> sector_place dev (lba + i + of_nat (Suc k))" if "k < n" for k
      using sector_place_eq [of 0 "Suc k" dev "lba + i"] that Suc.prems by simp
    then show ?thesis using 2(3) [rule_format, of "sector_place dev (lba + i)"] 1(2) 0 by simp
  next
    case (Suc k)
    then show ?thesis using 2(2) j by simp
  qed
  moreover have "sectors (v d2) pl = sectors (v d) pl" if "\<forall>j < Suc n. pl \<noteq> sector_place dev (lba + i + of_nat j)" for pl
    using that [rule_format, of 0] 1(2) 2(3) [rule_format, of pl] that [rule_format, of "Suc _"] by simp
  ultimately show ?case using 1(1) 2(1) by auto
qed

lemma bytes_of_sectors:
  assumes "\<forall>j < n. words_at (p + of_nat j * 512) 256 m' = words_at (q + of_nat j * 512) 256 m" and "k < 512 * n"
  shows "m' (p + of_nat k) = m (q + of_nat k)"
proof -
  have k: "k = 512 * (k div 512) + k mod 512" and "k div 512 < n" using assms(2) by auto
  then have "m' (p + of_nat (k div 512) * 512 + of_nat (k mod 512)) = m (q + of_nat (k div 512) * 512 + of_nat (k mod 512))"
    using assms(1) by (intro bytes_of_words [of _ 256]) auto
  moreover have "r + of_nat (k div 512) * 512 + of_nat (k mod 512) = r + of_nat k" for r :: u64
    by (subst (3) k) (simp only: of_nat_add of_nat_mult of_nat_numeral add.assoc mult.commute)
  ultimately show ?thesis by simp
qed

lemma wait_ready_loop_busy:
  assumes "\<And>d. fst (in8 B (base + 7) d) AND ATA_STATUS_BSY \<noteq> 0"
  shows "wait_ready_loop B (base + 7) n d = (ATA_ERR_TIMEOUT, (disk_poll B base ^^ n) d)"
  using assms by (induction n arbitrary: d) (simp_all add: inb_def split_beta Let_def disk_poll_def funpow_swap1)

section \<open>Properties\<close>

text \<open>
  C14: On a disk without faults (\<open>ata_disk\<close>), reading sectors returns, and the buffer then holds the sectors of the selected drive, in order,
  with the sector numbers taken modulo \<open>2^28\<close>; memory outside the buffer and the disk are unchanged.
\<close>

theorem ata_read_sectors_copies_disk:
  assumes "ata_disk B dev v" and "512 * unat cnt \<le> 2 ^ 64"
  shows "\<exists>m' d'. ata_read_sectors B dev lba cnt buf (m, d) = (ATA_OK, m', d') \<and> sectors (v d') = sectors (v d) \<and>
    (\<forall>j < unat cnt. words_at (buf + of_nat j * 512) 256 m' = sectors (v d) (sector_place dev (lba + of_nat j))) \<and>
    (\<forall>a. 512 * unat cnt \<le> unat (a - buf) \<longrightarrow> m' a = m a)"
  using read_sectors_loop_ok [OF assms, of 0 lba buf m d] by (simp add: ata_read_sectors_def)

text \<open>A disk that is never busy; sectors are padded to 256 words.\<close>

definition pad :: "u16 list \<Rightarrow> u16 list" where
  "pad ws = take 256 (ws @ replicate 256 0)"

definition demo_view :: "disk \<Rightarrow> disk" where
  "demo_view d = d\<lparr>sectors := pad \<circ> sectors d\<rparr>"

definition demo_disk_bus :: "disk bus" where
  "demo_disk_bus = \<lparr>in8 = (\<lambda>p d. (0x48, d)),
     out8 = (\<lambda>p x d. if p = 0x1F7 \<and> x = 0x20 then d\<lparr>rd_words := pad (sectors d (disk_place d))\<rparr>
       else if p = 0x1F7 \<and> x = 0x30 then d\<lparr>wr_words := [], wr_place := disk_place d\<rparr>
       else d\<lparr>task_reg := (task_reg d)(p - 0x1F0 := x)\<rparr>),
     in16 = (\<lambda>p d. case rd_words d of [] \<Rightarrow> (0, d) | w # ws \<Rightarrow> (w, d\<lparr>rd_words := ws\<rparr>)),
     out16 = (\<lambda>p w d. disk_take w d)\<rparr>"

definition demo_ata :: ata_device where
  "demo_ata = \<lparr>base_port = ATA_PRIMARY_DATA, ctrl_port = ATA_PRIMARY_CTRL, drive = 0\<rparr>"

definition demo_disk :: disk where
  "demo_disk = \<lparr>task_reg = (\<lambda>i. 0), rd_words = [], wr_words = [], wr_place = (False, 0), sectors = (\<lambda>(s, n). replicate 256 (of_nat n))\<rparr>"

lemma demo_view_take: "demo_view (disk_take w d) = disk_take w (demo_view d)"
  by (cases d) (auto simp: demo_view_def disk_take_def Let_def pad_def fun_eq_iff)

lemma demo_view_sel [simp]:
  "rd_words (demo_view d) = rd_words d" "disk_place (demo_view d) = disk_place d" "sectors (demo_view d) p = pad (sectors d p)"
  by (simp_all add: demo_view_def disk_place_def)

lemma demo_drq_set: "drq_set demo_disk_bus p d"
  by (simp add: drq_set_def demo_disk_bus_def ATA_STATUS_DRQ_def)

lemma demo_drq: "drq_soon demo_disk_bus p d"
  unfolding drq_soon_def by (rule exI [of _ 0]) (simp add: demo_drq_set)

lemma demo_is_disk: "ata_disk demo_disk_bus demo_ata demo_view"
proof -
  have regs: "demo_view (out8 demo_disk_bus (base_port demo_ata + i) x d) = (demo_view d)\<lparr>task_reg := (task_reg (demo_view d))(i := x)\<rparr>"
    if "i \<in> {1, 2, 3, 4, 5, 6}" for i x d
    using that by (auto simp: demo_disk_bus_def demo_ata_def ATA_PRIMARY_DATA_def demo_view_def)
  have ready: "\<exists>n < 1000000. fst (in8 demo_disk_bus (base_port demo_ata + 7) ((disk_poll demo_disk_bus (base_port demo_ata) ^^ n) d)) AND ATA_STATUS_BSY = 0" for d
    by (rule exI [of _ 0]) (simp add: demo_disk_bus_def ATA_STATUS_BSY_def)
  have cmd: "demo_view (out8 demo_disk_bus (base_port demo_ata + 7) ATA_CMD_READ_SECTORS d) =
      (demo_view d)\<lparr>rd_words := sectors (demo_view d) (disk_place (demo_view d))\<rparr>"
    "demo_view (out8 demo_disk_bus (base_port demo_ata + 7) ATA_CMD_WRITE_SECTORS d) =
      (demo_view d)\<lparr>wr_words := [], wr_place := disk_place (demo_view d)\<rparr>" for d
    unfolding demo_view_sel
    by (simp_all add: demo_disk_bus_def demo_ata_def ATA_PRIMARY_DATA_def ATA_CMD_READ_SECTORS_def ATA_CMD_WRITE_SECTORS_def demo_view_def)
  have data: "fst (in16 demo_disk_bus p d) = w \<and> demo_view (snd (in16 demo_disk_bus p d)) = (demo_view d)\<lparr>rd_words := ws\<rparr>"
    if "rd_words (demo_view d) = w # ws" for p d w ws using that by (simp add: demo_disk_bus_def) (simp add: demo_view_def)
  show ?thesis
    unfolding ata_disk_def Let_def
    by (intro conjI allI ballI impI regs ready cmd demo_drq demo_drq_set) (use data in \<open>simp_all add: demo_disk_bus_def ATA_STATUS_ERR_def demo_view_take pad_def\<close>)
qed

theorem ata_read_sectors_copies_disk_witness:
  "\<exists>m' d'. ata_read_sectors demo_disk_bus demo_ata 5 2 0x1000 (\<lambda>a. 0, demo_disk) = (ATA_OK, m', d') \<and> load16 0x1200 m' = 6"
proof -
  obtain m' d' where r: "ata_read_sectors demo_disk_bus demo_ata 5 2 0x1000 (\<lambda>a. 0, demo_disk) = (ATA_OK, m', d')"
    "\<forall>j < 2. words_at (0x1000 + of_nat j * 512) 256 m' = sectors (demo_view demo_disk) (sector_place demo_ata (5 + of_nat j))"
    using ata_read_sectors_copies_disk [OF demo_is_disk, of 2 5 "0x1000" "\<lambda>a. 0" demo_disk] by auto
  have "words_at 0x1200 256 m' ! 0 = sectors (demo_view demo_disk) (sector_place demo_ata 6) ! 0" using r(2) [rule_format, of 1] by simp
  then have "load16 0x1200 m' = 6" by (simp add: words_at_def sector_place_def demo_disk_def pad_def)
  with r(1) show ?thesis by blast
qed

text \<open>
  C13: On a disk without faults (\<open>ata_disk\<close>), what is written to at most \<open>2^28\<close> sectors is read back: writing sectors from one buffer and reading
  the same sectors into another returns, copies all bytes, and changes no other memory.
\<close>

theorem ata_write_read_roundtrip:
  assumes "ata_disk B dev v" and "unat cnt \<le> 2 ^ 28"
  shows "\<exists>d1 m2 d2. ata_write_sectors B dev lba cnt buf (m, d) = (ATA_OK, m, d1) \<and>
    ata_read_sectors B dev lba cnt buf2 (m, d1) = (ATA_OK, m2, d2) \<and>
    (\<forall>k < 512 * unat cnt. m2 (buf2 + of_nat k) = m (buf + of_nat k)) \<and> (\<forall>a. 512 * unat cnt \<le> unat (a - buf2) \<longrightarrow> m2 a = m a)"
proof -
  obtain d1 where w: "ata_write_sectors B dev lba cnt buf (m, d) = (ATA_OK, m, d1)"
    "\<forall>j < unat cnt. sectors (v d1) (sector_place dev (lba + of_nat j)) = words_at (buf + of_nat j * 512) 256 m"
    using write_sectors_loop_ok [OF assms, of 0 lba buf m d] by (auto simp: ata_write_sectors_def)
  obtain m2 d2 where r: "ata_read_sectors B dev lba cnt buf2 (m, d1) = (ATA_OK, m2, d2)"
    "\<forall>j < unat cnt. words_at (buf2 + of_nat j * 512) 256 m2 = sectors (v d1) (sector_place dev (lba + of_nat j))"
    "\<forall>a. 512 * unat cnt \<le> unat (a - buf2) \<longrightarrow> m2 a = m a"
    using read_sectors_loop_ok [OF assms(1), of "unat cnt" 0 lba buf2 m d1] assms(2) by (auto simp: ata_read_sectors_def)
  have "\<forall>k < 512 * unat cnt. m2 (buf2 + of_nat k) = m (buf + of_nat k)" using bytes_of_sectors [of "unat cnt"] r(2) w(2) by simp
  then show ?thesis using w(1) r(1,3) by blast
qed

theorem ata_write_read_roundtrip_witness:
  "\<exists>d1 m2 d2. ata_write_sectors demo_disk_bus demo_ata 7 1 0x1000 (\<lambda>a. ucast a, demo_disk) = (ATA_OK, \<lambda>a. ucast a, d1) \<and>
    ata_read_sectors demo_disk_bus demo_ata 7 1 0x2080 (\<lambda>a. ucast a, d1) = (ATA_OK, m2, d2) \<and> m2 0x2085 = 5"
proof -
  obtain d1 m2 d2 where r: "ata_write_sectors demo_disk_bus demo_ata 7 1 0x1000 (\<lambda>a. ucast a, demo_disk) = (ATA_OK, \<lambda>a. ucast a, d1)"
    "ata_read_sectors demo_disk_bus demo_ata 7 1 0x2080 (\<lambda>a. ucast a, d1) = (ATA_OK, m2, d2)"
    "\<forall>k < 512. m2 (0x2080 + of_nat k) = (ucast (0x1000 + of_nat k :: u64) :: u8)"
    using ata_write_read_roundtrip [OF demo_is_disk, of 1 7 "0x1000" "\<lambda>a. ucast a" demo_disk "0x2080"] by auto
  moreover have "m2 0x2085 = 5" using r(3) [rule_format, of 5] by simp
  ultimately show ?thesis by blast
qed

text \<open>
  C18: on a bus where the busy bit is always read as set, as on one with no drive, the sector operations
  and \<open>ata_identify\<close> return \<open>ATA_ERR_TIMEOUT\<close> after 1000000 polls, having written no register and no memory.
\<close>

theorem ata_busy_times_out:
  assumes "\<forall>d. fst (in8 B (base_port dev + 7) d) AND ATA_STATUS_BSY \<noteq> 0"
  shows "\<forall>op \<in> {ata_read_sector B dev lba, ata_write_sector B dev lba, ata_identify B dev}.
    op buf (m, d) = (ATA_ERR_TIMEOUT, m, (disk_poll B (base_port dev) ^^ 1000000) d)"
proof -
  have "ata_wait_ready B dev d = (ATA_ERR_TIMEOUT, (disk_poll B (base_port dev) ^^ 1000000) d)"
    unfolding ata_wait_ready_def by (rule wait_ready_loop_busy) (use assms in blast)
  moreover have "ATA_ERR_TIMEOUT \<noteq> ATA_OK" by (simp add: ATA_ERR_TIMEOUT_def ATA_OK_def)
  ultimately show ?thesis by (simp add: ata_read_sector_def ata_write_sector_def ata_identify_def)
qed

definition floating_bus :: "nat bus" where
  "floating_bus = \<lparr>in8 = (\<lambda>p d. (0xff, d + 1)), out8 = (\<lambda>p x d. d), in16 = (\<lambda>p d. (0xffff, d)), out16 = (\<lambda>p x d. d)\<rparr>"

theorem ata_busy_times_out_witness:
  "fst (ata_read_sector floating_bus demo_ata 3 0x1000 (\<lambda>a. 0, 0)) = ATA_ERR_TIMEOUT \<and>
   fst (ata_identify floating_bus demo_ata 0x1000 (\<lambda>a. 0, 0)) = ATA_ERR_TIMEOUT"
  using ata_busy_times_out [of floating_bus demo_ata 3 "0x1000" "\<lambda>a. 0" 0]
  by (simp add: floating_bus_def ATA_STATUS_BSY_def)

end
