(* ===== verification/Store.thy ===== *)
theory Store
  imports Syscall Ata
begin

text \<open>
  Block stores and their cache: \<^verbatim>\<open>generic/store.c\<close>, \<^verbatim>\<open>fors/store.h\<close> and the store type of
  \<^verbatim>\<open>fors/types.h\<close>. The entries of the cache are allocated in the kernel heap and chained per store; a
  chain is related to the list of its entries. The messages of \<open>printk\<close> are left out.
\<close>

section \<open>Model\<close>

definition MAX_CACHED_BLOCKS :: int where "MAX_CACHED_BLOCKS = 2"
definition MAX_STORES :: nat where "MAX_STORES = 8"
definition MAX_STORETYPES :: nat where "MAX_STORETYPES = 4"

text \<open>The member \<open>dev\<close> of a store is a union of one device type.\<close>

record 'd store_type =
  tname :: "u8 list"
  seg_sz :: u64
  type_init :: "u64 \<Rightarrow> mem \<times> 'd \<Rightarrow> int \<times> ata_device \<times> mem \<times> 'd"
  rd :: "ata_device \<Rightarrow> u64 \<Rightarrow> u64 \<Rightarrow> mem \<times> 'd \<Rightarrow> int \<times> mem \<times> 'd"
  wr :: "ata_device \<Rightarrow> u64 \<Rightarrow> u64 \<Rightarrow> mem \<times> 'd \<Rightarrow> int \<times> mem \<times> 'd"
  nblocks :: "ata_device \<Rightarrow> u64"

record store =
  stype :: "nat option"
  sdev :: ata_device
  bc_first :: u64

text \<open>The member \<open>id\<close> of a cache entry is never read or written.\<close>

record bc_entry =
  bc_next :: u64
  bc_addr :: u64
  bc_data :: u64

definition sizeof_bc_entry :: u64 where "sizeof_bc_entry = 32"

text \<open>
  The kernel with its stores: \<open>None\<close> in \<open>store_types\<close> is an entry of zeros, \<open>bcs\<close> are the cache entries by
  address, \<open>devices\<close> is what is behind the bus.
\<close>

record 'd skernel = kernel +
  devices :: 'd
  store_types :: "'d store_type option list"
  stores :: "store list"
  bcs :: "u64 \<Rightarrow> bc_entry"
  bc_cached_count :: int

definition ata_store_type :: "'d bus \<Rightarrow> 'd store_type" where
  "ata_store_type B = \<lparr>tname = map of_char ''atapio'' @ [0, 0], seg_sz = 512, type_init = st_init B, rd = st_rd B, wr = st_wr B, nblocks = st_nb\<rparr>"

text \<open>The name of a type is in memory, at the start of its entry of 48 bytes; \<open>tb\<close> is the address of \<open>store_types\<close>.\<close>

definition type_name :: "u64 \<Rightarrow> nat \<Rightarrow> u64" where
  "type_name tb i = tb + 48 * of_nat i"

definition find_storetype :: "u64 \<Rightarrow> u64 \<Rightarrow> 'd skernel \<Rightarrow> int" where
  "find_storetype tb name s = scan_from (\<lambda>i. strncmp name (type_name tb i) 8 (kmem s) = 0) 0 [0..<MAX_STORETYPES]"

fun store_bytes :: "u64 \<Rightarrow> u8 list \<Rightarrow> mem \<Rightarrow> mem" where
  "store_bytes p [] m = m"
| "store_bytes p (x # xs) m = store_bytes (p + 1) xs (m(p := x))"

definition register_storetype :: "u64 \<Rightarrow> 'd store_type \<Rightarrow> 'd skernel \<Rightarrow> int \<times> 'd skernel" where
  "register_storetype tb type s =
    (let i = scan_from (\<lambda>i. kmem s (type_name tb i) = 0) 0 [0..<MAX_STORETYPES]
     in if i < 0 then (-1, s)
        else (i, s\<lparr>store_types := (store_types s)[nat i := Some type],
                   kmem := store_bytes (type_name tb (nat i)) (tname type) (kmem s)\<rparr>))"

definition get_store_by_id :: "int \<Rightarrow> nat option" where
  "get_store_by_id i = (if i < 0 \<or> int MAX_STORES \<le> i then None else Some (nat i))"

definition upd_store :: "nat \<Rightarrow> (store \<Rightarrow> store) \<Rightarrow> 'd skernel \<Rightarrow> 'd skernel" where
  "upd_store i f s = s\<lparr>stores := (stores s)[i := f (stores s ! i)]\<rparr>"

definition type_of :: "store \<Rightarrow> 'd skernel \<Rightarrow> 'd store_type option" where
  "type_of st s = do { t \<leftarrow> deref (store_types s) (stype st); t }"

partial_function (option) bc_search :: "(u64 \<Rightarrow> bc_entry) \<Rightarrow> u64 \<Rightarrow> u64 \<Rightarrow> u64 option" where
  "bc_search b addr p = (if p = 0 then Some 0 else if bc_addr (b p) = addr then Some p else bc_search b addr (bc_next (b p)))"

text \<open>The loop that makes room: the first entry of the first store whose entry can be written back is dropped.\<close>

fun evict :: "nat list \<Rightarrow> 'd skernel \<Rightarrow> 'd skernel option" where
  "evict [] s = Some s"
| "evict (i # is) s = do {
    victim \<leftarrow> nth_opt (stores s) i;
    (if bc_first victim = 0 then evict is s
     else do {
       ty \<leftarrow> type_of victim s;
       let blk = bcs s (bc_first victim);
       let (ret, m, d) = wr ty (sdev victim) (bc_addr blk) (bc_data blk) (kmem s, devices s);
       let s1 = s\<lparr>kmem := m, devices := d\<rparr>;
       (if ret = 0 then evict is s1
        else do { h \<leftarrow> kfree (bc_data blk) (kheap s1);
                  Some (upd_store i (\<lambda>st. st\<lparr>bc_first := bc_next blk\<rparr>) (s1\<lparr>kheap := h\<rparr>)) }) }) }"

text \<open>The results are the value returned and what is stored to \<^verbatim>\<open>*buf\<close>, if anything.\<close>

definition bc_get :: "int \<Rightarrow> u64 \<Rightarrow> 'd skernel \<Rightarrow> (int \<times> u64 option \<times> 'd skernel) option" where
  "bc_get sid addr s =
    (case get_store_by_id sid of
       None \<Rightarrow> Some (0, None, s)
     | Some i \<Rightarrow> do {
         st \<leftarrow> nth_opt (stores s) i;
         bc \<leftarrow> bc_search (bcs s) addr (bc_first st);
         (if bc \<noteq> 0 then Some (1, Some (bc_data (bcs s bc)), s)
          else if bc_cached_count s = MAX_CACHED_BLOCKS
          then do { s1 \<leftarrow> evict [0..<MAX_STORES] s; Some (0, None, s1) }
          else do {
            (blk, h1) \<leftarrow> kalloc sizeof_bc_entry (kheap s);
            (if blk = 0 then Some (0, None, s\<lparr>kheap := h1\<rparr>)
             else do {
               ty \<leftarrow> type_of st s;
               (data, h2) \<leftarrow> kalloc (seg_sz ty) h1;
               let b1 = (bcs s)(blk := (bcs s blk)\<lparr>bc_data := data, bc_addr := addr\<rparr>);
               (if data = 0 then do { h3 \<leftarrow> kfree blk h2; Some (0, None, s\<lparr>kheap := h3, bcs := b1\<rparr>) }
                else do {
                  let b2 = b1(blk := (b1 blk)\<lparr>bc_next := bc_first st\<rparr>);
                  let s1 = upd_store i (\<lambda>st. st\<lparr>bc_first := blk\<rparr>)
                             (s\<lparr>kheap := h2, bcs := b2, bc_cached_count := bc_cached_count s + 1\<rparr>);
                  let (ret, m, d) = rd ty (sdev st) addr data (kmem s1, devices s1);
                  Some (ret, Some data, s1\<lparr>kmem := m, devices := d\<rparr>) }) }) }) })"

definition bc_put :: "int \<Rightarrow> u64 \<Rightarrow> 'd skernel \<Rightarrow> (int \<times> 'd skernel) option" where
  "bc_put sid addr s =
    (case get_store_by_id sid of
       None \<Rightarrow> Some (-1, s)
     | Some i \<Rightarrow> do {
         st \<leftarrow> nth_opt (stores s) i;
         bc \<leftarrow> bc_search (bcs s) addr (bc_first st);
         (if bc \<noteq> 0
          then do {
            ty \<leftarrow> type_of st s;
            let (ret, m, d) = wr ty (sdev st) addr (bc_data (bcs s bc)) (kmem s, devices s);
            Some (ret, s\<lparr>kmem := m, devices := d\<rparr>) }
          else Some (1, s)) })"

definition register_store :: "u64 \<Rightarrow> u64 \<Rightarrow> u64 \<Rightarrow> 'd skernel \<Rightarrow> (int \<times> 'd skernel) option" where
  "register_store tb storetype cfg s =
    (let sid = scan_from (\<lambda>st. stype st = None) 0 (stores s)
     in if sid < 0 then Some (-1, s)
        else
          (let stid = find_storetype tb storetype s
           in if stid < 0 then Some (-1, s)
              else do {
                let s1 = upd_store (nat sid) (\<lambda>st. st\<lparr>stype := Some (nat stid), bc_first := 0\<rparr>) s;
                t \<leftarrow> nth_opt (store_types s1) (nat stid);
                ty \<leftarrow> t;
                let (ret, dev, m, d) = type_init ty cfg (kmem s1, devices s1);
                let s2 = upd_store (nat sid) (\<lambda>st. st\<lparr>sdev := dev\<rparr>) (s1\<lparr>kmem := m, devices := d\<rparr>);
                (if ret = 0 then Some (-1, s2) else Some (sid, s2)) }))"

text \<open>Sequences of cache calls.\<close>

datatype bc_call = Get int u64 | Put int u64

fun bc_run :: "bc_call list \<Rightarrow> 'd skernel \<Rightarrow> 'd skernel option" where
  "bc_run [] s = Some s"
| "bc_run (Get sid addr # ops) s = do { (r, b, s1) \<leftarrow> bc_get sid addr s; bc_run ops s1 }"
| "bc_run (Put sid addr # ops) s = do { (r, s1) \<leftarrow> bc_put sid addr s; bc_run ops s1 }"

section \<open>Chains of cached blocks\<close>

text \<open>\<open>chain b p ps\<close>: from \<open>p\<close> the entries at the addresses \<open>ps\<close> are linked, up to NULL.\<close>

primrec chain :: "(u64 \<Rightarrow> bc_entry) \<Rightarrow> u64 \<Rightarrow> u64 list \<Rightarrow> bool" where
  "chain b p [] \<longleftrightarrow> p = 0"
| "chain b p (x # xs) \<longleftrightarrow> p = x \<and> x \<noteq> 0 \<and> chain b (bc_next (b x)) xs"

lemma chain_nonzero: "chain b p ps \<Longrightarrow> x \<in> set ps \<Longrightarrow> x \<noteq> 0"
  by (induction ps arbitrary: p) auto

lemma bc_search_chain:
  "chain b p ps \<Longrightarrow> bc_search b addr p = Some (case find (\<lambda>x. bc_addr (b x) = addr) ps of None \<Rightarrow> 0 | Some x \<Rightarrow> x)"
  by (induction ps arbitrary: p) (auto simp: bc_search.simps)

lemma upd_store_simps [simp]:
  "kmem (upd_store i f s) = kmem s" "devices (upd_store i f s) = devices s" "bcs (upd_store i f s) = bcs s" "kheap (upd_store i f s) = kheap s"
  "store_types (upd_store i f s) = store_types s" "bc_cached_count (upd_store i f s) = bc_cached_count s"
  "stores (upd_store i f s) = (stores s)[i := f (stores s ! i)]"
  by (simp_all add: upd_store_def)

definition chains :: "'d skernel \<Rightarrow> (nat \<Rightarrow> u64 list) \<Rightarrow> bool" where
  "chains s es \<longleftrightarrow> length (stores s) = MAX_STORES \<and> (\<forall>i < MAX_STORES. chain (bcs s) (bc_first (stores s ! i)) (es i))"

text \<open>Making room drops at most the first block of one store.\<close>

lemma evict_chains:
  "evict is s = Some s1 \<Longrightarrow> chains s es \<Longrightarrow> bcs s1 = bcs s \<and> bc_cached_count s1 = bc_cached_count s \<and>
    (\<exists>es'. chains s1 es' \<and> (\<forall>i. suffix (es' i) (es i)))"
proof (induction "is" arbitrary: s)
  case Nil
  then show ?case by auto
next
  case (Cons i "is")
  obtain victim where v: "i < length (stores s)" "victim = stores s ! i" using Cons.prems(1) by (auto simp: bind_eq_Some_conv nth_opt_Some)
  have c: "chain (bcs s) (bc_first victim) (es i)" using Cons.prems(2) v by (simp add: chains_def)
  show ?case
  proof (cases "bc_first victim = 0")
    case True
    then show ?thesis using Cons v by (auto simp: nth_opt_def)
  next
    case False
    then obtain x xs where x: "es i = x # xs" "bc_first victim = x" "chain (bcs s) (bc_next (bcs s x)) xs" using c by (cases "es i") auto
    obtain ty where ty: "type_of victim s = Some ty" using Cons.prems(1) False v by (auto simp: nth_opt_def bind_eq_Some_conv)
    obtain ret m d where w: "wr ty (sdev victim) (bc_addr (bcs s x)) (bc_data (bcs s x)) (kmem s, devices s) = (ret, m, d)" by (metis prod_cases3)
    let ?s1 = "s\<lparr>kmem := m, devices := d\<rparr>"
    show ?thesis
    proof (cases "ret = 0")
      case True
      then have "evict is ?s1 = Some s1" using Cons.prems(1) False v ty w x(2) by (simp add: nth_opt_def Let_def)
      moreover have "chains ?s1 es" using Cons.prems(2) by (simp add: chains_def)
      ultimately show ?thesis using Cons.IH [of ?s1] by simp
    next
      case False
      then obtain h where "s1 = upd_store i (\<lambda>st. st\<lparr>bc_first := bc_next (bcs s x)\<rparr>) (?s1\<lparr>kheap := h\<rparr>)"
        using Cons.prems(1) \<open>bc_first victim \<noteq> 0\<close> v ty w x(2) by (auto simp: nth_opt_def Let_def bind_eq_Some_conv)
      moreover from this have "chains s1 (es(i := xs))" using Cons.prems(2) x(3) by (auto simp: chains_def nth_list_update)
      moreover have "\<forall>j. suffix ((es(i := xs)) j) (es j)" by (auto simp: x(1) suffix_ConsI)
      ultimately show ?thesis by auto
    qed
  qed
qed

lemma bc_get_full:
  assumes "bc_cached_count s = MAX_CACHED_BLOCKS" and "chains s es" and "bc_get sid addr s = Some (r, b, s1)"
  shows "bcs s1 = bcs s \<and> bc_cached_count s1 = MAX_CACHED_BLOCKS \<and> (\<exists>es'. chains s1 es' \<and> (\<forall>i. suffix (es' i) (es i)))"
    and "get_store_by_id sid = Some i \<Longrightarrow> addr \<notin> (\<lambda>x. bc_addr (bcs s x)) ` set (es i) \<Longrightarrow> r = 0 \<and> b = None"
proof -
  show "bcs s1 = bcs s \<and> bc_cached_count s1 = MAX_CACHED_BLOCKS \<and> (\<exists>es'. chains s1 es' \<and> (\<forall>i. suffix (es' i) (es i)))"
  proof (cases "s1 = s")
    case True
    then show ?thesis using assms(1,2) by auto
  next
    case False
    then have "evict [0..<MAX_STORES] s = Some s1"
      using assms(1,3) by (auto simp: bc_get_def bind_eq_Some_conv split: option.splits if_splits)
    from evict_chains [OF this assms(2)] assms(1) show ?thesis by simp
  qed
next
  assume i: "get_store_by_id sid = Some i" and a: "addr \<notin> (\<lambda>x. bc_addr (bcs s x)) ` set (es i)"
  then have "i < MAX_STORES" by (auto simp: get_store_by_id_def split: if_splits)
  then have c: "chain (bcs s) (bc_first (stores s ! i)) (es i)" "i < length (stores s)" using assms(2) by (auto simp: chains_def)
  have "find (\<lambda>x. bc_addr (bcs s x) = addr) (es i) = None" using a by (auto simp: find_None_iff)
  then have "bc_search (bcs s) addr (bc_first (stores s ! i)) = Some 0" using bc_search_chain [OF c(1)] by simp
  then show "r = 0 \<and> b = None" using assms(1,3) i c(2) by (auto simp: bc_get_def nth_opt_def bind_eq_Some_conv)
qed

lemma bc_put_frame:
  "bc_put sid addr s = Some (r, s1) \<Longrightarrow> bcs s1 = bcs s \<and> bc_cached_count s1 = bc_cached_count s \<and> stores s1 = stores s \<and>
    kheap s1 = kheap s \<and> store_types s1 = store_types s"
  by (auto simp: bc_put_def bind_eq_Some_conv Let_def case_prod_beta split: option.splits if_splits)

lemma bc_run_full:
  "bc_run ops s = Some s' \<Longrightarrow> bc_cached_count s = MAX_CACHED_BLOCKS \<Longrightarrow> chains s es \<Longrightarrow>
    bcs s' = bcs s \<and> bc_cached_count s' = MAX_CACHED_BLOCKS \<and> (\<exists>es'. chains s' es' \<and> (\<forall>i. suffix (es' i) (es i)))"
proof (induction ops s arbitrary: es rule: bc_run.induct)
  case (1 s)
  then show ?case by auto
next
  case (2 sid addr ops s)
  then obtain r b s1 where g: "bc_get sid addr s = Some (r, b, s1)" "bc_run ops s1 = Some s'" by (auto simp: bind_eq_Some_conv)
  from bc_get_full(1) [OF 2(3,4) g(1)] obtain es1 where e: "bcs s1 = bcs s" "bc_cached_count s1 = MAX_CACHED_BLOCKS"
      "chains s1 es1" "\<forall>i. suffix (es1 i) (es i)" by blast
  from 2(1) [OF g(1) refl refl g(2) e(2,3)] e(1,4) show ?case by (metis suffix_order.trans)
next
  case (3 sid addr ops s)
  then obtain r s1 where g: "bc_put sid addr s = Some (r, s1)" "bc_run ops s1 = Some s'" by (auto simp: bind_eq_Some_conv)
  have "chains s1 es" "bc_cached_count s1 = MAX_CACHED_BLOCKS" "bcs s1 = bcs s" using bc_put_frame [OF g(1)] 3(3,4) by (auto simp: chains_def)
  from 3(1) [OF g(1) refl g(2) this(2,1)] this(3) show ?case by simp
qed

section \<open>Loading and writing back\<close>

text \<open>A block that \<open>bc_get\<close> has given a buffer for, read successfully or not, is found again.\<close>

lemma bc_get_again:
  assumes "bc_get sid addr s = Some (r, Some p, s1)"
  shows "bc_get sid addr s1 = Some (1, Some p, s1)"
proof -
  obtain i st bc where a: "get_store_by_id sid = Some i" "i < length (stores s)" "st = stores s ! i" "bc_search (bcs s) addr (bc_first st) = Some bc"
    using assms by (auto simp: bc_get_def bind_eq_Some_conv nth_opt_Some split: option.splits)
  show ?thesis
  proof (cases "bc = 0")
    case False
    then have "s1 = s" "r = 1" using assms a by (auto simp: bc_get_def nth_opt_def)
    then show ?thesis using assms by simp
  next
    case True
    then have "let blk = bc_first (stores s1 ! i) in i < length (stores s1) \<and> blk \<noteq> 0 \<and> bc_addr (bcs s1 blk) = addr \<and> bc_data (bcs s1 blk) = p"
      using assms a by (auto simp: bc_get_def nth_opt_def bind_eq_Some_conv Let_def case_prod_beta split: if_splits)
    then show ?thesis using a(1) by (simp add: bc_get_def nth_opt_def bc_search.simps Let_def)
  qed
qed

lemma bc_get_miss:
  assumes "bc_get sid addr s = Some (r, Some p, s1)" and "get_store_by_id sid = Some i" and "bc_search (bcs s) addr (bc_first (stores s ! i)) = Some 0"
  shows "\<exists>ty m d. type_of (stores s ! i) s = Some ty \<and> rd ty (sdev (stores s ! i)) addr p (kmem s, devices s) = (r, m, d) \<and> kmem s1 = m \<and> devices s1 = d \<and>
    bc_cached_count s1 = bc_cached_count s + 1"
  using assms by (auto simp: bc_get_def nth_opt_Some bind_eq_Some_conv Let_def case_prod_beta split: if_splits)

text \<open>
  The interface of a store type, as the cache relies on it: \<open>view\<close> is what is on the device, by place, and
  \<open>place\<close> where a block address ends up.
\<close>

locale block_store =
  fixes ty :: "'d store_type" and dv :: ata_device and place :: "u64 \<Rightarrow> 'p" and view :: "'d \<Rightarrow> 'p \<Rightarrow> u16 list"
  assumes rd_block: "rd ty dv a p (m, d) = (r, m', d') \<Longrightarrow>
      r = 1 \<and> words_at p 256 m' = view d (place a) \<and> (\<forall>x. 512 \<le> unat (x - p) \<longrightarrow> m' x = m x) \<and> view d' = view d"
    and wr_block: "wr ty dv a p (m, d) = (r, m', d') \<Longrightarrow> r = 1 \<and> m' = m \<and> view d' = (view d)(place a := words_at p 256 m)"
begin

lemma get_loads:
  assumes "get_store_by_id sid = Some i" and "type_of (stores s ! i) s = Some ty" and "sdev (stores s ! i) = dv"
    and "bc_search (bcs s) addr (bc_first (stores s ! i)) = Some 0" and "bc_get sid addr s = Some (r, Some p, s1)"
  shows "r = 1 \<and> words_at p 256 (kmem s1) = view (devices s) (place addr) \<and>
    (\<forall>a. 512 \<le> unat (a - p) \<longrightarrow> kmem s1 a = kmem s a) \<and> view (devices s1) = view (devices s)"
  using bc_get_miss [OF assms(5,1,4)] assms(2,3) rd_block by auto

lemma put_saves:
  assumes "get_store_by_id sid = Some i" and "i < length (stores s)" and "chain (bcs s) (bc_first (stores s ! i)) ps"
    and "type_of (stores s ! i) s = Some ty" and "sdev (stores s ! i) = dv"
  shows "\<exists>s1. bc_put sid addr s = Some (1, s1) \<and> kmem s1 = kmem s \<and>
    (case find (\<lambda>x. bc_addr (bcs s x) = addr) ps of
       None \<Rightarrow> s1 = s
     | Some x \<Rightarrow> view (devices s1) = (view (devices s))(place addr := words_at (bc_data (bcs s x)) 256 (kmem s)))"
proof (cases "find (\<lambda>x. bc_addr (bcs s x) = addr) ps")
  case None
  then show ?thesis using assms(1,2) bc_search_chain [OF assms(3), of addr] by (simp add: bc_put_def nth_opt_def)
next
  case (Some x)
  then have "x \<noteq> 0" using chain_nonzero [OF assms(3)] by (metis find_Some_iff nth_mem)
  obtain r m d where w: "wr ty dv addr (bc_data (bcs s x)) (kmem s, devices s) = (r, m, d)" by (metis prod_cases3)
  have "bc_put sid addr s = Some (r, s\<lparr>kmem := m, devices := d\<rparr>)"
    using assms Some \<open>x \<noteq> 0\<close> w bc_search_chain [OF assms(3), of addr] by (simp add: bc_put_def nth_opt_def Let_def)
  then show ?thesis using Some wr_block [OF w] by simp
qed

end

text \<open>A disk behind \<^verbatim>\<open>ata.c\<close> is such a store.\<close>

lemma ata_block_store:
  assumes "ata_disk B dv v"
  shows "block_store (ata_store_type B) dv (sector_place dv) (\<lambda>d. sectors (v d))"
proof
  fix a p m d r m' d'
  assume "rd (ata_store_type B) dv a p (m, d) = (r, m', d')"
  moreover obtain m1 d1 where "ata_read_sector B dv a p (m, d) = (ATA_OK, m1, d1)" "sectors (v d1) = sectors (v d)"
      "words_at p 256 m1 = sectors (v d) (sector_place dv a)" "\<forall>x. 512 \<le> unat (x - p) \<longrightarrow> m1 x = m x"
    by (rule ata_read_sector_ok [OF assms])
  ultimately show "r = 1 \<and> words_at p 256 m' = sectors (v d) (sector_place dv a) \<and> (\<forall>x. 512 \<le> unat (x - p) \<longrightarrow> m' x = m x) \<and>
      sectors (v d') = sectors (v d)"
    by (auto simp: ata_store_type_def st_rd_def)
next
  fix a p m d r m' d'
  assume "wr (ata_store_type B) dv a p (m, d) = (r, m', d')"
  moreover obtain d1 where "ata_write_sector B dv a p (m, d) = (ATA_OK, m, d1)"
      "sectors (v d1) = (sectors (v d))(sector_place dv a := words_at p 256 m)"
    by (rule ata_write_sector_ok [OF assms])
  ultimately show "r = 1 \<and> m' = m \<and> sectors (v d') = (sectors (v d))(sector_place dv a := words_at p 256 m)"
    by (auto simp: ata_store_type_def st_wr_def)
qed

interpretation dd: block_store "ata_store_type demo_disk_bus" demo_ata "sector_place demo_ata" "\<lambda>d. sectors (demo_view d)"
  by (rule ata_block_store [OF demo_is_disk])

section \<open>The cache invariant\<close>

text \<open>The addresses of the blocks that are cached for store \<open>i\<close>.\<close>

definition cached :: "'d skernel \<Rightarrow> (nat \<Rightarrow> u64 list) \<Rightarrow> nat \<Rightarrow> u64 set" where
  "cached s es i = (\<lambda>e. bc_addr (bcs s e)) ` set (es i)"

text \<open>
  While the cache is not full, the heap is well formed, the entries are blocks of it, and the sizes that are
  asked for fit into it; \<open>A\<close> are the allocated blocks.
\<close>

definition room_inv :: "'d skernel \<Rightarrow> (nat \<Rightarrow> u64 list) \<Rightarrow> bool" where
  "room_inv s es \<longleftrightarrow> (\<exists>fl A. heap_ok (kheap s) fl A \<and> (\<forall>i < MAX_STORES. \<forall>e \<in> set (es i). \<exists>k. (e - 24, k) \<in> A)) \<and>
    sizeof_bc_entry \<le> bsize (kheap s) \<and> (\<forall>ty. Some ty \<in> set (store_types s) \<longrightarrow> seg_sz ty \<noteq> 0 \<and> seg_sz ty \<le> bsize (kheap s))"

definition cache_inv :: "'d skernel \<Rightarrow> (nat \<Rightarrow> u64 list) \<Rightarrow> bool" where
  "cache_inv s es \<longleftrightarrow> chains s es \<and> int (\<Sum>i < MAX_STORES. length (es i)) \<le> bc_cached_count s \<and>
    bc_cached_count s \<le> MAX_CACHED_BLOCKS \<and> (bc_cached_count s < MAX_CACHED_BLOCKS \<longrightarrow> room_inv s es)"

lemma kalloc_fresh:
  assumes ok: "heap_ok a fl A" and n: "n \<noteq> 0" "n \<le> bsize a" and k: "kalloc n a = Some (p, a')"
  obtains k fl' where "p \<noteq> 0" and "same_params a a'" and "heap_ok a' fl' (insert (p - 24, k) A)" and "\<And>j. (p - 24, j) \<notin> A"
proof -
  obtain x k fl' where x: "p = x + 24" "same_params a a'" "heap_ok a' fl' (insert (x, k) A)" "(x, k) \<notin> A"
    using kalloc_cases [OF ok n] k by auto
  have t: "tiling a' (free_blocks a' fl' \<union> insert (x, k) A)" and par: "params_ok a'" using x(3) by (auto simp: heap_ok_def)
  have "(x, j) \<notin> A" for j using tiling_addr_unique [OF t, of x k j] x(4) by auto
  moreover have "p \<noteq> 0"
  proof
    assume "p = 0"
    then have "x = -24" using x(1) by (simp add: eq_neg_iff_add_eq_0)
    then have ux: "unat x = 2 ^ 64 - 24" by simp
    have "2 ^ k dvd unat x" "5 \<le> k" using t par by (auto simp: tiling_def params_ok_def)
    then have "2 ^ 5 dvd unat x" using le_imp_power_dvd dvd_trans by blast
    then show False unfolding ux by simp
  qed
  ultimately show thesis using that x(1-3) by auto
qed

lemma chain_cong: "chain b p ps \<Longrightarrow> \<forall>x \<in> set ps. bc_next (b' x) = bc_next (b x) \<Longrightarrow> chain b' p ps"
  by (induction ps arbitrary: p) auto

lemma chains_insert:
  assumes c: "chains s es" and i: "i < MAX_STORES" and blk: "blk \<noteq> 0" "\<And>j. j < MAX_STORES \<Longrightarrow> blk \<notin> set (es j)"
    and st: "stores s' = (stores s)[i := (stores s ! i)\<lparr>bc_first := blk\<rparr>]"
    and b: "bcs s' = (bcs s)(blk := e)" "bc_next e = bc_first (stores s ! i)"
  shows "chains s' (es(i := blk # es i))"
proof -
  have "chain (bcs s') (bc_first (stores s ! j)) (es j)" if "j < MAX_STORES" for j
  proof -
    have "\<forall>x \<in> set (es j). bc_next (bcs s' x) = bc_next (bcs s x)" using blk(2) [OF that] by (auto simp: b(1))
    moreover have "chain (bcs s) (bc_first (stores s ! j)) (es j)" using c that by (simp add: chains_def)
    ultimately show ?thesis using chain_cong by blast
  qed
  note old = this
  have "chain (bcs s') (bc_first (stores s' ! j)) ((es(i := blk # es i)) j)" if "j < MAX_STORES" for j
  proof (cases "j = i")
    case True
    have "chain (bcs s') (bc_next (bcs s' blk)) (es i)" using old [OF i] by (simp add: b)
    then show ?thesis using True c i blk(1) by (simp add: st chains_def)
  next
    case False
    then show ?thesis using old [OF that] by (simp add: st)
  qed
  then show ?thesis using c by (simp add: chains_def st)
qed

text \<open>What \<open>bc_get\<close> does when it makes a new entry.\<close>

lemma type_of_mem: "type_of st s = Some ty \<Longrightarrow> Some ty \<in> set (store_types s)"
  by (auto simp: type_of_def deref_Some bind_eq_Some_conv)

lemma bc_get_new:
  assumes "bc_get sid addr s = Some (r, Some p, s1)" and "get_store_by_id sid = Some i" and "bc_search (bcs s) addr (bc_first (stores s ! i)) = Some 0"
  shows "\<exists>ty blk h1 h2. i < length (stores s) \<and> type_of (stores s ! i) s = Some ty \<and> kalloc sizeof_bc_entry (kheap s) = Some (blk, h1) \<and>
    kalloc (seg_sz ty) h1 = Some (p, h2) \<and> blk \<noteq> 0 \<and> kheap s1 = h2 \<and>
    bcs s1 = (bcs s)(blk := (bcs s blk)\<lparr>bc_data := p, bc_addr := addr, bc_next := bc_first (stores s ! i)\<rparr>) \<and>
    stores s1 = (stores s)[i := (stores s ! i)\<lparr>bc_first := blk\<rparr>] \<and>
    store_types s1 = store_types s \<and> bc_cached_count s \<noteq> MAX_CACHED_BLOCKS \<and> bc_cached_count s1 = bc_cached_count s + 1"
  using assms by (auto simp: bc_get_def nth_opt_Some bind_eq_Some_conv Let_def case_prod_beta split: if_splits)

lemma room_inv_alloc:
  assumes room: "room_inv s es" and ty: "type_of st s = Some ty" and k: "kalloc sizeof_bc_entry (kheap s) = Some (blk, h1)" "kalloc (seg_sz ty) h1 = Some (p, h2)"
  shows "blk \<noteq> 0 \<and> p \<noteq> 0 \<and> (\<forall>j < MAX_STORES. blk \<notin> set (es j)) \<and> same_params (kheap s) h2 \<and>
    (\<exists>fl A. heap_ok h2 fl A \<and> (\<forall>i < MAX_STORES. \<forall>e \<in> insert blk (set (es i)). \<exists>k. (e - 24, k) \<in> A))"
proof -
  obtain fl A where h: "heap_ok (kheap s) fl A" "\<forall>i < MAX_STORES. \<forall>e \<in> set (es i). \<exists>k. (e - 24, k) \<in> A"
      and sz: "sizeof_bc_entry \<le> bsize (kheap s)" "seg_sz ty \<noteq> 0" "seg_sz ty \<le> bsize (kheap s)"
    using room type_of_mem [OF ty] unfolding room_inv_def by blast
  obtain k1 fl1 where h1: "blk \<noteq> 0" "same_params (kheap s) h1" "heap_ok h1 fl1 (insert (blk - 24, k1) A)" "\<And>j. (blk - 24, j) \<notin> A"
    by (rule kalloc_fresh [OF h(1) _ sz(1) k(1)]) (simp_all add: sizeof_bc_entry_def)
  have "seg_sz ty \<le> bsize h1" using sz(3) h1(2) by (simp add: same_params_def)
  then obtain k2 fl2 where h2: "p \<noteq> 0" "same_params h1 h2" "heap_ok h2 fl2 (insert (p - 24, k2) (insert (blk - 24, k1) A))"
    using kalloc_fresh [OF h1(3) sz(2) _ k(2)] by metis
  have "blk \<notin> set (es j)" if "j < MAX_STORES" for j using h(2) h1(4) that by auto
  moreover have "\<forall>i < MAX_STORES. \<forall>e \<in> insert blk (set (es i)). \<exists>k. (e - 24, k) \<in> insert (p - 24, k2) (insert (blk - 24, k1) A)"
    using h(2) by blast
  ultimately show ?thesis using h1(1) h2 same_params_trans [OF h1(2) h2(2)] by blast
qed

lemma sum_length_update:
  "i < n \<Longrightarrow> (\<Sum>j < n. length ((es(i := blk # es i)) j)) = Suc (\<Sum>j < n. length (es j))"
  for es :: "nat \<Rightarrow> 'a list"
  by (simp add: sum.remove [of "{..<n}" i])

text \<open>A buffer is delivered for a block that is cached then; no cached block is lost by that.\<close>

lemma bc_get_delivers:
  assumes inv: "cache_inv s es" and g: "bc_get sid addr s = Some (r, Some p, s1)" and i: "get_store_by_id sid = Some i"
  shows "\<exists>es'. cache_inv s1 es' \<and> cached s es i \<subseteq> cached s1 es' i \<and> addr \<in> cached s1 es' i"
proof -
  have iM: "i < MAX_STORES" using i by (auto simp: get_store_by_id_def split: if_splits)
  have c: "chains s es" "chain (bcs s) (bc_first (stores s ! i)) (es i)" "i < length (stores s)"
    using inv iM by (auto simp: cache_inv_def chains_def)
  note search = bc_search_chain [OF c(2), of addr]
  show ?thesis
  proof (cases "find (\<lambda>x. bc_addr (bcs s x) = addr) (es i)")
    case (Some x)
    then have x: "x \<in> set (es i)" "bc_addr (bcs s x) = addr" by (auto simp: find_Some_iff)
    then have "s1 = s" using g i c(3) search Some chain_nonzero [OF c(2) x(1)] by (auto simp: bc_get_def nth_opt_def)
    then show ?thesis using inv x by (auto simp: cached_def)
  next
    case None
    then have "bc_search (bcs s) addr (bc_first (stores s ! i)) = Some 0" using search by simp
    from bc_get_new [OF g i this] obtain ty blk h1 h2 where n: "type_of (stores s ! i) s = Some ty"
        "kalloc sizeof_bc_entry (kheap s) = Some (blk, h1)" "kalloc (seg_sz ty) h1 = Some (p, h2)" "kheap s1 = h2"
        "bcs s1 = (bcs s)(blk := (bcs s blk)\<lparr>bc_data := p, bc_addr := addr, bc_next := bc_first (stores s ! i)\<rparr>)"
        "stores s1 = (stores s)[i := (stores s ! i)\<lparr>bc_first := blk\<rparr>]" "store_types s1 = store_types s"
        "bc_cached_count s \<noteq> MAX_CACHED_BLOCKS" "bc_cached_count s1 = bc_cached_count s + 1" by blast
    have room: "room_inv s es" using inv n(8) by (simp add: cache_inv_def)
    note al = room_inv_alloc [OF room n(1-3)]
    let ?es = "es(i := blk # es i)"
    have fresh: "blk \<notin> set (es j)" if "j < MAX_STORES" for j using al that by blast
    have "chains s1 ?es" using al by (intro chains_insert [OF c(1) iM _ fresh n(6,5)]) auto
    moreover have "room_inv s1 ?es"
    proof -
      obtain fl A where "heap_ok h2 fl A" "\<forall>j < MAX_STORES. \<forall>e \<in> insert blk (set (es j)). \<exists>k. (e - 24, k) \<in> A" using al by blast
      then have "\<exists>fl A. heap_ok h2 fl A \<and> (\<forall>j < MAX_STORES. \<forall>e \<in> set (?es j). \<exists>k. (e - 24, k) \<in> A)"
        by (intro exI [of _ fl] exI [of _ A]) auto
      moreover have "bsize h2 = bsize (kheap s)" using al by (simp add: same_params_def)
      ultimately show ?thesis using room by (simp add: room_inv_def n del: fun_upd_apply)
    qed
    ultimately have "cache_inv s1 ?es" using inv n(8,9) iM by (simp add: cache_inv_def sum_length_update del: fun_upd_apply)
    moreover have "cached s1 ?es i = insert addr (cached s es i)"
    proof -
      have "(\<lambda>e. bc_addr (bcs s1 e)) ` set (es i) = (\<lambda>e. bc_addr (bcs s e)) ` set (es i)"
        using fresh [OF iM] by (intro image_cong) (auto simp: n(5))
      then show ?thesis by (simp add: cached_def n(5))
    qed
    ultimately show ?thesis by blast
  qed
qed

text \<open>While there is room, a call that returns delivers a buffer.\<close>

lemma bc_get_gives:
  assumes inv: "cache_inv s es" and i: "get_store_by_id sid = Some i" and nf: "bc_cached_count s \<noteq> MAX_CACHED_BLOCKS" and g: "bc_get sid addr s = Some (r, b, s1)"
  shows "b \<noteq> None"
proof
  assume "b = None"
  have room: "room_inv s es" using inv nf by (simp add: cache_inv_def)
  have no_entry: False if k: "kalloc sizeof_bc_entry (kheap s) = Some (0, h1)" for h1
  proof -
    obtain fl A where "heap_ok (kheap s) fl A" "sizeof_bc_entry \<le> bsize (kheap s)" using room by (auto simp: room_inv_def)
    from kalloc_fresh [OF this(1) _ this(2) k] show False by (auto simp: sizeof_bc_entry_def)
  qed
  have no_data: False if "type_of st s = Some ty" "kalloc sizeof_bc_entry (kheap s) = Some (blk, h1)" "kalloc (seg_sz ty) h1 = Some (0, h2)" for st ty blk h1 h2
    using room_inv_alloc [OF room that] by blast
  show False
    using g \<open>b = None\<close> i nf by (auto simp: bc_get_def bind_eq_Some_conv Let_def case_prod_beta split: if_splits dest: no_entry no_data)
qed

lemma bc_get_fails:
  assumes "cache_inv s es" and "bc_get sid addr s = Some (r, None, s1)" and "bc_cached_count s \<noteq> MAX_CACHED_BLOCKS"
  shows "s1 = s"
  using assms bc_get_gives [OF assms(1) _ assms(3,2)] by (cases "get_store_by_id sid") (auto simp: bc_get_def)

lemma suffix_sum: "(\<forall>i. suffix (es' i) (es i)) \<Longrightarrow> (\<Sum>i < n. length (es' i)) \<le> (\<Sum>i < (n :: nat). length (es i))"
  by (intro sum_mono suffix_length_le) simp

lemma bc_get_inv:
  assumes inv: "cache_inv s es" and g: "bc_get sid addr s = Some (r, b, s1)"
  shows "\<exists>es'. cache_inv s1 es'"
proof (cases "bc_cached_count s = MAX_CACHED_BLOCKS")
  case True
  have "chains s es" using inv by (simp add: cache_inv_def)
  from bc_get_full(1) [OF True this g] obtain es' where e: "bc_cached_count s1 = MAX_CACHED_BLOCKS" "chains s1 es'" "\<forall>i. suffix (es' i) (es i)" by blast
  have "int (\<Sum>i < MAX_STORES. length (es' i)) \<le> MAX_CACHED_BLOCKS"
    using inv True suffix_sum [OF e(3), of MAX_STORES] unfolding cache_inv_def by linarith
  then show ?thesis using e by (auto simp: cache_inv_def)
next
  case False
  show ?thesis
  proof (cases b)
    case None
    then show ?thesis using bc_get_fails [OF inv _ False] g inv by blast
  next
    case (Some p)
    then obtain i where "get_store_by_id sid = Some i" using g by (auto simp: bc_get_def split: option.splits)
    then show ?thesis using bc_get_delivers [OF inv] g Some by blast
  qed
qed

lemma bc_put_inv: "cache_inv s es \<Longrightarrow> bc_put sid addr s = Some (r, s1) \<Longrightarrow> cache_inv s1 es"
  using bc_put_frame [of sid addr s r s1] by (simp add: cache_inv_def chains_def room_inv_def)

section \<open>Properties\<close>

text \<open>
  A block of a disk that is not cached yet is read: when \<open>bc_get\<close> delivers a buffer, it returns 1, the
  buffer holds the sector, no memory outside of the buffer's 512 bytes and nothing on the disk has changed, and
  asking again gives the same buffer at once, with no access to the disk and no change at all.
\<close>

theorem bc_get_loads_sector:
  assumes "get_store_by_id sid = Some i" and "type_of (stores s ! i) s = Some (ata_store_type B)" and "ata_disk B (sdev (stores s ! i)) v"
    and "bc_search (bcs s) addr (bc_first (stores s ! i)) = Some 0" and "bc_get sid addr s = Some (r, Some p, s1)"
  shows "r = 1 \<and> words_at p 256 (kmem s1) = sectors (v (devices s)) (sector_place (sdev (stores s ! i)) addr) \<and>
    (\<forall>a. 512 \<le> unat (a - p) \<longrightarrow> kmem s1 a = kmem s a) \<and> sectors (v (devices s1)) = sectors (v (devices s)) \<and>
    bc_get sid addr s1 = Some (1, Some p, s1)"
  using block_store.get_loads [OF ata_block_store [OF assms(3)] assms(1,2) refl assms(4,5)] bc_get_again [OF assms(5)] by simp

text \<open>
  C29: \<open>bc_put\<close> saves: for a cached block of a disk it returns 1, the sector then holds the 512 bytes of the
  buffer, every other sector and all of memory are unchanged. For a block that is not cached it returns 1
  and does nothing.
\<close>

theorem bc_put_writes_back:
  assumes "get_store_by_id sid = Some i" and "i < length (stores s)" and "chain (bcs s) (bc_first (stores s ! i)) ps"
    and "type_of (stores s ! i) s = Some (ata_store_type B)" and "ata_disk B (sdev (stores s ! i)) v"
  shows "\<exists>s1. bc_put sid addr s = Some (1, s1) \<and> kmem s1 = kmem s \<and>
    (case find (\<lambda>x. bc_addr (bcs s x) = addr) ps of
       None \<Rightarrow> s1 = s
     | Some x \<Rightarrow> sectors (v (devices s1)) = (sectors (v (devices s)))
         (sector_place (sdev (stores s ! i)) addr := words_at (bc_data (bcs s x)) 256 (kmem s)))"
  by (rule block_store.put_saves [OF ata_block_store [OF assms(5)] assms(1-4) refl])

text \<open>
  C30: The cache invariant holds over any sequence of \<open>bc_get\<close> and \<open>bc_put\<close> calls, whatever the devices
  answer: the chains of all stores are finite and end in NULL, together they have at most as many
  entries as the counter says, which never exceeds 2, and while there is room the heap is well formed and every entry
  is one of its allocated blocks. In particular the searches in the chains terminate.
\<close>

theorem bc_cache_invariant:
  assumes "cache_inv s es" and "bc_run ops s = Some s'"
  shows "\<exists>es'. cache_inv s' es' \<and> (\<forall>i < MAX_STORES. \<forall>addr. \<exists>p. bc_search (bcs s') addr (bc_first (stores s' ! i)) = Some p)"
proof -
  have "\<exists>es'. cache_inv s' es'" using assms
  proof (induction ops s arbitrary: es rule: bc_run.induct)
    case (2 sid addr ops s)
    then show ?case using bc_get_inv by (fastforce simp: bind_eq_Some_conv)
  next
    case (3 sid addr ops s)
    then show ?case using bc_put_inv by (fastforce simp: bind_eq_Some_conv)
  qed auto
  then obtain es' where e: "cache_inv s' es'" by blast
  then have "\<exists>p. bc_search (bcs s') addr (bc_first (stores s' ! i)) = Some p" if "i < MAX_STORES" for i addr
    using that bc_search_chain by (fastforce simp: cache_inv_def chains_def)
  with e show ?thesis by blast
qed

text \<open>
  C31: The cache fills up for good. From a state with two cached blocks on, whatever calls of \<open>bc_get\<close>
  and \<open>bc_put\<close> follow, a block that was not cached at the beginning is never delivered: \<open>bc_get\<close> for it returns
  0 without a buffer; the chains of cached blocks only lose blocks at their front, and the counter stays 2.
\<close>

theorem bc_full_never_loads:
  assumes "bc_cached_count s = MAX_CACHED_BLOCKS" and "chains s es" and "bc_run ops s = Some s'"
    and "get_store_by_id sid = Some i" and "addr \<notin> (\<lambda>x. bc_addr (bcs s x)) ` set (es i)" and "bc_get sid addr s' = Some (r, b, s'')"
  shows "r = 0 \<and> b = None \<and> bc_cached_count s'' = MAX_CACHED_BLOCKS \<and> (\<exists>es'. chains s'' es' \<and> (\<forall>j. suffix (es' j) (es j)))"
proof -
  obtain es1 where e: "bcs s' = bcs s" "bc_cached_count s' = MAX_CACHED_BLOCKS" "chains s' es1" "\<forall>i. suffix (es1 i) (es i)"
    using bc_run_full [OF assms(3,1,2)] by blast
  have "set (es1 i) \<subseteq> set (es i)" using e(4) set_mono_suffix by blast
  then have "addr \<notin> (\<lambda>x. bc_addr (bcs s' x)) ` set (es1 i)" using assms(5) e(1) by auto
  then have "r = 0 \<and> b = None" using bc_get_full(2) [OF e(2,3) assms(6,4)] by blast
  then show ?thesis using bc_get_full(1) [OF e(2,3) assms(6)] e(4) by (metis suffix_order.trans)
qed

subsection \<open>A kernel with one disk\<close>

definition disk_kernel :: "disk store_type \<Rightarrow> u64 \<Rightarrow> (u64 \<Rightarrow> bc_entry) \<Rightarrow> int \<Rightarrow> buddy_allocator \<Rightarrow> disk skernel" where
  "disk_kernel ty p b n h = kernel.extend (demo_kernel\<lparr>kheap := h\<rparr>) (skernel.fields demo_disk (Some ty # replicate 3 None)
     (\<lparr>stype = Some 0, sdev = demo_ata, bc_first = p\<rparr> # replicate 7 \<lparr>stype = None, sdev = demo_ata, bc_first = 0\<rparr>) b n)"

lemma disk_kernel_simps [simp]:
  "stores (disk_kernel ty p b n h) = \<lparr>stype = Some 0, sdev = demo_ata, bc_first = p\<rparr> # replicate 7 \<lparr>stype = None, sdev = demo_ata, bc_first = 0\<rparr>"
  "bcs (disk_kernel ty p b n h) = b" "bc_cached_count (disk_kernel ty p b n h) = n" "devices (disk_kernel ty p b n h) = demo_disk"
  "store_types (disk_kernel ty p b n h) = Some ty # replicate 3 None" "kheap (disk_kernel ty p b n h) = h"
  by (simp_all add: disk_kernel_def kernel.defs skernel.defs)

definition two_blocks :: "u64 \<Rightarrow> bc_entry" where
  "two_blocks = (\<lambda>_. \<lparr>bc_next = 0, bc_addr = 0, bc_data = 0\<rparr>)(0x100 := \<lparr>bc_next = 0x200, bc_addr = 2, bc_data = 0x1000\<rparr>,
     0x200 := \<lparr>bc_next = 0, bc_addr = 4, bc_data = 0x2000\<rparr>)"

lemma two_blocks_chain: "chain two_blocks 0x100 [0x100, 0x200]"
  by (simp add: two_blocks_def)

theorem bc_put_writes_back_witness:
  "\<exists>s1. bc_put 0 4 (disk_kernel (ata_store_type demo_disk_bus) 0x100 two_blocks 2 heap_one_free) = Some (1, s1)"
  using bc_put_writes_back [of 0 0 "disk_kernel (ata_store_type demo_disk_bus) 0x100 two_blocks 2 heap_one_free" "[0x100, 0x200]" demo_disk_bus demo_view 4]
    two_blocks_chain demo_is_disk
  by (auto simp: get_store_by_id_def MAX_STORES_def type_of_def nth_opt_def)

text \<open>A disk whose writes fail.\<close>

definition failing_type :: "disk store_type" where
  "failing_type = (ata_store_type demo_disk_bus)\<lparr>wr := (\<lambda>dev a p s. (0, s))\<rparr>"

theorem bc_full_never_loads_witness:
  "\<exists>s'. bc_get 0 6 (disk_kernel failing_type 0x100 two_blocks 2 heap_one_free) = Some (0, None, s')"
proof -
  let ?s = "disk_kernel failing_type 0x100 two_blocks 2 heap_one_free"
  have stores8: "[0..<8] = [0, 1, 2, 3, 4, 5, 6, 7]" by (simp add: upt_conv_Cons)
  have ch: "chains ?s ((\<lambda>_. [])(0 := [0x100, 0x200]))"
    using two_blocks_chain by (auto simp: chains_def MAX_STORES_def nth_Cons')
  have ev: "evict (map Suc js) t = Some t" if "\<And>j. j \<in> set js \<Longrightarrow> j < 7" "stores t = stores ?s" for t :: "disk skernel" and js
    using that by (induction js) (auto simp: nth_opt_def)
  have "[0..<8] = 0 # map Suc [0..<7]" by (simp add: upt_conv_Cons map_Suc_upt)
  then have "evict [0..<8] ?s = Some (?s\<lparr>kmem := kmem ?s, devices := demo_disk\<rparr>)"
    using ev [of "[0..<7]" "?s\<lparr>kmem := kmem ?s, devices := demo_disk\<rparr>"]
    by (simp add: nth_opt_def type_of_def Let_def failing_type_def)
  moreover have "bc_search two_blocks 6 0x100 = Some 0" using bc_search_chain [OF two_blocks_chain, of 6] by (simp add: two_blocks_def)
  ultimately obtain s' where g: "bc_get 0 6 ?s = Some (0, None, s')"
    by (simp add: bc_get_def get_store_by_id_def MAX_STORES_def nth_opt_def MAX_CACHED_BLOCKS_def)
  then show ?thesis
    using bc_full_never_loads [OF _ ch, of "[]" ?s 0 0 6 0 None s'] by (auto simp: two_blocks_def get_store_by_id_def MAX_STORES_def MAX_CACHED_BLOCKS_def)
qed

text \<open>A heap with two free blocks, one for a cache entry and one for a sector.\<close>

definition two_free :: buddy_allocator where
  "two_free = \<lparr>min_order = 5, max_order = 12, bsize = 4096, memory_start = 0x1000,
    order_lists = (replicate 32 0)[1 := 0x1000, 5 := 0x1400],
    bheap = (\<lambda>p. \<lparr>order = (if p = 0x1000 then 6 else 10), taken = 0, bnext = 0, bprev = 0\<rparr>)\<rparr>"

lemma kalloc_only_block:
  assumes n: "2 ^ (k - 1) < unat n + 24" "unat n + 24 \<le> 2 ^ k" "n \<le> bsize a" "n \<noteq> 0" and k: "min_order a < k" "k \<le> 30"
    and x: "order_lists a ! (k - min_order a) = x" "x \<noteq> 0" "order (bheap a x) = k" "bnext (bheap a x) = 0" "bprev (bheap a x) = 0"
  shows "kalloc n a = Some (x + 24, upd_block x (\<lambda>b. b\<lparr>taken := 1\<rparr>) (a\<lparr>order_lists := (order_lists a)[k - min_order a := 0]\<rparr>))"
proof -
  have le: "(2 :: nat) ^ k \<le> 2 ^ 30" using k(2) by (intro power_increasing) auto
  have un: "unat (n + 24) = unat n + 24" using n(2) le by (subst unat_add_lem [THEN iffD1]) auto
  have "2 \<le> unat (n + 24)" "unat (n + 24) \<le> 2 ^ 30" "min_order a \<le> 30" using un n(2) le k by auto
  from round_size_ok [OF this] obtain j where j: "j \<le> 30" "round_size (n + 24) (min_order a) = Some (push_bit j 1)" "min_order a \<le> j"
      "unat n + 24 \<le> 2 ^ j" "j = min_order a \<or> 2 ^ (j - 1) < unat n + 24" unfolding un by blast
  have "(2 :: nat) ^ (k - 1) < 2 ^ j" using n(1) j(4) by linarith
  then have "k \<le> j" by (simp add: power_strict_increasing_iff)
  moreover from this have "(2 :: nat) ^ (j - 1) < 2 ^ k" using n(2) j(5) k(1) by linarith
  ultimately have "j = k" by (simp add: power_strict_increasing_iff)
  moreover have "builtin_ctz (ucast (push_bit k 1 :: u64)) = Some k" using k by (simp only: ucast_power builtin_ctz_power)
  moreover have "\<not> bsize a < n" using n(3) by simp
  ultimately show ?thesis
    using j(2) n(4) k x by (simp add: kalloc_def balloc_def sizeof_buddy_block_def remove_block_def upd_block_def list_index_def BUDDY_NUM_LISTS_def Let_def)
qed

lemma two_free_allocs:
  obtains h1 h2 where "kalloc 32 two_free = Some (0x1018, h1)" and "kalloc 512 h1 = Some (0x1418, h2)"
proof -
  let ?h = "upd_block 0x1000 (\<lambda>b. b\<lparr>taken := 1\<rparr>) (two_free\<lparr>order_lists := (order_lists two_free)[1 := 0]\<rparr>)"
  have a: "kalloc 32 two_free = Some (0x1018, ?h)"
    using kalloc_only_block [of 6 32 two_free "0x1000"] by (simp add: two_free_def)
  have "\<exists>h2. kalloc 512 ?h = Some (0x1418, h2)"
    using kalloc_only_block [of 10 512 ?h "0x1400"] by (simp add: two_free_def upd_block_def)
  with a that show thesis by blast
qed

theorem bc_get_loads_sector_witness:
  "\<exists>s1. bc_get 0 3 (disk_kernel (ata_store_type demo_disk_bus) 0 two_blocks 0 two_free) = Some (1, Some 0x1418, s1) \<and>
    words_at 0x1418 256 (kmem s1) = sectors (demo_view demo_disk) (sector_place demo_ata 3)"
proof -
  let ?s = "disk_kernel (ata_store_type demo_disk_bus) 0 two_blocks 0 two_free"
  have miss: "bc_search two_blocks 3 0 = Some 0" by (simp add: bc_search.simps)
  obtain h1 h2 where h: "kalloc 32 two_free = Some (0x1018, h1)" "kalloc 512 h1 = Some (0x1418, h2)" by (rule two_free_allocs)
  have "\<exists>r s1. bc_get 0 3 ?s = Some (r, Some 0x1418, s1)"
    using miss h by (simp add: bc_get_def get_store_by_id_def MAX_STORES_def nth_opt_def MAX_CACHED_BLOCKS_def sizeof_bc_entry_def type_of_def
        ata_store_type_def Let_def case_prod_beta)
  then obtain r s1 where g: "bc_get 0 3 ?s = Some (r, Some 0x1418, s1)" by blast
  show ?thesis
    using bc_get_loads_sector [of 0 0 ?s demo_disk_bus demo_view 3 r "0x1418" s1] g miss demo_is_disk
    by (simp add: get_store_by_id_def MAX_STORES_def type_of_def nth_opt_def)
qed

definition page_free :: buddy_allocator where
  "page_free = \<lparr>min_order = 5, max_order = 12, bsize = 4096, memory_start = 4096,
    order_lists = (replicate 32 0)[7 := 4096], bheap = (\<lambda>_. \<lparr>order = 12, taken = 0, bnext = 0, bprev = 0\<rparr>)\<rparr>"

lemma page_free_ok: "heap_ok page_free ((\<lambda>_. [])(7 := [4096])) {}"
proof -
  have "free_blocks page_free ((\<lambda>_. [])(7 := [4096])) = {(4096, 12)}"
    by (auto simp: free_blocks_def page_free_def BUDDY_NUM_LISTS_def split: if_splits)
  then show ?thesis
    by (simp add: heap_ok_def params_ok_def lists_ok_def taken_ok_def tiling_def blk_range_def dll_Cons
        page_free_def field_defs BUDDY_NUM_LISTS_def nth_list_update)
qed

theorem bc_cache_invariant_witness:
  "\<exists>s' es'. bc_run [Get (-1) 0, Put 0 4] (disk_kernel (ata_store_type demo_disk_bus) 0 two_blocks 0 page_free) = Some s' \<and> cache_inv s' es'"
proof -
  let ?s = "disk_kernel (ata_store_type demo_disk_bus) 0 two_blocks 0 page_free"
  have "room_inv ?s (\<lambda>_. [])" using page_free_ok
    by (auto simp: room_inv_def sizeof_bc_entry_def ata_store_type_def) (auto simp: page_free_def)
  moreover have "chains ?s (\<lambda>_. [])" by (auto simp: chains_def MAX_STORES_def nth_Cons')
  ultimately have inv: "cache_inv ?s (\<lambda>_. [])" by (simp add: cache_inv_def MAX_CACHED_BLOCKS_def)
  have "bc_run [Get (-1) 0, Put 0 4] ?s = Some ?s"
    by (simp add: bc_get_def bc_put_def get_store_by_id_def MAX_STORES_def nth_opt_def bc_search.simps)
  then show ?thesis using bc_cache_invariant [OF inv] by blast
qed

end
