(* ===== verification/Ext2.thy ===== *)
theory Ext2
  imports Store "HOL-Library.Signed_Division"
begin

text \<open>
  The ext2 file system \<^verbatim>\<open>generic/fs/ext2.c\<close> over the block cache, and the start of the file systems in
  \<^verbatim>\<open>_start\<close>. The structures on the disk are records that are loaded from their offsets in memory; only the
  members that the code reads are in the records. The messages of \<open>printk\<close> are left out. Dereferencing NULL, division by
  zero and the use of a buffer pointer that was never set are \<open>None\<close>.
\<close>

section \<open>Model\<close>

definition load32 :: "u64 \<Rightarrow> mem \<Rightarrow> u32" where
  "load32 p m = ucast (load16 p m) OR push_bit 16 (ucast (load16 (p + 2) m))"

record ext2_superblock =
  n_blks :: u32
  blk_sz :: u32
  blks_per_group :: u32
  ino_per_group :: u32
  vers_major :: u32
  sz_ino_struct :: u16

definition superblock_at :: "u64 \<Rightarrow> mem \<Rightarrow> ext2_superblock" where
  "superblock_at p m = \<lparr>n_blks = load32 (p + 4) m, blk_sz = load32 (p + 24) m, blks_per_group = load32 (p + 32) m,
    ino_per_group = load32 (p + 40) m, vers_major = load32 (p + 76) m, sz_ino_struct = load16 (p + 88) m\<rparr>"

record ext2_inode =
  ino_uid :: u16
  t_access :: u32
  t_create :: u32
  t_modify :: u32
  ino_gid :: u16

definition inode_at :: "u64 \<Rightarrow> mem \<Rightarrow> ext2_inode" where
  "inode_at p m = \<lparr>ino_uid = load16 (p + 2) m, t_access = load32 (p + 8) m, t_create = load32 (p + 12) m,
    t_modify = load32 (p + 16) m, ino_gid = load16 (p + 24) m\<rparr>"

text \<open>The member \<open>inode_table_addr\<close> of entry \<open>g\<close> of the block group table; a descriptor has 32 bytes.\<close>

definition sizeof_blkgroup_descriptor :: u64 where "sizeof_blkgroup_descriptor = 32"

definition inode_table_addr :: "u64 \<Rightarrow> u64 \<Rightarrow> mem \<Rightarrow> u32" where
  "inode_table_addr table g m = load32 (table + sizeof_blkgroup_descriptor * g + 8) m"

text \<open>\<^verbatim>\<open>1024 << blksz\<close> is an \<^verbatim>\<open>int\<close>, which is then converted to \<^verbatim>\<open>size_t\<close>.\<close>

definition blk_bytes :: "u32 \<Rightarrow> u64" where
  "blk_bytes blksz = scast (shl32 1024 (unat blksz))"

definition byte2blk :: "u32 \<Rightarrow> u64 \<Rightarrow> u64 option" where
  "byte2blk blksz byte = (if blk_bytes blksz = 0 then None else Some (byte div blk_bytes blksz))"

definition blk2byte :: "u32 \<Rightarrow> u64 \<Rightarrow> u64" where
  "blk2byte blksz blk = blk * blk_bytes blksz"

text \<open>A mount is passed as its index.\<close>

definition get_sb :: "nat \<Rightarrow> 'd skernel \<Rightarrow> (u64 \<times> 'd skernel) option" where
  "get_sb mnt s = do {
    mt \<leftarrow> nth_opt (mounts s) mnt;
    (case get_store_by_id (dev mt) of
       None \<Rightarrow> Some (0, s)
     | Some k \<Rightarrow> do {
         st \<leftarrow> nth_opt (stores s) k;
         ty \<leftarrow> type_of st s;
         (if seg_sz ty = 0 then None
          else do {
            (ret, buf, s1) \<leftarrow> bc_get (dev mt) (1024 div seg_sz ty) s;
            (if ret = 0 then Some (0, s1) else do { sb \<leftarrow> buf; Some (sb, s1) }) }) }) }"

definition blk2lba :: "nat \<Rightarrow> u64 \<Rightarrow> 'd skernel \<Rightarrow> (u64 \<times> 'd skernel) option" where
  "blk2lba mnt blk s = do {
    mt \<leftarrow> nth_opt (mounts s) mnt;
    (case get_store_by_id (dev mt) of
       None \<Rightarrow> Some (-1, s)
     | Some k \<Rightarrow> do {
         (sb, s1) \<leftarrow> get_sb mnt s;
         (if sb = 0 then None
          else do {
            st \<leftarrow> nth_opt (stores s1) k;
            ty \<leftarrow> type_of st s1;
            (if seg_sz ty = 0 then None
             else Some (blk2byte (blk_sz (superblock_at sb (kmem s1))) blk div seg_sz ty, s1)) }) }) }"

definition blkgroup_count :: "ext2_superblock \<Rightarrow> int option" where
  "blkgroup_count F = (if blks_per_group F = 0 then None
    else Some (sint ((n_blks F + (blks_per_group F - 1)) div blks_per_group F)))"

definition n_blkgroups :: "nat \<Rightarrow> 'd skernel \<Rightarrow> (int \<times> 'd skernel) option" where
  "n_blkgroups mnt s = do {
    (sb, s1) \<leftarrow> get_sb mnt s;
    (if sb = 0 then Some (-1, s1)
     else do { n \<leftarrow> blkgroup_count (superblock_at sb (kmem s1)); Some (n, s1) }) }"

text \<open>The file system is number 1 of the types.\<close>

definition ext2_initmnt :: "nat \<Rightarrow> 'd skernel \<Rightarrow> (int \<times> 'd skernel) option" where
  "ext2_initmnt mnt s = do {
    mt \<leftarrow> nth_opt (mounts s) mnt;
    (case get_store_by_id (dev mt) of
       None \<Rightarrow> Some (-1, s)
     | Some k \<Rightarrow> do {
         (sb, s1) \<leftarrow> get_sb mnt s;
         (if sb = 0 then None
          else if vers_major (superblock_at sb (kmem s1)) < 1 then Some (-1, s1)
          else Some (0, s1\<lparr>mounts := (mounts s1)[mnt := (mounts s1 ! mnt)\<lparr>mfs := Some 1, root_fsnode := 2\<rparr>]\<rparr>)) }) }"

definition ext2_retrieve_child :: "nat \<Rightarrow> u64 \<Rightarrow> u64 \<Rightarrow> 'd skernel \<Rightarrow> (int \<times> 'd skernel) option" where
  "ext2_retrieve_child parent nm len s = Some (0, s)"

text \<open>The block and the byte of the disk at which inode number \<open>ind\<close> of a group starts.\<close>

definition inode_blk :: "u64 \<Rightarrow> u64 \<Rightarrow> u64 \<Rightarrow> u64 \<Rightarrow> u64" where
  "inode_blk first_blk ind isz bs = first_blk + ind * isz div bs"

definition inode_start_byte :: "u64 \<Rightarrow> u64 \<Rightarrow> u64 \<Rightarrow> u64 \<Rightarrow> u64" where
  "inode_start_byte blk ind isz bs = blk * bs + ind * isz mod bs"

text \<open>
  The first part of \<open>ext2_node_from_id\<close>: the block group table and the sector and offset of the inode. The
  result \<open>None\<close> is the return with -1; otherwise the address of the table, of the sector and the offset.
\<close>

definition ext2_locate :: "nat \<Rightarrow> int \<Rightarrow> 'd skernel \<Rightarrow> ((u64 \<times> u64 \<times> u64) option \<times> 'd skernel) option" where
  "ext2_locate mnt ino s = do {
    (sb, s1) \<leftarrow> get_sb mnt s;
    (if sb = 0 \<or> ino_per_group (superblock_at sb (kmem s1)) = 0 then None
     else do {
       let F = superblock_at sb (kmem s1);
       let isz = ucast (sz_ino_struct F);
       let ipg = uint (ino_per_group F);
       let blk_group = word_of_int ((ino - 1) sdiv ipg);
       let ind_in_grp = word_of_int ((ino - 1) smod ipg);
       sblk \<leftarrow> byte2blk (blk_sz F) 1024;
       (table_seg, s2) \<leftarrow> blk2lba mnt (1 + sblk) s1;
       mt \<leftarrow> nth_opt (mounts s2) mnt;
       (ret, buf, s3) \<leftarrow> bc_get (dev mt) table_seg s2;
       (if ret = 0 then Some (None, s3)
        else do {
          table \<leftarrow> buf;
          let blk = inode_blk (ucast (inode_table_addr table blk_group (kmem s3))) ind_in_grp isz (blk_bytes (blk_sz F));
          let start_byte = inode_start_byte blk ind_in_grp isz (blk_bytes (blk_sz F));
          (lba, s4) \<leftarrow> blk2lba mnt blk s3;
          k \<leftarrow> get_store_by_id (dev mt);
          st \<leftarrow> nth_opt (stores s4) k;
          ty \<leftarrow> type_of st s4;
          Some (Some (table_seg, lba, start_byte - lba * seg_sz ty), s4) }) }) }"

definition ext2_fill :: "int \<Rightarrow> ext2_inode \<Rightarrow> fsnode \<Rightarrow> fsnode" where
  "ext2_fill ino I nd = nd\<lparr>access_time := uint (t_access I), create_time := uint (t_create I), mod_time := uint (t_modify I),
    group := uint (ino_gid I), user := uint (ino_uid I), internal_id := ino\<rparr>"

definition ext2_node_from_id :: "int \<Rightarrow> nat \<Rightarrow> 'd skernel \<Rightarrow> (int \<times> 'd skernel) option" where
  "ext2_node_from_id ino n s = do {
    nd \<leftarrow> nth_opt (fsnodes s) n;
    mnt \<leftarrow> mountpoint nd;
    (place, s1) \<leftarrow> ext2_locate mnt ino s;
    (case place of
       None \<Rightarrow> Some (-1, s1)
     | Some (table_seg, lba, byte_in_seg) \<Rightarrow> do {
         mt \<leftarrow> nth_opt (mounts s1) mnt;
         (ret, buf, s2) \<leftarrow> bc_get (dev mt) lba s1;
         ino_table_seg \<leftarrow> buf;
         Some (0, upd_node n (ext2_fill ino (inode_at (ino_table_seg + byte_in_seg) (kmem s2))) s2) }) }"

definition ext2_read :: "nat \<Rightarrow> u64 \<Rightarrow> u64 \<Rightarrow> 'd skernel \<Rightarrow> (int \<times> 'd skernel) option" where
  "ext2_read file nbytes kbuffer s = Some (0, s)"

definition ext2_save_node :: "nat \<Rightarrow> 'd skernel \<Rightarrow> (int \<times> 'd skernel) option" where
  "ext2_save_node file s = Some (0, s)"

definition ext2_open :: "nat \<Rightarrow> 'd skernel \<Rightarrow> (int \<times> 'd skernel) option" where
  "ext2_open node s = Some (0, s)"

definition ext2_close :: "nat \<Rightarrow> 'd skernel \<Rightarrow> (int \<times> 'd skernel) option" where
  "ext2_close file s = Some (0, s)"

definition ext2_seek :: "nat \<Rightarrow> int \<Rightarrow> int \<Rightarrow> 'd skernel \<Rightarrow> (int \<times> 'd skernel) option" where
  "ext2_seek file offset anchor s = Some (0, s)"

definition ext2_write :: "nat \<Rightarrow> u64 \<Rightarrow> u64 \<Rightarrow> 'd skernel \<Rightarrow> (int \<times> 'd skernel) option" where
  "ext2_write file nbytes buffer s = Some (0, s)"

definition ext2_newfile :: "nat \<Rightarrow> u64 \<Rightarrow> u32 \<Rightarrow> int \<Rightarrow> int \<Rightarrow> 'd skernel \<Rightarrow> (int \<times> 'd skernel) option" where
  "ext2_newfile parent nm p u g s = Some (0, s)"

definition ext2_newdir :: "nat \<Rightarrow> u64 \<Rightarrow> u32 \<Rightarrow> int \<Rightarrow> int \<Rightarrow> 'd skernel \<Rightarrow> (int \<times> 'd skernel) option" where
  "ext2_newdir parent nm p u g s = Some (0, s)"

definition ext2_delnode :: "nat \<Rightarrow> u64 \<Rightarrow> 'd skernel \<Rightarrow> (int \<times> 'd skernel) option" where
  "ext2_delnode parent nm s = Some (0, s)"

definition ext2_type :: "'d skernel fs_ops" where
  "ext2_type = \<lparr>retrieve_child = ext2_retrieve_child, node_from_id = ext2_node_from_id, op_put_node = ext2_save_node,
    f_open = ext2_open, f_close = ext2_close, f_seek = ext2_seek, f_read = ext2_read, f_write = ext2_write,
    newfile = ext2_newfile, newdir = ext2_newdir, delnode = ext2_delnode\<rparr>"

definition kernel_env :: "tfs_rodata \<Rightarrow> u64 \<Rightarrow> 'd skernel vfs_env" where
  "kernel_env R base = \<lparr>fs_types = (\<lambda>i. if i = 0 then testfs_type R else ext2_type), links_base = base\<rparr>"

text \<open>
  The part of \<^verbatim>\<open>_start\<close> from the registration of the disk to the mount of its file system; \<open>nm\<close> and \<open>cfg\<close> are
  the addresses of the literals \<^verbatim>\<open>"atapio"\<close> and \<^verbatim>\<open>"pm"\<close>.
\<close>

definition start_filesystems :: "'d bus \<Rightarrow> u64 \<Rightarrow> u64 \<Rightarrow> u64 \<Rightarrow> tfs_rodata \<Rightarrow> u64 \<Rightarrow> 'd skernel \<Rightarrow> 'd skernel option" where
  "start_filesystems B tb nm cfg R base s = do {
    let s1 = snd (register_storetype tb (ata_store_type B) s);
    (si, s2) \<leftarrow> register_store tb nm cfg s1;
    s3 \<leftarrow> mount_root R base s2;
    mt \<leftarrow> nth_opt (mounts s3) 1;
    (_, s4) \<leftarrow> ext2_initmnt 1 (s3\<lparr>mounts := (mounts s3)[1 := mt\<lparr>dev := si\<rparr>]\<rparr>);
    Some s4 }"

section \<open>The cache below the file system\<close>

lemma map_update_same: "i < length xs \<Longrightarrow> (map f xs)[i := f (xs ! i)] = map f xs"
  by (metis list_update_id nth_map)

lemma scan_from_map: "scan_from P i (map f xs) = scan_from (P \<circ> f) i xs"
  by (induction xs arbitrary: i) auto

lemma evict_frame: "evict is s = Some s1 \<Longrightarrow> mounts s1 = mounts s \<and> fsnodes s1 = fsnodes s"
proof (induction "is" arbitrary: s)
  case (Cons i "is")
  show ?case
    using Cons.prems by (auto simp: upd_store_def bind_eq_Some_conv Let_def case_prod_beta split: if_splits dest!: Cons.IH)
qed simp

lemma bc_get_frame: "bc_get sid addr s = Some (r, b, s1) \<Longrightarrow> mounts s1 = mounts s \<and> fsnodes s1 = fsnodes s"
  by (auto simp: bc_get_def upd_store_def bind_eq_Some_conv Let_def case_prod_beta split: option.splits if_splits dest!: evict_frame)

lemma bc_get_types:
  assumes "bc_get sid addr s = Some (r, Some p, s1)"
  shows "p \<noteq> 0 \<or> s1 = s" and "store_types s1 = store_types s" and "map stype (stores s1) = map stype (stores s)"
  using assms
  by (auto simp: bc_get_def upd_store_def nth_opt_Some map_update map_update_same bind_eq_Some_conv Let_def case_prod_beta
      split: option.splits if_splits)

lemma get_sb_frame: "get_sb mnt s = Some (sb, s1) \<Longrightarrow> mounts s1 = mounts s \<and> fsnodes s1 = fsnodes s"
  by (auto simp: get_sb_def bind_eq_Some_conv split: option.splits if_splits dest!: bc_get_frame)

lemma blk2lba_frame: "blk2lba mnt blk s = Some (lba, s1) \<Longrightarrow> mounts s1 = mounts s \<and> fsnodes s1 = fsnodes s"
  by (auto simp: blk2lba_def bind_eq_Some_conv split: option.splits if_splits dest!: get_sb_frame)

lemma ext2_locate_frame: "ext2_locate mnt ino s = Some (r, s1) \<Longrightarrow> mounts s1 = mounts s \<and> fsnodes s1 = fsnodes s"
  by (auto simp: ext2_locate_def bind_eq_Some_conv Let_def split: if_splits dest!: get_sb_frame blk2lba_frame bc_get_frame)

lemma ext2_node_from_id_frame:
  assumes "ext2_node_from_id ino n s = Some (r, s1)"
  shows "mounts s1 = mounts s \<and> n < length (fsnodes s) \<and>
    (r = -1 \<and> fsnodes s1 = fsnodes s \<or> r = 0 \<and> (\<exists>I. fsnodes s1 = (fsnodes s)[n := ext2_fill ino I (fsnodes s ! n)]))"
  using assms
  by (auto simp: ext2_node_from_id_def upd_node_def nth_opt_Some bind_eq_Some_conv split: option.splits dest!: ext2_locate_frame bc_get_frame) blast+

text \<open>
  \<open>grows k addrs s s1\<close>: the blocks \<open>addrs\<close> of store \<open>k\<close> are cached now, no cached block was lost, and the
  tables that the file system reads are the same.
\<close>

definition grows :: "nat \<Rightarrow> u64 set \<Rightarrow> 'd skernel \<Rightarrow> 'd skernel \<Rightarrow> bool" where
  "grows k addrs s s1 \<longleftrightarrow> mounts s1 = mounts s \<and> fsnodes s1 = fsnodes s \<and> store_types s1 = store_types s \<and> map stype (stores s1) = map stype (stores s) \<and>
    (\<forall>es. cache_inv s es \<longrightarrow> (\<exists>es1. cache_inv s1 es1 \<and> cached s es k \<union> addrs \<subseteq> cached s1 es1 k))"

lemma grows_trans: "grows k A s s1 \<Longrightarrow> grows k B s1 s2 \<Longrightarrow> grows k (A \<union> B) s s2"
  unfolding grows_def by (smt (verit) Un_subset_iff subset_trans)

lemma grows_same:
  assumes "grows k A s s1" and "k < length (stores s)"
  shows "k < length (stores s1) \<and> type_of (stores s1 ! k) s1 = type_of (stores s ! k) s \<and> mounts s1 = mounts s"
proof -
  have m: "map stype (stores s1) = map stype (stores s)" using assms(1) by (simp add: grows_def)
  then have l: "length (stores s1) = length (stores s)" by (rule map_eq_imp_length_eq)
  then have "stype (stores s1 ! k) = stype (stores s ! k)" using assms(2) arg_cong [OF m, of "\<lambda>xs. xs ! k"] by simp
  then show ?thesis using assms l by (simp add: type_of_def grows_def)
qed

lemma bc_get_grows:
  assumes "bc_get sid addr s = Some (r, Some p, s1)" and "get_store_by_id sid = Some k"
  shows "grows k {addr} s s1"
proof -
  have "\<exists>es1. cache_inv s1 es1 \<and> cached s es k \<union> {addr} \<subseteq> cached s1 es1 k" if "cache_inv s es" for es
    using bc_get_delivers [OF that assms] by blast
  then show ?thesis using bc_get_frame [OF assms(1)] bc_get_types [OF assms(1)] unfolding grows_def by blast
qed

lemma get_sb_grows:
  assumes "get_sb mnt s = Some (sb, s1)" and "sb \<noteq> 0" and "get_store_by_id (dev (mounts s ! mnt)) = Some k" and "type_of (stores s ! k) s = Some ty"
  shows "grows k {1024 div seg_sz ty} s s1"
proof -
  obtain r where "bc_get (dev (mounts s ! mnt)) (1024 div seg_sz ty) s = Some (r, Some sb, s1)"
    using assms by (auto simp: get_sb_def nth_opt_Some bind_eq_Some_conv split: if_splits)
  from bc_get_grows [OF this assms(3)] show ?thesis .
qed

lemma blk2lba_grows:
  assumes "blk2lba mnt blk s = Some (lba, s1)" and "get_store_by_id (dev (mounts s ! mnt)) = Some k" and "type_of (stores s ! k) s = Some ty"
  shows "grows k {1024 div seg_sz ty} s s1"
  using assms get_sb_grows [OF _ _ assms(2,3)] by (auto simp: blk2lba_def nth_opt_Some bind_eq_Some_conv split: if_splits)

lemma ext2_locate_grows:
  assumes l: "ext2_locate mnt ino s = Some (Some (table_seg, lba, off), s1)" and k: "get_store_by_id (dev (mounts s ! mnt)) = Some k"
    and ty: "type_of (stores s ! k) s = Some ty" and kl: "k < length (stores s)"
  shows "grows k {1024 div seg_sz ty, table_seg} s s1"
proof -
  have "\<exists>sb s2 sblk s3 r table s4 blk. get_sb mnt s = Some (sb, s2) \<and> sb \<noteq> 0 \<and> blk2lba mnt (1 + sblk) s2 = Some (table_seg, s3) \<and>
      bc_get (dev (mounts s3 ! mnt)) table_seg s3 = Some (r, Some table, s4) \<and> blk2lba mnt blk s4 = Some (lba, s1)"
    using l by (auto simp: ext2_locate_def bind_eq_Some_conv nth_opt_Some Let_def split: if_splits) blast
  then obtain sb s2 sblk s3 r table s4 blk where steps: "get_sb mnt s = Some (sb, s2)" "sb \<noteq> 0" "blk2lba mnt (1 + sblk) s2 = Some (table_seg, s3)"
      "bc_get (dev (mounts s3 ! mnt)) table_seg s3 = Some (r, Some table, s4)" "blk2lba mnt blk s4 = Some (lba, s1)" by blast
  note g = get_sb_grows [OF steps(1,2) k ty]
  note n = grows_same [OF g kl]
  have "grows k {1024 div seg_sz ty} s2 s3" using n k ty by (intro blk2lba_grows [OF steps(3)]) auto
  note g = grows_trans [OF g this]
  note n = grows_same [OF g kl]
  have "grows k {table_seg} s3 s4" using n k by (intro bc_get_grows [OF steps(4)]) auto
  note g = grows_trans [OF g this]
  note n = grows_same [OF g kl]
  have "grows k {1024 div seg_sz ty} s4 s1" using n k ty by (intro blk2lba_grows [OF steps(5)]) auto
  from grows_trans [OF g this] show ?thesis by (simp add: insert_commute)
qed

text \<open>Two blocks of a store in the cache are all it can hold.\<close>

lemma cache_inv_two:
  assumes inv: "cache_inv s es" and k: "k < MAX_STORES" and ab: "{a, b} \<subseteq> cached s es k" "a \<noteq> b"
  shows "bc_cached_count s = MAX_CACHED_BLOCKS \<and> cached s es k = {a, b}"
proof -
  have "length (es k) \<le> (\<Sum>i < MAX_STORES. length (es i))" using k by (intro member_le_sum) auto
  moreover have "card (cached s es k) \<le> length (es k)"
    unfolding cached_def by (meson card_image_le card_length finite_set le_trans)
  moreover have "2 \<le> card (cached s es k)" using card_mono [OF _ ab(1)] ab(2) by (simp add: cached_def)
  ultimately have c: "card (cached s es k) = 2" "bc_cached_count s = MAX_CACHED_BLOCKS"
    using inv unfolding cache_inv_def MAX_CACHED_BLOCKS_def by linarith+
  have "{a, b} = cached s es k" using ab c(1) by (intro card_subset_eq) (auto simp: cached_def)
  with c(2) show ?thesis by simp
qed

section \<open>The place of an inode\<close>

lemma order_mask_shift: "k \<le> 30 \<Longrightarrow> (scast (shl32 1 k) :: u64) = push_bit k 1"
  using order_mask_eq [of k] by (simp add: order_mask_def)

lemma unat_bound: "unat (w :: 'a::len word) < 2 ^ LENGTH('a)"
  by (rule unsigned_less)

lemma unat_blk_bytes:
  assumes "unat n \<le> 20"
  shows "unat (blk_bytes n) = 1024 * 2 ^ unat n"
proof -
  have "shl32 1024 (unat n) = shl32 1 (10 + unat n)" using assms
    by (simp add: shl32_def push_bit_eq_mult power_add)
  then have "blk_bytes n = push_bit (10 + unat n) 1" using order_mask_shift [of "10 + unat n"] assms by (simp add: blk_bytes_def)
  then have "unat (blk_bytes n) = 2 ^ (10 + unat n)" using assms unat_mask [of "10 + unat n"] by simp
  then show ?thesis by (simp add: power_add)
qed

lemma unat_inode_blk:
  assumes bs: "0 < B" "unat bs = B" "B \<le> 2 ^ 30" and f: "unat f < 2 ^ 32" and i: "unat i < 2 ^ 32" and z: "unat z < 2 ^ 16"
  shows "unat (inode_blk f i z bs) = unat f + unat i * unat z div B"
    and "unat (inode_blk f i z bs * bs) = (unat f + unat i * unat z div B) * B"
    and "inode_start_byte (inode_blk f i z bs) i z bs - inode_blk f i z bs * bs = i * z mod bs" and "unat (i * z mod bs) = unat i * unat z mod B"
proof -
  have iz: "unat i * unat z < 2 ^ 32 * 2 ^ 16" using i z by (intro mult_strict_mono) auto
  then have uiz: "unat (i * z) = unat i * unat z" by (subst unat_mult_lem [symmetric]) simp
  have le: "unat i * unat z div B * B < 2 ^ 48" "unat i * unat z div B < 2 ^ 48"
    using iz by (auto intro: le_less_trans [OF div_le_dividend] le_less_trans [OF div_times_less_eq_dividend])
  have fB: "unat f * B < 2 ^ 32 * 2 ^ 30" using f bs by (intro mult_less_le_imp_less) auto
  show 1: "unat (inode_blk f i z bs) = unat f + unat i * unat z div B"
    using f le(2) by (simp add: inode_blk_def unat_word_ariths(1) unat_div uiz bs(2))
  show 2: "unat (inode_blk f i z bs * bs) = (unat f + unat i * unat z div B) * B"
    unfolding unat_word_ariths 1 bs(2) using fB le(1) by (simp add: add_mult_distrib)
  show "inode_start_byte (inode_blk f i z bs) i z bs - inode_blk f i z bs * bs = i * z mod bs" by (simp add: inode_start_byte_def)
  show "unat (i * z mod bs) = unat i * unat z mod B" by (simp add: unat_mod uiz bs(2))
qed

section \<open>Properties\<close>

text \<open>
  C32: An inode can not be read. The cache holds two blocks; the superblock and the block group table take
  both, so for an inode in any other sector, as on every ext2 disk, the third \<open>bc_get\<close> delivers no
  buffer and \<open>ext2_node_from_id\<close>, which does not look at the result, uses a pointer that was never set.
\<close>

theorem ext2_inode_third_sector:
  assumes "cache_inv s es" and "n < length (fsnodes s)" and "mountpoint (fsnodes s ! n) = Some mnt"
    and "get_store_by_id (dev (mounts s ! mnt)) = Some k" and "type_of (stores s ! k) s = Some ty"
    and "ext2_locate mnt ino s = Some (Some (table_seg, lba, off), s1)"
    and "table_seg \<noteq> 1024 div seg_sz ty" and "lba \<noteq> 1024 div seg_sz ty" and "lba \<noteq> table_seg"
  shows "ext2_node_from_id ino n s = None"
proof -
  have kM: "k < MAX_STORES" using assms(4) by (auto simp: get_store_by_id_def split: if_splits)
  then have kl: "k < length (stores s)" using assms(1) by (simp add: cache_inv_def chains_def)
  have g: "grows k {1024 div seg_sz ty, table_seg} s s1" by (rule ext2_locate_grows [OF assms(6,4,5) kl])
  then obtain es1 where e: "cache_inv s1 es1" "{1024 div seg_sz ty, table_seg} \<subseteq> cached s1 es1 k"
    using assms(1) unfolding grows_def by blast
  have full: "bc_cached_count s1 = MAX_CACHED_BLOCKS" "lba \<notin> cached s1 es1 k"
    using cache_inv_two [OF e(1) kM e(2)] assms(7-9) by auto
  have "b = None" if "bc_get (dev (mounts s1 ! mnt)) lba s1 = Some (r, b, s2)" for r b s2
    using bc_get_full(2) [OF full(1) _ that] e(1) full(2) grows_same [OF g kl] assms(4) by (auto simp: cache_inv_def cached_def)
  then show ?thesis using assms(2,3,6) by (cases "bc_get (dev (mounts s1 ! mnt)) lba s1")
    (auto simp: ext2_node_from_id_def nth_opt_def)
qed

text \<open>
  C33: A node of this file system is never marked as used. \<open>ext2_node_from_id\<close> sets neither the type nor the
  permissions, so a node it has filled still counts as free: the next node that is asked for, for another inode,
  is the same one, and the inode it stood for is overwritten.
\<close>

theorem ext2_node_reused:
  assumes "mnt < length (mounts s)" and "mfs (mounts s ! mnt) = Some 1" and "\<forall>nd \<in> set (fsnodes s). mountpoint nd = Some mnt \<longrightarrow> ntype nd = EMPTY"
    and "get_node_byid (kernel_env R base) mnt a s = Some (Some x, s1)" and "get_node_byid (kernel_env R base) mnt b s1 = Some (Some y, s2)"
  shows "y = x \<and> internal_id (fsnodes s1 ! x) = a \<and> internal_id (fsnodes s2 ! x) = b \<and> ntype (fsnodes s2 ! x) = EMPTY"
proof -
  have step: "x < length (fsnodes t) \<and> find_free_node t = int x \<and> mounts t1 = mounts t \<and>
      (\<exists>I. fsnodes t1 = (fsnodes t)[x := ext2_fill c I ((fsnodes t ! x)\<lparr>mountpoint := Some mnt\<rparr>)])"
    if g: "get_node_byid (kernel_env R base) mnt c t = Some (Some x, t1)" and t: "mounts t = mounts s"
      and e: "\<forall>nd \<in> set (fsnodes t). mountpoint nd = Some mnt \<longrightarrow> ntype nd = EMPTY" for c t t1 x
  proof -
    have "scan_from (\<lambda>n. ntype n \<noteq> EMPTY \<and> internal_id n = c \<and> mountpoint n = Some mnt) 0 (fsnodes t) = -1" using e by (auto simp: scan_from_None)
    then obtain r where r: "find_free_node t = int x" "\<not> r < 0"
        "ext2_node_from_id c x (upd_node x (\<lambda>n. n\<lparr>mountpoint := Some mnt\<rparr>) t) = Some (r, t1)"
      using g t assms(1,2) by (auto simp: get_node_byid_def kernel_env_def ext2_type_def nth_opt_def upd_node_def bind_eq_Some_conv Let_def split: if_splits)
    then show ?thesis using ext2_node_from_id_frame [OF r(3)] by (auto simp: upd_node_def)
  qed
  obtain I where 1: "x < length (fsnodes s)" "find_free_node s = int x" "mounts s1 = mounts s"
      "fsnodes s1 = (fsnodes s)[x := ext2_fill a I ((fsnodes s ! x)\<lparr>mountpoint := Some mnt\<rparr>)]"
    using step [OF assms(4) refl assms(3)] by blast
  have free: "ntype (fsnodes s ! x) = EMPTY" using nt.find_is_free [of "fsnodes s"] 1(1,2) by (simp add: find_free_node_def)
  have "\<forall>nd \<in> set (fsnodes s1). mountpoint nd = Some mnt \<longrightarrow> ntype nd = EMPTY"
    using assms(3) free set_update_subset_insert [of "fsnodes s" x] unfolding 1(4) by (fastforce simp: ext2_fill_def)
  from step [OF assms(5) 1(3) this] obtain J where 2: "y < length (fsnodes s1)" "find_free_node s1 = int y"
      "fsnodes s2 = (fsnodes s1)[y := ext2_fill b J ((fsnodes s1 ! y)\<lparr>mountpoint := Some mnt\<rparr>)]" by blast
  have "map ntype (fsnodes s1) = map ntype (fsnodes s)" using 1(1) by (simp add: 1(4) map_update ext2_fill_def map_update_same)
  moreover have "scan_from (\<lambda>n. ntype n = EMPTY) 0 ns = scan_from (\<lambda>t. t = EMPTY) 0 (map ntype ns)" for ns :: "fsnode list"
    by (simp add: scan_from_map comp_def)
  ultimately have "find_free_node s1 = find_free_node s" by (simp only: find_free_node_def find_free_node_in_def)
  then have "y = x" using 1(2) 2(2) by simp
  then show ?thesis using 1 2 free by (simp add: ext2_fill_def)
qed

lemma load32_halves: "(ucast (load32 p m) :: u16) = load16 p m" "(ucast (drop_bit 16 (load32 p m)) :: u16) = load16 (p + 2) m"
  unfolding load32_def by (rule bit_word_eqI; auto simp: bit_simps dest: bit_imp_le_length)+

lemma load32_zero: "load32 p m = 0 \<longleftrightarrow> load16 p m = 0 \<and> load16 (p + 2) m = 0"
proof
  assume "load32 p m = 0"
  then show "load16 p m = 0 \<and> load16 (p + 2) m = 0" using load32_halves [of p m] by simp
qed (simp add: load32_def)

text \<open>
  C34: Mounting reads the superblock. For a disk behind \<open>ata.c\<close> whose sector 2 is not cached yet, \<open>ext2_initmnt\<close>
  decides by the major version in bytes 76 to 79 of that sector: with version 0 it returns -1 and leaves the mount alone, otherwise it returns 0 and
  the mount has this file system and inode 2 as its root.
\<close>

theorem ext2_initmnt_reads_superblock:
  assumes "mnt < length (mounts s)" and "get_store_by_id (dev (mounts s ! mnt)) = Some k" and "k < length (stores s)"
    and "type_of (stores s ! k) s = Some (ata_store_type B)" and "ata_disk B (sdev (stores s ! k)) v"
    and "bc_search (bcs s) 2 (bc_first (stores s ! k)) = Some 0" and "bc_get (dev (mounts s ! mnt)) 2 s = Some (r, Some p, s1)"
  shows "let ws = sectors (v (devices s)) (sector_place (sdev (stores s ! k)) 2) in
    if ws ! 38 = 0 \<and> ws ! 39 = 0 then ext2_initmnt mnt s = Some (-1, s1) \<and> mounts s1 = mounts s
    else ext2_initmnt mnt s = Some (0, s1\<lparr>mounts := (mounts s)[mnt := (mounts s ! mnt)\<lparr>mfs := Some 1, root_fsnode := 2\<rparr>]\<rparr>)"
proof -
  let ?ws = "sectors (v (devices s)) (sector_place (sdev (stores s ! k)) 2)"
  have l: "r = 1" "words_at p 256 (kmem s1) = ?ws"
    using block_store.get_loads [OF ata_block_store [OF assms(5)] assms(2,4) refl assms(6,7)] by auto
  have "?ws ! i = load16 (p + 2 * of_nat i) (kmem s1)" if "i < 256" for i using that by (simp add: l(2) [symmetric] words_at_def)
  from this [of 38] this [of 39] have v: "vers_major (superblock_at p (kmem s1)) = 0 \<longleftrightarrow> ?ws ! 38 = 0 \<and> ?ws ! 39 = 0"
    by (simp add: superblock_at_def load32_zero algebra_simps)
  have "p \<noteq> 0" using bc_get_types(1) [OF assms(7)] bc_get_miss [OF assms(7,2,6)] by auto
  have "get_sb mnt s = Some (p, s1)" using assms l(1) by (simp add: get_sb_def nth_opt_def ata_store_type_def)
  then show ?thesis using assms(1,2) \<open>p \<noteq> 0\<close> bc_get_frame [OF assms(7)] v
    by (simp add: ext2_initmnt_def nth_opt_def Let_def word_less_1)
qed

text \<open>
  C35: The place of an inode. With the superblock and the block group table of a disk behind \<open>ata.c\<close> cached and blocks of at most \<open>2 ^ 30\<close> bytes,
  the sector and the offset that \<open>ext2_node_from_id\<close> computes denote the byte at which entry \<open>(ino - 1) mod ino_per_group\<close>
  of the inode table of group \<open>(ino - 1) div ino_per_group\<close> starts, without wrap-around, and nothing is changed. The sector is the
  first one of the inode's block, so the offset is the one in the block: it is 512 or more for every inode past the first sector of its
  block, which is outside of the buffer of 512 bytes.
\<close>

theorem ext2_locate_inode_byte:
  assumes "mnt < length (mounts s)" and "get_store_by_id (dev (mounts s ! mnt)) = Some k" and "k < length (stores s)"
    and "type_of (stores s ! k) s = Some (ata_store_type B)" and "get_sb mnt s = Some (sb, s)" and "sb \<noteq> 0"
    and "F = superblock_at sb (kmem s)" and "blk_sz F \<le> 20" and "ino_per_group F \<noteq> 0" and "1 \<le> ino"
    and "table_seg = blk2byte (blk_sz F) (1 + 1024 div blk_bytes (blk_sz F)) div 512"
    and "bc_get (dev (mounts s ! mnt)) table_seg s = Some (1, Some table, s)"
  shows "\<exists>lba off. ext2_locate mnt ino s = Some (Some (table_seg, lba, off), s) \<and>
    (let bs = 1024 * 2 ^ unat (blk_sz F); ind = nat (ino - 1) mod unat (ino_per_group F); isz = unat (sz_ino_struct F);
         first = unat (inode_table_addr table (of_nat (nat (ino - 1) div unat (ino_per_group F))) (kmem s))
     in unat lba * 512 + unat off = first * bs + ind * isz \<and> unat off = ind * isz mod bs)"
proof -
  let ?n = "blk_sz F" and ?g = "of_nat (nat (ino - 1) div unat (ino_per_group F)) :: u64" and ?i = "of_nat (nat (ino - 1) mod unat (ino_per_group F)) :: u64"
  let ?f = "ucast (inode_table_addr table ?g (kmem s)) :: u64" and ?z = "ucast (sz_ino_struct F) :: u64" and ?bs = "blk_bytes (blk_sz F)"
  let ?blk = "inode_blk ?f ?i ?z ?bs"
  have n: "unat ?n \<le> 20" using assms(8) by (simp add: word_le_nat_alt)
  note bs = unat_blk_bytes [OF n]
  have bs0: "?bs \<noteq> 0" using bs by (metis mult_is_0 power_not_zero unat_0 zero_neq_numeral)
  have gi: "word_of_int ((ino - 1) sdiv uint (ino_per_group F)) = ?g" "word_of_int ((ino - 1) smod uint (ino_per_group F)) = ?i"
  proof -
    have "(ino - 1) sdiv uint (ino_per_group F) = int (nat (ino - 1) div unat (ino_per_group F))"
      "(ino - 1) smod uint (ino_per_group F) = int (nat (ino - 1) mod unat (ino_per_group F))"
      using assms(10) uint_ge_0 [of "ino_per_group F"] by (simp_all add: signed_divide_int_def signed_modulo_int_def zdiv_int zmod_int sgn_if unsigned_eq_0_iff assms(9) order_less_le)
    then show "word_of_int ((ino - 1) sdiv uint (ino_per_group F)) = ?g" "word_of_int ((ino - 1) smod uint (ino_per_group F)) = ?i"
      by simp_all
  qed
  have lba: "blk2lba mnt b s = Some (b * ?bs div 512, s)" for b
    using assms(1-7) by (simp add: blk2lba_def nth_opt_def blk2byte_def ata_store_type_def)
  have loc: "ext2_locate mnt ino s = Some (Some (table_seg, ?blk * ?bs div 512, inode_start_byte ?blk ?i ?z ?bs - ?blk * ?bs div 512 * 512), s)"
    using assms bs0 gi lba by (simp add: ext2_locate_def byte2blk_def Let_def nth_opt_def blk2byte_def ata_store_type_def)
  have "nat (ino - 1) mod unat (ino_per_group F) < unat (ino_per_group F)" using assms(9) by (simp add: unat_gt_0)
  moreover have "unat (ino_per_group F) < 2 ^ 32" using unat_bound [of "ino_per_group F"] by simp
  ultimately have i32: "nat (ino - 1) mod unat (ino_per_group F) < 2 ^ 32" by (rule less_trans)
  then have ui: "unat ?i = nat (ino - 1) mod unat (ino_per_group F)" by (simp add: unat_of_nat)
  have uf: "unat ?f = unat (inode_table_addr table ?g (kmem s))" and uz: "unat ?z = unat (sz_ino_struct F)"
    using unat_bound [of "inode_table_addr table ?g (kmem s)"] unat_bound [of "sz_ino_struct F"]
    by (simp_all add: unsigned_ucast_eq take_bit_nat_eq_self)
  have small: "unat ?f < 2 ^ 32" "unat ?i < 2 ^ 32" "unat ?z < 2 ^ 16" unfolding ui uf uz using i32
    unat_bound [of "inode_table_addr table ?g (kmem s)"] unat_bound [of "sz_ino_struct F"] by simp_all
  have "1024 * 2 ^ unat ?n \<le> (1024 :: nat) * 2 ^ 20" using n by (intro mult_le_mono power_increasing) auto
  then have B: "1024 * 2 ^ unat ?n \<le> (2 :: nat) ^ 30" by simp
  let ?B = "1024 * 2 ^ unat ?n :: nat" and ?iz = "unat ?i * unat ?z"
  note u = unat_inode_blk [OF _ bs B small]
  have "unat (?blk * ?bs div 512) = (unat ?f + ?iz div ?B) * ?B div 512" using u(2) by (simp add: unat_div)
  also have "(unat ?f + ?iz div ?B) * ?B = 512 * ((unat ?f + ?iz div ?B) * (2 * 2 ^ unat ?n))" by simp
  finally have l: "unat (?blk * ?bs div 512) * 512 = (unat ?f + ?iz div ?B) * ?B" by simp
  have "unat (?blk * ?bs div 512 * 512) = unat (?blk * ?bs div 512) * 512 mod 2 ^ 64" by (simp add: unat_word_ariths)
  also have "\<dots> = unat (?blk * ?bs)" using u(2) unat_bound [of "?blk * ?bs"] unfolding l by simp
  finally have e: "?blk * ?bs div 512 * 512 = ?blk * ?bs" by (simp only: word_unat_eq_iff)
  have off: "unat (inode_start_byte ?blk ?i ?z ?bs - ?blk * ?bs div 512 * 512) = ?iz mod ?B" unfolding e using u(3,4) by simp
  have "(unat ?f + ?iz div ?B) * ?B + ?iz mod ?B = unat ?f * ?B + ?iz" by (simp only: add_mult_distrib add.assoc div_mult_mod_eq)
  then have "unat (?blk * ?bs div 512) * 512 + unat (inode_start_byte ?blk ?i ?z ?bs - ?blk * ?bs div 512 * 512) = unat ?f * ?B + ?iz"
    unfolding off l .
  then show ?thesis using loc off unfolding ui uf uz by (auto simp: Let_def)
qed

subsection \<open>A mounted disk\<close>

text \<open>
  The superblock (blocks of 1024 bytes, 8 inodes of 128 bytes per group) and the block group table are cached; the inode
  table starts at block \<open>b\<close>.
\<close>

definition ext2_kernel :: "u8 \<Rightarrow> disk skernel" where
  "ext2_kernel b = (disk_kernel (ata_store_type demo_disk_bus) 0x100 two_blocks 2 heap_one_free)\<lparr>
    kmem := (\<lambda>_. 0)(0x1028 := 8, 0x1058 := 128, 0x2008 := b), fsnodes := [zero_node\<lparr>mountpoint := Some 1\<rparr>, zero_node],
    mounts := [\<lparr>dev = -1, mfs = Some 0, root_fsnode = 0\<rparr>, \<lparr>dev = 0, mfs = Some 1, root_fsnode = 2\<rparr>]\<rparr>"

lemma ext2_kernel_simps [simp]:
  "kmem (ext2_kernel b) = (\<lambda>_. 0)(0x1028 := 8, 0x1058 := 128, 0x2008 := b)" "mounts (ext2_kernel b) = [\<lparr>dev = -1, mfs = Some 0, root_fsnode = 0\<rparr>, \<lparr>dev = 0, mfs = Some 1, root_fsnode = 2\<rparr>]"
  "fsnodes (ext2_kernel b) = [zero_node\<lparr>mountpoint := Some 1\<rparr>, zero_node]"
  "stores (ext2_kernel b) = \<lparr>stype = Some 0, sdev = demo_ata, bc_first = 0x100\<rparr> # replicate 7 \<lparr>stype = None, sdev = demo_ata, bc_first = 0\<rparr>"
  "bcs (ext2_kernel b) = two_blocks" "bc_cached_count (ext2_kernel b) = 2" "store_types (ext2_kernel b) = Some (ata_store_type demo_disk_bus) # replicate 3 None"
  by (simp_all add: ext2_kernel_def)

lemma ext2_kernel_inv: "cache_inv (ext2_kernel b) ((\<lambda>_. [])(0 := [0x100, 0x200]))"
  using two_blocks_chain by (auto simp: cache_inv_def chains_def MAX_STORES_def MAX_CACHED_BLOCKS_def nth_Cons' lessThan_Suc eval_nat_numeral)

lemma ext2_kernel_get:
  assumes "stores s = stores (ext2_kernel b)" and "bcs s = two_blocks"
  shows "bc_get 0 2 s = Some (1, Some 0x1000, s)" "bc_get 0 4 s = Some (1, Some 0x2000, s)"
  using assms bc_search_chain [OF two_blocks_chain, of 2] bc_search_chain [OF two_blocks_chain, of 4]
  by (simp_all add: bc_get_def get_store_by_id_def MAX_STORES_def nth_opt_def two_blocks_def)

lemma ext2_kernel_disk:
  assumes b: "b = 2 \<or> b = 5" and s: "stores s = stores (ext2_kernel b)" "bcs s = two_blocks"
      "mounts s = mounts (ext2_kernel b)" "kmem s = kmem (ext2_kernel b)" "store_types s = store_types (ext2_kernel b)"
  shows "superblock_at 0x1000 (kmem s) = \<lparr>n_blks = 0, blk_sz = 0, blks_per_group = 0, ino_per_group = 8, vers_major = 0, sz_ino_struct = 128\<rparr>"
    and "inode_table_addr 0x2000 0 (kmem s) = ucast b" and "get_sb 1 s = Some (0x1000, s)"
proof -
  show "superblock_at 0x1000 (kmem s) = \<lparr>n_blks = 0, blk_sz = 0, blks_per_group = 0, ino_per_group = 8, vers_major = 0, sz_ino_struct = 128\<rparr>"
    by (simp add: superblock_at_def load32_def load16_def s(4))
  show "inode_table_addr 0x2000 0 (kmem s) = ucast b"
    using b by (auto simp: inode_table_addr_def sizeof_blkgroup_descriptor_def load32_def load16_def s(4))
  show "get_sb 1 s = Some (0x1000, s)"
    using ext2_kernel_get [OF s(1,2)] by (simp add: get_sb_def nth_opt_def s get_store_by_id_def MAX_STORES_def type_of_def ata_store_type_def)
qed

lemma blk_bytes_0: "blk_bytes 0 = 1024"
  by (simp add: blk_bytes_def shl32_def)

lemma ext2_kernel_locate:
  assumes ino: "ino = 2 \<or> ino = 3" and b: "b = 2 \<or> b = 5" and s: "stores s = stores (ext2_kernel b)" "bcs s = two_blocks"
      "mounts s = mounts (ext2_kernel b)" "kmem s = kmem (ext2_kernel b)" "store_types s = store_types (ext2_kernel b)"
  shows "ext2_locate 1 ino s = Some (Some (4, 2 * ucast b, word_of_int (ino - 1) * 128), s)"
proof -
  note get = ext2_kernel_get [OF s(1,2)] and disk = ext2_kernel_disk [OF b s]
  have lba: "blk2lba 1 blk s = Some (blk * 1024 div 512, s)" for blk
    using disk by (simp add: blk2lba_def nth_opt_def s(1-3,5) get_store_by_id_def MAX_STORES_def type_of_def ata_store_type_def blk2byte_def blk_bytes_0)
  show ?thesis using ino b get
    by (auto simp: ext2_locate_def disk(3) [unfolded One_nat_def] lba [unfolded One_nat_def] disk(1,2) blk_bytes_0 byte2blk_def Let_def nth_opt_def s(1-3,5) signed_divide_int_def signed_modulo_int_def inode_blk_def
        inode_start_byte_def get_store_by_id_def MAX_STORES_def type_of_def ata_store_type_def)
qed

theorem ext2_inode_third_sector_witness: "ext2_node_from_id 2 0 (ext2_kernel 5) = None"
  using ext2_inode_third_sector [OF ext2_kernel_inv, of 0 5 1 0 "ata_store_type demo_disk_bus" 2 4 10 128 "ext2_kernel 5"] ext2_kernel_locate [of 2 5 "ext2_kernel 5"]
  by (simp add: get_store_by_id_def MAX_STORES_def type_of_def nth_opt_def ata_store_type_def)

text \<open>States that differ from the kernel only in the two nodes, both still free.\<close>

definition ext2_like :: "disk skernel \<Rightarrow> bool" where
  "ext2_like s \<longleftrightarrow> stores s = stores (ext2_kernel 2) \<and> bcs s = two_blocks \<and> mounts s = mounts (ext2_kernel 2) \<and> kmem s = kmem (ext2_kernel 2) \<and>
    store_types s = store_types (ext2_kernel 2) \<and> map ntype (fsnodes s) = [EMPTY, EMPTY]"

lemma ext2_like_get_node:
  assumes "ext2_like s" and "ino = 2 \<or> ino = 3"
  shows "\<exists>s1. get_node_byid (kernel_env demo_ro 0) 1 ino s = Some (Some 0, s1) \<and> ext2_like s1"
proof -
  obtain n1 n2 where n: "fsnodes s = [n1, n2]" "ntype n1 = EMPTY" "ntype n2 = EMPTY" using assms(1) by (auto simp: ext2_like_def)
  let ?s = "upd_node 0 (\<lambda>n. n\<lparr>mountpoint := Some 1\<rparr>) s"
  let ?I = "inode_at (0x2000 + word_of_int (ino - 1) * 128) (kmem s)"
  have loc: "ext2_locate 1 ino ?s = Some (Some (4, 2 * ucast (2 :: u8), word_of_int (ino - 1) * 128), ?s)"
    using assms by (intro ext2_kernel_locate) (auto simp: ext2_like_def upd_node_def)
  have get: "bc_get 0 4 ?s = Some (1, Some 0x2000, ?s)" using assms(1) by (intro ext2_kernel_get(2) [where b = 2]) (auto simp: ext2_like_def upd_node_def)
  have "ext2_node_from_id ino 0 ?s = Some (0, upd_node 0 (ext2_fill ino ?I) ?s)"
    using loc get n(1) assms(1) by (simp add: ext2_node_from_id_def nth_opt_def upd_node_def ext2_like_def)
  then have "get_node_byid (kernel_env demo_ro 0) 1 ino s = Some (Some 0, upd_node 0 (ext2_fill ino ?I) ?s)"
    using n assms(1) by (simp add: get_node_byid_def find_free_node_def find_free_node_in_def Let_def nth_opt_def kernel_env_def ext2_type_def upd_node_def ext2_like_def)
  moreover have "ext2_like (upd_node 0 (ext2_fill ino ?I) ?s)" using assms(1) n by (simp add: ext2_like_def upd_node_def ext2_fill_def)
  ultimately show ?thesis by blast
qed

theorem ext2_node_reused_witness:
  "\<exists>s1 s2. get_node_byid (kernel_env demo_ro 0) 1 2 (ext2_kernel 2) = Some (Some 0, s1) \<and> get_node_byid (kernel_env demo_ro 0) 1 3 s1 = Some (Some 0, s2) \<and>
    internal_id (fsnodes s2 ! 0) = 3"
proof -
  have "ext2_like (ext2_kernel 2)" by (simp add: ext2_like_def zero_node_def)
  then obtain s1 where 1: "get_node_byid (kernel_env demo_ro 0) 1 2 (ext2_kernel 2) = Some (Some 0, s1)" "ext2_like s1" using ext2_like_get_node by blast
  then obtain s2 where 2: "get_node_byid (kernel_env demo_ro 0) 1 3 s1 = Some (Some 0, s2)" using ext2_like_get_node by blast
  have "internal_id (fsnodes s2 ! 0) = 3"
    using ext2_node_reused [OF _ _ _ 1(1) 2] by (simp add: zero_node_def)
  with 1(1) 2 show ?thesis by blast
qed

theorem ext2_initmnt_reads_superblock_witness:
  "\<exists>s1. ext2_initmnt 0 (disk_kernel (ata_store_type demo_disk_bus) 0 two_blocks 0 two_free) = Some (0, s1)"
proof -
  let ?s = "disk_kernel (ata_store_type demo_disk_bus) 0 two_blocks 0 two_free"
  have miss: "bc_search two_blocks 2 0 = Some 0" by (simp add: bc_search.simps)
  obtain h1 h2 where h: "kalloc 32 two_free = Some (0x1018, h1)" "kalloc 512 h1 = Some (0x1418, h2)" by (rule two_free_allocs)
  have m: "0 < length (mounts ?s) \<and> dev (mounts ?s ! 0) = 0" by (simp add: disk_kernel_def kernel.defs demo_kernel_def NUM_MOUNTS_def)
  have "\<exists>r s1. bc_get 0 2 ?s = Some (r, Some 0x1418, s1)"
    using miss h by (simp add: bc_get_def get_store_by_id_def MAX_STORES_def nth_opt_def MAX_CACHED_BLOCKS_def sizeof_bc_entry_def type_of_def
        ata_store_type_def Let_def case_prod_beta)
  then obtain r s1 where g: "bc_get 0 2 ?s = Some (r, Some 0x1418, s1)" by blast
  show ?thesis
    using ext2_initmnt_reads_superblock [of 0 ?s 0 demo_disk_bus demo_view r "0x1418" s1] g miss m demo_is_disk
    by (simp add: get_store_by_id_def MAX_STORES_def type_of_def nth_opt_def Let_def demo_disk_def sector_place_def pad_def)
qed

theorem ext2_locate_inode_byte_witness:
  "\<exists>lba off. ext2_locate 1 6 (ext2_kernel 5) = Some (Some (4, lba, off), ext2_kernel 5) \<and> unat lba * 512 + unat off = 5 * 1024 + 5 * 128 \<and> unat off = 640"
proof -
  note d = ext2_kernel_disk [of 5 "ext2_kernel 5"]
  show ?thesis
    using ext2_locate_inode_byte [of 1 "ext2_kernel 5" 0 demo_disk_bus "0x1000" _ 6 4 "0x2000"] d ext2_kernel_get(2) [of "ext2_kernel 5" 5]
    by (simp add: get_store_by_id_def MAX_STORES_def type_of_def nth_opt_def blk2byte_def blk_bytes_0 Let_def)
qed
end
