(* ===== verification/Descriptors.thy ===== *)
theory Descriptors
  imports Process
begin

text \<open>
  The descriptor tables of the processor: \<^verbatim>\<open>arch/x64/memory/gdt.c\<close>, \<^verbatim>\<open>arch/x64/idt.h\<close>, \<open>idt_init\<close> of
  \<^verbatim>\<open>arch/x64/int/idt.c\<close>, the task state segment of \<^verbatim>\<open>arch/x64/cpu.h\<close> and the segment macros of
  \<^verbatim>\<open>arch/x64/memory.h\<close>. The properties read the tables the way the processor does.
\<close>

section \<open>Model\<close>

subsection \<open>Segments\<close>

record segment_selector =
  rpl :: "2 word"
  sel_table :: "1 word"
  sel_entry :: "13 word"

definition as_u16 :: "segment_selector \<Rightarrow> u16" where
  "as_u16 s = ucast (rpl s) OR push_bit 2 (ucast (sel_table s)) OR push_bit 3 (ucast (sel_entry s))"

definition TABLE_GDT :: "1 word" where "TABLE_GDT = 0"

text \<open>A table entry is a union: of a segment descriptor, or of the second half of a system descriptor.\<close>

datatype gdt_table_entry =
    Segment (limit_0_15: u16) (base_0_15: u16) (base_16_23: u8) (access_byte: u8) (limit_16_19_and_flags: u8) (base_24_31: u8)
  | SecondHalf (base_32_63: u32) (reserved_hi: u32)

definition SEG_AB_RW :: u8 where "SEG_AB_RW = 2"
definition SEG_AB_EXEC :: u8 where "SEG_AB_EXEC = 8"
definition SEG_AB_CODE_DATA :: u8 where "SEG_AB_CODE_DATA = 0x10"
definition SEG_AB_DPL :: "u8 \<Rightarrow> u8" where "SEG_AB_DPL n = push_bit 5 (n AND 3)"
definition SEG_AB_PRESENT :: u8 where "SEG_AB_PRESENT = 0x80"
definition SEG_FLAG_LONG :: u8 where "SEG_FLAG_LONG = 2"
definition SEG_FLAG_4K_BLOCKS :: u8 where "SEG_FLAG_4K_BLOCKS = 8"

definition INIT_SEG_DESCRIPTOR :: "u64 \<Rightarrow> u64 \<Rightarrow> u8 \<Rightarrow> u8 \<Rightarrow> gdt_table_entry" where
  "INIT_SEG_DESCRIPTOR base limit access flags =
    Segment (ucast (limit AND 0xffff)) (ucast (base AND 0xffff)) (ucast (drop_bit 16 base AND 0xff)) access
      (ucast (drop_bit 16 limit AND 0xf) OR push_bit 4 (flags AND 0xf)) (ucast (drop_bit 24 base AND 0xff))"

definition INIT_TSS_DESCRIPTOR_FIRST_HALF :: "u64 \<Rightarrow> u64 \<Rightarrow> gdt_table_entry" where
  "INIT_TSS_DESCRIPTOR_FIRST_HALF base limit =
    Segment (ucast (limit AND 0xffff)) (ucast (base AND 0xffff)) (ucast (drop_bit 16 base AND 0xff)) 0b10001001
      (ucast (drop_bit 16 limit AND 0xf) OR push_bit 4 0b1000) (ucast (drop_bit 24 base AND 0xff))"

definition INIT_TSS_DESCRIPTOR_SECOND_HALF :: "u64 \<Rightarrow> gdt_table_entry" where
  "INIT_TSS_DESCRIPTOR_SECOND_HALF base = SecondHalf (ucast (drop_bit 32 base AND 0xffffffff)) 0"

definition gdt_table :: "gdt_table_entry list" where
  "gdt_table =
    [INIT_SEG_DESCRIPTOR 0 0 0 0,
     INIT_SEG_DESCRIPTOR 0 0 (SEG_AB_PRESENT OR SEG_AB_DPL 0 OR SEG_AB_CODE_DATA OR SEG_AB_EXEC OR SEG_AB_RW)
       (SEG_FLAG_LONG OR SEG_FLAG_4K_BLOCKS),
     INIT_SEG_DESCRIPTOR 0 0 (SEG_AB_PRESENT OR SEG_AB_DPL 0 OR SEG_AB_CODE_DATA OR SEG_AB_RW) SEG_FLAG_4K_BLOCKS,
     INIT_SEG_DESCRIPTOR 0 0 (SEG_AB_PRESENT OR SEG_AB_DPL 3 OR SEG_AB_CODE_DATA OR SEG_AB_EXEC OR SEG_AB_RW)
       (SEG_FLAG_LONG OR SEG_FLAG_4K_BLOCKS),
     INIT_SEG_DESCRIPTOR 0 0 (SEG_AB_PRESENT OR SEG_AB_DPL 3 OR SEG_AB_CODE_DATA OR SEG_AB_RW) SEG_FLAG_4K_BLOCKS,
     INIT_TSS_DESCRIPTOR_FIRST_HALF 0 0,
     INIT_TSS_DESCRIPTOR_SECOND_HALF 0]"

record gdtr_image =
  gdt_limit :: u16
  gdt_base :: u64

text \<open>The addresses of \<open>tss\<close> and of \<open>gdt_table\<close> are parameters; \<^verbatim>\<open>sizeof(gdt_table)\<close> is 8 bytes per entry.\<close>

definition x64_init_gdt :: "u64 \<Rightarrow> u64 \<Rightarrow> gdt_table_entry list \<Rightarrow> gdt_table_entry list \<times> gdtr_image" where
  "x64_init_gdt tss_addr gdt_addr g =
    (let g1 = g[5 := INIT_TSS_DESCRIPTOR_FIRST_HALF tss_addr 0];
         g2 = g1[6 := INIT_TSS_DESCRIPTOR_SECOND_HALF tss_addr]
     in (g2, \<lparr>gdt_limit = of_nat (8 * length g2), gdt_base = gdt_addr\<rparr>))"

subsection \<open>Interrupt gates\<close>

definition INIT_IDT_ATTRIBUTES :: "u16 \<Rightarrow> u16 \<Rightarrow> u16 \<Rightarrow> u16" where
  "INIT_IDT_ATTRIBUTES dpl typ ist = 0x8000 OR (ist AND 7) OR push_bit 8 (typ AND 0xf) OR push_bit 13 (dpl AND 3)"

definition IDT_ATTRIBUTES_IST :: "u16 \<Rightarrow> u16" where "IDT_ATTRIBUTES_IST a = a AND 7"
definition IDT_ATTRIBUTES_TYPE :: "u16 \<Rightarrow> u16" where "IDT_ATTRIBUTES_TYPE a = drop_bit 8 a AND 0xf"
definition IDT_ATTRIBUTES_DPL :: "u16 \<Rightarrow> u16" where "IDT_ATTRIBUTES_DPL a = drop_bit 13 a AND 3"
definition IDT_ATTRIBUTES_PRESENT :: "u16 \<Rightarrow> u16" where "IDT_ATTRIBUTES_PRESENT a = drop_bit 15 a AND 1"

definition IDT_ATTRIBUTES_TYPE_TRAP :: u16 where "IDT_ATTRIBUTES_TYPE_TRAP = 0xf"

record idt_entry =
  offset_a :: u16
  segment :: u16
  attributes :: u16
  offset_b :: u16
  offset_c :: u32
  reserved :: u32

definition INIT_IDT_ENTRY :: "segment_selector \<Rightarrow> u16 \<Rightarrow> u64 \<Rightarrow> idt_entry" where
  "INIT_IDT_ENTRY seg attr offset64 =
    \<lparr>offset_a = ucast (offset64 AND 0xffff), segment = as_u16 seg, attributes = attr,
     offset_b = ucast (drop_bit 16 offset64 AND 0xffff), offset_c = ucast (drop_bit 32 offset64 AND 0xffffffff), reserved = 0\<rparr>"

definition IDT_N_ENTRIES :: nat where "IDT_N_ENTRIES = 256"

record idt_descriptor =
  idt_size :: u16
  idt_offset :: u64

definition INIT_IDT_DESCRIPTOR :: "u64 \<Rightarrow> nat \<Rightarrow> idt_descriptor" where
  "INIT_IDT_DESCRIPTOR off n = \<lparr>idt_size = of_nat (n * 16) - 1, idt_offset = off\<rparr>"

text \<open>\<open>idt_load\<close>: the operand of \<^verbatim>\<open>lidt\<close>.\<close>

definition idt_load :: "u64 \<Rightarrow> nat \<Rightarrow> idt_descriptor" where
  "idt_load table_addr n_entries = INIT_IDT_DESCRIPTOR table_addr n_entries"

definition idt_attach_handler :: "nat \<Rightarrow> segment_selector \<Rightarrow> u16 \<Rightarrow> u64 \<Rightarrow> idt_entry list \<Rightarrow> idt_entry list" where
  "idt_attach_handler vec seg attr handler tbl = tbl[vec := INIT_IDT_ENTRY seg attr handler]"

definition IOPB_SIZE :: nat where "IOPB_SIZE = 130"

record tss_t =
  rsp0 :: u64
  rsp1 :: u64
  rsp2 :: u64
  ists :: "u64 list"  \<comment> \<open>\<^verbatim>\<open>ist1\<close> to \<^verbatim>\<open>ist7\<close>\<close>
  io_bitmap_offset :: u16
  iopb :: "u8 list"

definition offsetof_iopb :: u16 where
  "offsetof_iopb = 4 + 3 * 8 + 8 + 7 * 8 + 8 + 2 + 2"

text \<open>
  \<open>idt_init\<close>: the table of gates, the task state segment and the page frames after it. \<open>isr v\<close> is the
  address of the assembly routine \<^verbatim>\<open>__isr_v\<close>.
\<close>

definition isr_seg :: segment_selector where
  "isr_seg = \<lparr>rpl = 0, sel_table = TABLE_GDT, sel_entry = 1\<rparr>"

definition isr_attr :: u16 where
  "isr_attr = INIT_IDT_ATTRIBUTES 0 IDT_ATTRIBUTES_TYPE_TRAP 0"

definition idt_init :: "(nat \<Rightarrow> u64) \<Rightarrow> u64 \<Rightarrow> idt_entry list \<Rightarrow> pmm \<Rightarrow> idt_entry list \<times> tss_t \<times> pmm" where
  "idt_init isr hhdm_offset tbl s =
    (let attach = (\<lambda>v. idt_attach_handler v isr_seg isr_attr (isr v));
         t1 = fold attach [0x00, 0x01, 0x02, 0x03, 0x04, 0x05, 0x06, 0x07, 0x10, 0x12, 0x13, 0x20, 0x21, 0x2e] tbl;
         t2 = idt_attach_handler 0xf0 isr_seg (INIT_IDT_ATTRIBUTES 3 IDT_ATTRIBUTES_TYPE_TRAP 0) (isr 0xf0) t1;
         t3 = fold attach [0x08, 0x0a, 0x0b, 0x0c, 0x0d, 0x0e, 0x11] t2;
         (stack, s1) = allocate_stack hhdm_offset s
     in (t3, \<lparr>rsp0 = stack, rsp1 = 0, rsp2 = 0, ists = replicate 7 0, io_bitmap_offset = offsetof_iopb,
              iopb = (replicate IOPB_SIZE 0)[IOPB_SIZE - 1 := 0xff]\<rparr>, s1))"

section \<open>How the processor reads the tables\<close>

definition gate_offset :: "idt_entry \<Rightarrow> u64" where
  "gate_offset e = ucast (offset_a e) OR push_bit 16 (ucast (offset_b e)) OR push_bit 32 (ucast (offset_c e))"

definition seg_dpl :: "gdt_table_entry \<Rightarrow> u8" where "seg_dpl d = drop_bit 5 (access_byte d) AND 3"
definition seg_present :: "gdt_table_entry \<Rightarrow> bool" where "seg_present d \<longleftrightarrow> bit (access_byte d) 7"
definition seg_code_data :: "gdt_table_entry \<Rightarrow> bool" where "seg_code_data d \<longleftrightarrow> bit (access_byte d) 4"
definition seg_exec :: "gdt_table_entry \<Rightarrow> bool" where "seg_exec d \<longleftrightarrow> bit (access_byte d) 3"
definition seg_rw :: "gdt_table_entry \<Rightarrow> bool" where "seg_rw d \<longleftrightarrow> bit (access_byte d) 1"
definition seg_long :: "gdt_table_entry \<Rightarrow> bool" where "seg_long d \<longleftrightarrow> bit (limit_16_19_and_flags d) 5"

definition system_base :: "gdt_table_entry \<Rightarrow> gdt_table_entry \<Rightarrow> u64" where
  "system_base lo hi = ucast (base_0_15 lo) OR push_bit 16 (ucast (base_16_23 lo)) OR push_bit 24 (ucast (base_24_31 lo)) OR
    push_bit 32 (ucast (base_32_63 hi))"

text \<open>With the granularity bit the limit counts pages.\<close>

definition system_limit :: "gdt_table_entry \<Rightarrow> u64" where
  "system_limit lo =
    (let l = ucast (limit_0_15 lo) OR push_bit 16 (ucast (limit_16_19_and_flags lo AND 0xf))
     in if bit (limit_16_19_and_flags lo) 7 then push_bit 12 l OR 0xfff else l)"

text \<open>The descriptor that a selector in a register refers to.\<close>

definition selected :: "u64 \<Rightarrow> gdt_table_entry list \<Rightarrow> gdt_table_entry" where
  "selected sel g = g ! unat (drop_bit 3 sel)"

section \<open>Fields and masks\<close>

lemma u64_masks: "(0xffff :: u64) = mask 16" "(0xff :: u64) = mask 8" "(0xffffffff :: u64) = mask 32" "(0xf :: u64) = mask 4"
  by (simp_all add: mask_eq_exp_minus_1)

lemma gate_offset_entry: "gate_offset (INIT_IDT_ENTRY seg attr h) = h"
proof (rule bit_word_eqI)
  fix n
  assume "n < LENGTH(64)"
  then consider "n < 16" | "16 \<le> n" "n < 32" | "32 \<le> n" "n < 64" by fastforce
  then show "bit (gate_offset (INIT_IDT_ENTRY seg attr h)) n = bit h n"
    by cases (auto simp: gate_offset_def INIT_IDT_ENTRY_def u64_masks bit_or_iff bit_push_bit_iff bit_unsigned_iff
        bit_and_iff bit_mask_iff bit_drop_bit_eq)
qed

lemma system_base_tss: "system_base (INIT_TSS_DESCRIPTOR_FIRST_HALF b l) (INIT_TSS_DESCRIPTOR_SECOND_HALF b) = b"
proof (rule bit_word_eqI)
  fix n
  assume "n < LENGTH(64)"
  then consider "n < 16" | "16 \<le> n" "n < 24" | "24 \<le> n" "n < 32" | "32 \<le> n" "n < 64" by fastforce
  then show "bit (system_base (INIT_TSS_DESCRIPTOR_FIRST_HALF b l) (INIT_TSS_DESCRIPTOR_SECOND_HALF b)) n = bit b n"
    by cases (auto simp: system_base_def INIT_TSS_DESCRIPTOR_FIRST_HALF_def INIT_TSS_DESCRIPTOR_SECOND_HALF_def u64_masks
        bit_or_iff bit_push_bit_iff bit_unsigned_iff bit_and_iff bit_mask_iff bit_drop_bit_eq)
qed

lemma isr_seg_u16: "as_u16 isr_seg = 8"
  by (simp add: as_u16_def isr_seg_def TABLE_GDT_def)

lemma attach_length [simp]: "length (idt_attach_handler v seg attr h tbl) = length tbl"
  by (simp add: idt_attach_handler_def)

lemma attach_all:
  "length (fold (\<lambda>v. idt_attach_handler v seg attr (isr v)) vs tbl) = length tbl"
  "v < length tbl \<Longrightarrow> fold (\<lambda>v. idt_attach_handler v seg attr (isr v)) vs tbl ! v =
    (if v \<in> set vs then INIT_IDT_ENTRY seg attr (isr v) else tbl ! v)"
  by (induction vs arbitrary: tbl) (auto simp: idt_attach_handler_def nth_list_update)

lemma attach_one:
  "v < length tbl \<Longrightarrow> idt_attach_handler w seg attr h tbl ! v = (if v = w then INIT_IDT_ENTRY seg attr h else tbl ! v)"
  by (auto simp: idt_attach_handler_def nth_list_update)

lemma attributes_decode:
  assumes "d < 4" and "y < 16" and "i < 8"
  shows "IDT_ATTRIBUTES_PRESENT (INIT_IDT_ATTRIBUTES d y i) = 1" and "IDT_ATTRIBUTES_DPL (INIT_IDT_ATTRIBUTES d y i) = d"
    and "IDT_ATTRIBUTES_TYPE (INIT_IDT_ATTRIBUTES d y i) = y" and "IDT_ATTRIBUTES_IST (INIT_IDT_ATTRIBUTES d y i) = i"
proof -
  have m: "(7 :: u16) = mask 3" "(0xf :: u16) = mask 4" "(3 :: u16) = mask 2" "(0x8000 :: u16) = push_bit 15 1"
    by (simp_all add: mask_eq_exp_minus_1)
  have small: "x = take_bit k x" if "unat x < 2 ^ k" for x :: u16 and k
    using that by (simp add: word_unat_eq_iff unsigned_take_bit_eq take_bit_nat_eq_self)
  have d: "d = take_bit 2 d" and y: "y = take_bit 4 y" and i: "i = take_bit 3 i"
    using assms by (intro small; simp add: word_less_nat_alt)+
  note defs = INIT_IDT_ATTRIBUTES_def IDT_ATTRIBUTES_PRESENT_def IDT_ATTRIBUTES_DPL_def IDT_ATTRIBUTES_TYPE_def
    IDT_ATTRIBUTES_IST_def m
  note bits = bit_or_iff bit_and_iff bit_push_bit_iff bit_drop_bit_eq bit_mask_iff bit_1_iff
  show "IDT_ATTRIBUTES_PRESENT (INIT_IDT_ATTRIBUTES d y i) = 1" unfolding defs by (rule bit_word_eqI) (auto simp: bits)
  show "IDT_ATTRIBUTES_DPL (INIT_IDT_ATTRIBUTES d y i) = d" unfolding defs by (subst (2) d, rule bit_word_eqI) (simp only: bits comp_apply bit_take_bit_iff, auto)
  show "IDT_ATTRIBUTES_TYPE (INIT_IDT_ATTRIBUTES d y i) = y" unfolding defs by (subst (2) y, rule bit_word_eqI) (simp only: bits comp_apply bit_take_bit_iff, auto)
  show "IDT_ATTRIBUTES_IST (INIT_IDT_ATTRIBUTES d y i) = i" unfolding defs by (subst (2) i, rule bit_word_eqI) (simp only: bits comp_apply bit_take_bit_iff, auto)
qed

section \<open>Properties\<close>

definition zero_gate :: idt_entry where
  "zero_gate = \<lparr>offset_a = 0, segment = 0, attributes = 0, offset_b = 0, offset_c = 0, reserved = 0\<rparr>"

definition attached :: "nat list" where
  "attached = [0x00, 0x01, 0x02, 0x03, 0x04, 0x05, 0x06, 0x07, 0x08, 0x0a, 0x0b, 0x0c, 0x0d, 0x0e, 0x10, 0x11, 0x12, 0x13,
     0x20, 0x21, 0x2e, 0xf0]"

lemma idt_init_nth:
  assumes "v < 256"
  shows "fst (idt_init isr hh (replicate IDT_N_ENTRIES zero_gate) s) ! v =
    (if v \<in> set attached then INIT_IDT_ENTRY isr_seg (if v = 0xf0 then INIT_IDT_ATTRIBUTES 3 IDT_ATTRIBUTES_TYPE_TRAP 0 else isr_attr) (isr v)
     else zero_gate)"
proof -
  note n = assms attach_all attach_one
  have "fst (idt_init isr hh (replicate IDT_N_ENTRIES zero_gate) s) ! v =
      (if v \<in> {0x08, 0x0a, 0x0b, 0x0c, 0x0d, 0x0e, 0x11} then INIT_IDT_ENTRY isr_seg isr_attr (isr v)
       else if v = 0xf0 then INIT_IDT_ENTRY isr_seg (INIT_IDT_ATTRIBUTES 3 IDT_ATTRIBUTES_TYPE_TRAP 0) (isr 0xf0)
       else if v \<in> {0x00, 0x01, 0x02, 0x03, 0x04, 0x05, 0x06, 0x07, 0x10, 0x12, 0x13, 0x20, 0x21, 0x2e}
       then INIT_IDT_ENTRY isr_seg isr_attr (isr v) else zero_gate)"
    unfolding idt_init_def Let_def split_beta fst_conv IDT_N_ENTRIES_def
    by (subst attach_all(2), simp add: n del: fold_simps, subst attach_one, simp add: n del: fold_simps,
        subst attach_all(2), simp add: n, simp add: assms)
  then show ?thesis by (auto simp: attached_def)
qed

text \<open>
  C39: The interrupt descriptor table that \<open>idt_init\<close> builds, as the processor reads it: a vector in the list
  has a present trap gate in the kernel's code segment that leads to its routine, callable from ring 3
  for the system call vector only; every other vector (also 0x2f, the second ATA channel) has no gate; and
  the size given to the processor is that of the whole table.
\<close>

theorem idt_init_gates:
  assumes "v < 256" and "e = fst (idt_init isr hh (replicate IDT_N_ENTRIES zero_gate) s) ! v"
  shows "(if v \<in> set attached
      then IDT_ATTRIBUTES_PRESENT (attributes e) = 1 \<and> gate_offset e = isr v \<and> ucast (segment e) = KERNEL_CS \<and>
        IDT_ATTRIBUTES_TYPE (attributes e) = IDT_ATTRIBUTES_TYPE_TRAP \<and> IDT_ATTRIBUTES_IST (attributes e) = 0 \<and>
        IDT_ATTRIBUTES_DPL (attributes e) = (if v = 0xf0 then 3 else 0)
      else IDT_ATTRIBUTES_PRESENT (attributes e) = 0) \<and>
    0x2f \<notin> set attached \<and> unat (idt_size (idt_load addr IDT_N_ENTRIES)) + 1 = 16 * 256"
proof -
  have a: "IDT_ATTRIBUTES_PRESENT (INIT_IDT_ATTRIBUTES d 0xf 0) = 1 \<and> IDT_ATTRIBUTES_DPL (INIT_IDT_ATTRIBUTES d 0xf 0) = d \<and>
      IDT_ATTRIBUTES_TYPE (INIT_IDT_ATTRIBUTES d 0xf 0) = 0xf \<and> IDT_ATTRIBUTES_IST (INIT_IDT_ATTRIBUTES d 0xf 0) = 0" if "d < 4" for d
    using attributes_decode [OF that, of "0xf" 0] by simp
  have s: "ucast (segment (INIT_IDT_ENTRY isr_seg at h)) = KERNEL_CS" "attributes (INIT_IDT_ENTRY isr_seg at h) = at" for at h
    by (simp_all add: INIT_IDT_ENTRY_def isr_seg_u16 KERNEL_CS_def)
  have z: "IDT_ATTRIBUTES_PRESENT (attributes zero_gate) = 0" by (simp add: zero_gate_def IDT_ATTRIBUTES_PRESENT_def)
  have "unat (idt_size (idt_load addr IDT_N_ENTRIES)) + 1 = 16 * 256"
    by (simp add: idt_load_def INIT_IDT_DESCRIPTOR_def IDT_N_ENTRIES_def)
  moreover have "0x2f \<notin> set attached" by (simp add: attached_def)
  ultimately show ?thesis
    using a [of 0] a [of 3] z unfolding assms(2) idt_init_nth [OF assms(1)]
    by (simp add: s gate_offset_entry isr_attr_def IDT_ATTRIBUTES_TYPE_TRAP_def)
qed

theorem idt_init_gates_witness:
  "gate_offset (fst (idt_init (\<lambda>v. 0xffffffff80001000 + 16 * of_nat v) 0 (replicate IDT_N_ENTRIES zero_gate) three_frames) ! 0x20) = 0xffffffff80001200"
  using idt_init_gates [of "0x20" _ "\<lambda>v. 0xffffffff80001000 + 16 * of_nat v" 0 three_frames] by (simp add: attached_def)

text \<open>
  C40: The selectors the kernel gives to processes fit the descriptor table: each of the four refers to a
  present, readable or writable code or data segment whose privilege level is the one requested, code
  segments are executable and 64-bit, data segments are not; and the task register's selector 0x28 refers
  to an available task state segment at the address of \<open>tss\<close> whose limit covers all of it.
\<close>

theorem selectors_fit_descriptors:
  assumes "g = fst (x64_init_gdt tss_addr gdt_addr gdt_table)" and "sel \<in> {KERNEL_CS, KERNEL_SS, USER_CS, USER_SS}"
  shows "seg_present (selected sel g) \<and> seg_code_data (selected sel g) \<and> seg_rw (selected sel g) \<and>
    seg_dpl (selected sel g) = ucast (sel AND 3) \<and>
    seg_exec (selected sel g) = (sel \<in> {KERNEL_CS, USER_CS}) \<and> seg_long (selected sel g) = (sel \<in> {KERNEL_CS, USER_CS}) \<and>
    system_base (selected 0x28 g) (g ! 6) = tss_addr \<and> access_byte (selected 0x28 g) = 0x89 \<and>
    offsetof_iopb = 104 \<and> 104 + 130 \<le> system_limit (selected 0x28 g)"
proof -
  note defs = selected_def x64_init_gdt_def gdt_table_def Let_def INIT_SEG_DESCRIPTOR_def
    SEG_AB_PRESENT_def SEG_AB_DPL_def SEG_AB_CODE_DATA_def SEG_AB_EXEC_def SEG_AB_RW_def SEG_FLAG_LONG_def SEG_FLAG_4K_BLOCKS_def
  have g: "g ! 5 = INIT_TSS_DESCRIPTOR_FIRST_HALF tss_addr 0" "g ! 6 = INIT_TSS_DESCRIPTOR_SECOND_HALF tss_addr"
    unfolding assms(1) by (simp_all add: x64_init_gdt_def gdt_table_def Let_def)
  have sel: "seg_present (selected sel g) \<and> seg_code_data (selected sel g) \<and> seg_rw (selected sel g) \<and>
      seg_dpl (selected sel g) = ucast (sel AND 3) \<and>
      seg_exec (selected sel g) = (sel \<in> {KERNEL_CS, USER_CS}) \<and> seg_long (selected sel g) = (sel \<in> {KERNEL_CS, USER_CS})"
    using assms(2) unfolding assms(1)
    by (auto simp: defs KERNEL_CS_def KERNEL_SS_def USER_CS_def USER_SS_def
        seg_present_def seg_code_data_def seg_rw_def seg_dpl_def seg_exec_def seg_long_def)
  have "selected 0x28 g = INIT_TSS_DESCRIPTOR_FIRST_HALF tss_addr 0" using g(1) by (simp add: selected_def)
  then show ?thesis using sel g(2) system_base_tss
    by (simp add: offsetof_iopb_def) (simp add: INIT_TSS_DESCRIPTOR_FIRST_HALF_def system_limit_def Let_def)
qed

theorem selectors_fit_descriptors_witness:
  "seg_dpl (selected USER_CS (fst (x64_init_gdt 0xffffffff80005000 0x1000 gdt_table))) = ucast (USER_CS AND 3)"
  using selectors_fit_descriptors [of _ "0xffffffff80005000" "0x1000" USER_CS] by simp

end
