(* ===== verification/Boot.thy ===== *)
theory Boot
  imports Ext2 Descriptors
begin

text \<open>
  Start-up: \<^verbatim>\<open>arch/x64/init.c\<close>, \<^verbatim>\<open>arch/x64/memory/init.c\<close> and \<^verbatim>\<open>_start\<close> of \<^verbatim>\<open>generic/main.c\<close>, which
  run the initialisation of all components in order and create the first process. What the boot loader, the linker and
  the assembly stubs provide is in \<open>boot_info\<close> and \<open>link_info\<close>. A panic and the endless loop without a serial port are \<open>None\<close>.
\<close>

section \<open>Model\<close>

text \<open>Addresses of routines, objects and string literals.\<close>

record link_info =
  boot_cr3 :: u64
  tss_addr :: u64
  gdt_addr :: u64
  isr_addr :: "nat \<Rightarrow> u64"
  msg_testing :: u64
  msg_ready :: u64
  temp_page :: u64
  kernel_start :: u64
  task1_addr :: u64
  str_initial :: u64
  str_atapio :: u64
  str_pm :: u64
  types_base :: u64
  fslinks_base :: u64
  rodata :: tfs_rodata

record 'd system =
  kern_st :: "'d skernel"
  gdt :: "gdt_table_entry list"
  gdtr :: gdtr_image
  idt :: "idt_entry list"
  tss :: tss_t
  com_tab :: "uart_com_port list"
  uart_port :: "nat option"
  rq :: sched
  clock :: "(sched \<times> int) timer"

text \<open>The root tables of the processes that are present, as \<open>vmap\<close> reads them from \<open>procs\<close>.\<close>

definition proc_roots :: "'x kproc_scheme \<Rightarrow> u64 option list" where
  "proc_roots s = map (\<lambda>p. if present p then Some (cr3 (ctx p)) else None) (procs s)"

definition memory_initialise :: "link_info \<Rightarrow> boot_info \<Rightarrow> 'd system \<Rightarrow> 'd system option" where
  "memory_initialise li bi S = do {
    let k = kern_st S;
    f1 \<leftarrow> x64_init_physical_memory (memmap bi) (frames k);
    let (pml4, hhdm_offset) = x64_init_virtual_memory (hhdm bi) (boot_cr3 li);
    let (g, gr) = x64_init_gdt (tss_addr li) (gdt_addr li) (gdt S);
    let (t, ts, f2) = idt_init (isr_addr li) hhdm_offset (idt S) f1;
    let kheap_start = heap_start bi;
    let (page, f3) = pfalloc_one f2;
    (r, f4) \<leftarrow> vmap (trans bi) pml4 (proc_roots k) (-1) page kheap_start (VMAP_4K OR VMAP_WRIT) f3;
    (if r < 0 then None
     else do {
       (_, h) \<leftarrow> buddy_init ARCH_PAGE_SIZE kheap_start 5 (kheap k);
       Some (S\<lparr>kern_st := k\<lparr>frames := f4, kheap := h\<rparr>, gdt := g, gdtr := gr, idt := t, tss := ts\<rparr>) }) }"

definition arch_early_setup :: "'d bus \<Rightarrow> link_info \<Rightarrow> 'd system \<Rightarrow> 'd system option" where
  "arch_early_setup B li S = do {
    (r, ports, up, d) \<leftarrow> x64_uart_init B (msg_testing li) (msg_ready li) (kmem (kern_st S)) (devices (kern_st S));
    (if r < 0 then None
     else Some (S\<lparr>kern_st := (kern_st S)\<lparr>devices := d\<rparr>, com_tab := ports, uart_port := up\<rparr>)) }"

definition arch_initialise :: "'d bus \<Rightarrow> link_info \<Rightarrow> boot_info \<Rightarrow> 'd system \<Rightarrow> 'd system option" where
  "arch_initialise B li bi S = do {
    S1 \<leftarrow> arch_early_setup B li S;
    S2 \<leftarrow> memory_initialise li bi S1;
    let d1 = pic_map B PIC_FIRST_VECTOR (PIC_FIRST_VECTOR + 8) (devices (kern_st S2));
    Some (S2\<lparr>kern_st := (kern_st S2)\<lparr>devices := pic_unblock_irq B PIC_IRQ_KEYBOARD d1\<rparr>\<rparr>) }"

text \<open>
  The part of \<^verbatim>\<open>_start\<close> that creates the first process: two frames for its code and its stack, its code is
  copied through the temporary mapping, and both frames are mapped into its address space.
\<close>

definition USER_START :: u64 where "USER_START = 0x200000000"

definition map_user_page :: "boot_info \<Rightarrow> int \<Rightarrow> u64 \<Rightarrow> u64 \<Rightarrow> 'd skernel \<Rightarrow> 'd skernel option" where
  "map_user_page bi t pa va k = do {
    (r, f) \<leftarrow> vmap (trans bi) (kernel_pml4_table bi) (proc_roots k) t pa va (VMAP_4K OR VMAP_EXEC OR VMAP_USER OR VMAP_WRIT) (frames k);
    (if r < 0 then None else Some (k\<lparr>frames := f\<rparr>)) }"

definition start_initial :: "'d bus \<Rightarrow> link_info \<Rightarrow> boot_info \<Rightarrow> 'd system \<Rightarrow> 'd system option" where
  "start_initial B li bi S = do {
    let k = kern_st S;
    let (user_code_phys, f1) = pfalloc_one (frames k);
    let (user_stack, f2) = pfalloc_one f1;
    let user_stack_top_page = kernel_start li - 4096;
    let (tmp, f3) = tmpmap (trans bi) (kernel_pml4_table bi) (temp_page li) user_code_phys f2;
    let m = (if tmp \<noteq> 0 then snd (memcpy tmp (task1_addr li) 4096 (kmem k)) else kmem k);
    (t, k1) \<leftarrow> create_process bi (str_initial li) USER_START 0 (user_stack_top_page + 4095) True (k\<lparr>frames := f3, kmem := m\<rparr>);
    k2 \<leftarrow> map_user_page bi t user_code_phys USER_START k1;
    k3 \<leftarrow> map_user_page bi t user_stack user_stack_top_page k2;
    Some (S\<lparr>kern_st := k3\<lparr>devices := pic_unblock_irq B PIC_IRQ_PITTIMER (devices k3)\<rparr>, rq := snd (enqueue_proc t (rq S)),
            clock := arch_start_running_procs (clock S)\<rparr>) }"

definition start_kernel :: "'d bus \<Rightarrow> link_info \<Rightarrow> boot_info \<Rightarrow> 'd system \<Rightarrow> 'd system option" where
  "start_kernel B li bi S = do {
    S1 \<leftarrow> arch_initialise B li bi S;
    k \<leftarrow> start_filesystems B (types_base li) (str_atapio li) (str_pm li) (rodata li) (fslinks_base li) (kern_st S1);
    start_initial B li bi (S1\<lparr>kern_st := k\<rparr>) }"

section \<open>Memory\<close>

lemma pt_ok_alloc:
  assumes "pt_ok s F lv own" and "F \<noteq> {}"
  obtains n s' where "pfalloc_one s = (n, s')" and "n \<in> F" and "page_aligned n" and "n < 2 ^ 47" and "pt_ok s' (F - {n}) lv own"
    and "\<forall>t k i. lv t = Some k \<and> i < 512 \<longrightarrow> ent s' t i = ent s t i"
proof -
  have pl: "pmm_pool s F" and lt: "\<forall>f \<in> F. f < 2 ^ 47" and tb: "tables_ok s F lv own" using assms(1) by (auto simp: pt_ok_def)
  obtain n s' where n: "pfalloc_one s = (n, s')" "n \<in> F" "page_aligned n" "pmm_pool s' (F - {n})"
      "\<And>u j. page_aligned u \<Longrightarrow> u \<notin> F \<Longrightarrow> j < 512 \<Longrightarrow> ent s' u j = ent s u j"
    using pool_alloc [OF pl assms(2)] by blast
  have "tables_ok s' (F - {n}) lv own" using tb n(5) unfolding tables_ok_def by fastforce
  moreover have "\<forall>t k i. lv t = Some k \<and> i < 512 \<longrightarrow> ent s' t i = ent s t i" using tb n(5) unfolding tables_ok_def by blast
  ultimately show thesis using that n lt by (auto simp: pt_ok_def)
qed

lemma heap_map_flags: "ucast (vmap_flags (VMAP_4K OR VMAP_WRIT) OR PSE_PRESENT) = (3 :: u32)"
  by (simp add: vmap_flags_def VMAP_4K_def VMAP_WRIT_def VMAP_USER_def VMAP_EXEC_def PSE_WRITABLE_def PSE_PRESENT_def PSE_XD_def)

lemma idt_init_frames: "snd (snd (idt_init isr off tbl f)) = snd (pfalloc_one f)"
  by (simp add: idt_init_def allocate_stack_def Let_def case_prod_beta)

lemma boot_pool_tables:
  assumes "frame_list s = 0" and "free_frames s = 0" and "distinct (boot_frames ents)"
    and al: "\<forall>x \<in> set (boot_frames ents). page_aligned x \<and> x \<noteq> 0 \<and> x < 2 ^ 47"
    and "whole_pages ents"
    and tb: "tables_ok s (set (boot_frames ents)) lv own"
  obtains f where "x64_init_physical_memory ents s = Some f" and "pt_ok f (set (boot_frames ents)) lv own"
    and "\<forall>t k i. lv t = Some k \<and> i < 512 \<longrightarrow> ent f t i = ent s t i"
proof -
  let ?U = "set (boot_frames ents)"
  have "frames_ok s []" using assms(1,2) by (simp add: frames_ok_def)
  then obtain f ys where f: "x64_init_physical_memory ents s = Some f" "frames_ok f ys" "set ys = ?U"
      "\<forall>a. a \<notin> marker_words ?U \<longrightarrow> pmem f a = pmem s a"
    using memmap_loop_ok [of s "[]" "rev ents"] assms(3-5) by (auto simp: boot_frames_rev_set x64_init_physical_memory_def)
  have e: "ent f t i = ent s t i" if "lv t = Some k" "i < 512" for t k i
  proof -
    have "page_aligned t" "t \<notin> ?U" using tb that(1) by (auto simp: tables_ok_def)
    then have "slot t i \<notin> marker_words ?U" using al that(2) by (intro slot_notin_markers) auto
    then show ?thesis using f(4) by (simp add: ent_def)
  qed
  have "tables_ok f ?U lv own" using tb e unfolding tables_ok_def by (metis (no_types, lifting))
  then show thesis using that f al e by (auto simp: pt_ok_def pmm_pool_def)
qed

lemma mapped_page_lookup:
  assumes "map_post tr hh P root phys virt s F 0 s'" and "page_aligned phys" and "phys < 2 ^ 47" and "vpage v = vpage virt"
  shows "map_lookup tr hh P v s' = (0, of_nat ((unat phys + unat (EXTRACT_4K_PAGE_OFFSET v)) mod 2 ^ 32))"
proof -
  have "EXTRACT_4K_PAGE_OFFSET v \<le> 0xfff" unfolding EXTRACT_4K_PAGE_OFFSET_def by (rule word_and_le1)
  then have "EXTRACT_4K_PAGE_OFFSET v < 4096" by (rule order.strict_trans1) simp
  then show ?thesis using set_addr_eq [OF assms(2,3)] assms(1,4) by (simp add: map_post_def)
qed

section \<open>Properties\<close>

text \<open>
  C36: \<open>memory_initialise\<close> sets up the kernel heap. With a memory map from which boot takes at least two frames (aligned, distinct, below
  \<open>2 ^ 47\<close>, from regions of whole pages) and boot page tables outside of these frames, it panics exactly if the heap page can not be mapped,
  and the page tables are as the boot loader left them when that is tried. Otherwise the heap is well formed with one free block of a page
  at \<^verbatim>\<open>_FORS_HEAP_START\<close>, that page translates to a frame of the pool (below 4 GiB to the right address), and neither this frame
  nor the one of the kernel stack is in the pool or a page table any more.
\<close>

theorem memory_initialise_heap:
  assumes "frame_list (frames (kern_st S)) = 0" and "free_frames (frames (kern_st S)) = 0" and "distinct (boot_frames (memmap bi))"
    and "\<forall>x \<in> set (boot_frames (memmap bi)). page_aligned x \<and> x \<noteq> 0 \<and> x < 2 ^ 47" and "whole_pages (memmap bi)"
    and "2 \<le> length (boot_frames (memmap bi))"
    and "direct_map (trans bi) (hhdm bi)" and "points_to (trans bi) (hhdm bi + boot_cr3 li) root" and "lv root = Some 4"
    and "tables_ok (frames (kern_st S)) (set (boot_frames (memmap bi))) lv own"
    and "heap_start bi \<noteq> 0" and "4096 dvd unat (heap_start bi)"
  shows "\<exists>stack page f r f'. stack \<in> set (boot_frames (memmap bi)) \<and> page \<in> set (boot_frames (memmap bi)) \<and> stack \<noteq> page \<and>
    (\<forall>t k i. lv t = Some k \<and> i < 512 \<longrightarrow> ent f t i = ent (frames (kern_st S)) t i) \<and>
    map_page_4k (trans bi) (hhdm bi + boot_cr3 li) page (heap_start bi) 3 f = (r, f') \<and> r \<in> {0, ENOMEM, EGENERIC} \<and>
    (if r \<noteq> 0 then memory_initialise li bi S = None
     else \<exists>S' F lv' own'. memory_initialise li bi S = Some S' \<and> frames (kern_st S') = f' \<and>
       heap_ok (kheap (kern_st S')) ((\<lambda>_. [])(7 := [heap_start bi])) {} \<and>
       pt_ok f' F lv' own' \<and> F \<subseteq> set (boot_frames (memmap bi)) - {stack, page} \<and>
       rsp0 (tss S') = hhdm bi + stack + 4096 \<and>
       (\<forall>v. vpage v = vpage (heap_start bi) \<longrightarrow> map_lookup (trans bi) (hhdm bi) (hhdm bi + boot_cr3 li) v f' =
         (0, of_nat ((unat page + unat (EXTRACT_4K_PAGE_OFFSET v)) mod 2 ^ 32))))"
proof -
  let ?U = "set (boot_frames (memmap bi))" and ?P = "hhdm bi + boot_cr3 li"
  obtain f1 where f1: "x64_init_physical_memory (memmap bi) (frames (kern_st S)) = Some f1" and pt: "pt_ok f1 ?U lv own"
      and e1: "\<forall>t k i. lv t = Some k \<and> i < 512 \<longrightarrow> ent f1 t i = ent (frames (kern_st S)) t i"
    by (rule boot_pool_tables [OF assms(1-5,10)])
  have "?U \<noteq> {}" using assms(6) by auto
  with pt obtain stack f2 where st: "pfalloc_one f1 = (stack, f2)" "stack \<in> ?U" "pt_ok f2 (?U - {stack}) lv own"
      "\<forall>t k i. lv t = Some k \<and> i < 512 \<longrightarrow> ent f2 t i = ent f1 t i" by (rule pt_ok_alloc) blast
  have "card ?U = length (boot_frames (memmap bi))" using assms(3) by (rule distinct_card)
  moreover have "card ?U \<le> 1" if "?U - {stack} = {}" using that card_mono [of "{stack}" ?U] by auto
  ultimately have "?U - {stack} \<noteq> {}" using assms(6) by linarith
  with st(3) obtain page f3 where pg: "pfalloc_one f2 = (page, f3)" "page \<in> ?U - {stack}" "page_aligned page" "page < 2 ^ 47" "pt_ok f3 (?U - {stack} - {page}) lv own"
      "\<forall>t k i. lv t = Some k \<and> i < 512 \<longrightarrow> ent f3 t i = ent f2 t i"
    by (rule pt_ok_alloc) blast
  have e3: "\<forall>t k i. lv t = Some k \<and> i < 512 \<longrightarrow> ent f3 t i = ent (frames (kern_st S)) t i" using e1 st(4) pg(6) by auto
  obtain r f4 where m: "map_page_4k (trans bi) ?P page (heap_start bi) 3 f3 = (r, f4)" "r \<in> {0, ENOMEM, EGENERIC}"
      and post: "map_post (trans bi) (hhdm bi) ?P root page (heap_start bi) f3 (?U - {stack} - {page}) r f4"
    using map_page_4k_ok [OF assms(7,8) pg(5) assms(9), of 3 page "heap_start bi"] by (auto simp: flags_ok_def)
  obtain h where h: "buddy_init ARCH_PAGE_SIZE (heap_start bi) 5 (kheap (kern_st S)) = Some (0, h)" "heap_ok h ((\<lambda>_. [])(7 := [heap_start bi])) {}"
    using buddy_init_heap [of ARCH_PAGE_SIZE 12 5 "heap_start bi" "kheap (kern_st S)"] assms(11,12) by (auto simp: ARCH_PAGE_SIZE_def)
  obtain t ts where i: "idt_init (isr_addr li) (hhdm bi) (idt S) f1 = (t, ts, f2)" "rsp0 ts = hhdm bi + stack + 4096"
    using st(1) by (simp add: idt_init_def allocate_stack_def Let_def ARCH_PAGE_SIZE_def)
  have v: "vmap (trans bi) ?P (proc_roots (kern_st S)) (-1) page (heap_start bi) (VMAP_4K OR VMAP_WRIT) f3 = Some (r, f4)"
    using m(1) heap_map_flags by (simp add: vmap_def VMAP_4K_def VMAP_WRIT_def)
  obtain g gr where gd: "x64_init_gdt (tss_addr li) (gdt_addr li) (gdt S) = (g, gr)" by (meson surj_pair)
  have init: "memory_initialise li bi S = (if r < 0 then None else
      Some (S\<lparr>kern_st := (kern_st S)\<lparr>frames := f4, kheap := h\<rparr>, gdt := g, gdtr := gr, idt := t, tss := ts\<rparr>))"
    using f1 st(1) pg(1) h(1) i(1) v gd by (simp add: memory_initialise_def x64_init_virtual_memory_def)
  have neg: "r < 0 \<longleftrightarrow> r \<noteq> 0" using m(2) by (auto simp: ENOMEM_def EGENERIC_def)
  have lookup: "map_lookup (trans bi) (hhdm bi) ?P v f4 = (0, of_nat ((unat page + unat (EXTRACT_4K_PAGE_OFFSET v)) mod 2 ^ 32))"
    if "r = 0" "vpage v = vpage (heap_start bi)" for v
    using mapped_page_lookup [OF _ pg(3,4) that(2)] post that(1) by simp
  obtain F lv' own' where F: "pt_ok f4 F lv' own'" "F \<subseteq> ?U - {stack} - {page}" using post by (auto simp: map_post_def)
  let ?S = "S\<lparr>kern_st := (kern_st S)\<lparr>frames := f4, kheap := h\<rparr>, gdt := g, gdtr := gr, idt := t, tss := ts\<rparr>"
  have "if r \<noteq> 0 then memory_initialise li bi S = None
     else \<exists>S' F lv' own'. memory_initialise li bi S = Some S' \<and> frames (kern_st S') = f4 \<and>
       heap_ok (kheap (kern_st S')) ((\<lambda>_. [])(7 := [heap_start bi])) {} \<and>
       pt_ok f4 F lv' own' \<and> F \<subseteq> ?U - {stack, page} \<and> rsp0 (tss S') = hhdm bi + stack + 4096 \<and>
       (\<forall>v. vpage v = vpage (heap_start bi) \<longrightarrow> map_lookup (trans bi) (hhdm bi) ?P v f4 =
         (0, of_nat ((unat page + unat (EXTRACT_4K_PAGE_OFFSET v)) mod 2 ^ 32)))"
  proof (cases "r = 0")
    case True
    then show ?thesis using init F h(2) i(2) lookup
      by (simp only: if_False if_True simp_thms) (intro exI [of _ ?S] exI [of _ F] exI [of _ lv'] exI [of _ own'], auto)
  qed (use init neg in simp)
  then show ?thesis using st(2) pg(2) m e3 by (intro exI [of _ stack] exI [of _ page] exI [of _ f3] exI [of _ r] exI [of _ f4]) blast
qed

lemma map_user_page_procs: "map_user_page bi t pa va k = Some k' \<Longrightarrow> procs k' = procs k"
  by (auto simp: map_user_page_def bind_eq_Some_conv split: if_splits)

text \<open>
  C37: The kernel ends its start by running the first process. When \<open>start_initial\<close> has not panicked, the process is in the first free slot,
  ready to run at \<open>USER_START\<close> in user mode with interrupts enabled and the stack right below the kernel, and it is
  the only one in the run queue: from the first timer tick on, \<open>current_proc\<close> is this process after every tick.
\<close>

theorem start_initial_runs_first_process:
  assumes "start_initial B li bi S = Some S'" and "\<exists>p \<in> set (procs (kern_st S)). \<not> present p"
    and "sq_inv (rq S)" and "sq_list (rq S) = []" and "clock S = timer_init" and "kernel_start li \<noteq> 1" and "Suc n < 2 ^ 64"
  shows "\<exists>t q. 0 \<le> t \<and> nat t < length (procs (kern_st S)) \<and> \<not> present (procs (kern_st S) ! nat t) \<and> sq_list (rq S') = [t] \<and>
    (let p = procs (kern_st S') ! nat t in present p \<and> rip (ctx p) = USER_START \<and> cs (ctx p) = USER_CS \<and> ss (ctx p) = USER_SS \<and>
      rflags (ctx p) = 0x202 \<and> rsp (ctx p) = kernel_start li - 1) \<and>
    timer_ticks (Suc n) (clock S') (rq S', c) = Some ((clock S')\<lparr>ticks := of_nat (Suc n)\<rparr>, q, t)"
proof -
  obtain code f1 where 1: "pfalloc_one (frames (kern_st S)) = (code, f1)" by (meson surj_pair)
  obtain stack f2 where 2: "pfalloc_one f1 = (stack, f2)" by (meson surj_pair)
  obtain tmp f3 where 3: "tmpmap (trans bi) (kernel_pml4_table bi) (temp_page li) code f2 = (tmp, f3)" by (meson surj_pair)
  let ?k = "(kern_st S)\<lparr>frames := f3, kmem := if tmp \<noteq> 0 then snd (memcpy tmp (task1_addr li) 4096 (kmem (kern_st S))) else kmem (kern_st S)\<rparr>"
  obtain t k1 k3 where k: "create_process bi (str_initial li) USER_START 0 (kernel_start li - 1) True ?k = Some (t, k1)" "procs k3 = procs k1"
      "S' = S\<lparr>kern_st := k3\<lparr>devices := pic_unblock_irq B PIC_IRQ_PITTIMER (devices k3)\<rparr>, rq := snd (enqueue_proc t (rq S)), clock := arch_start_running_procs (clock S)\<rparr>"
    using assms(1) 1 2 3 by (auto simp: start_initial_def Let_def bind_eq_Some_conv dest!: map_user_page_procs)
  have f: "find_free_tid ?k \<noteq> -1" using assms(2) find_free_tid_eq [of ?k] by auto
  note slot = create_process_slot [OF k(1) f]
  obtain d where d: "procs k1 = (procs ?k)[nat t := (procs ?k ! nat t)\<lparr>tid := t, present := True, pstatus := PROC_READY, fdmap := replicate FDS_PER_PROC (-1), ctx := d\<rparr>]"
      "rip d = USER_START" "cs d = USER_CS" "ss d = USER_SS" "rflags d = 0x202" "rsp d = kernel_start li - 1"
    using create_process_cases(3) [OF k(1) find_free_tid_nonneg [OF f]] assms(6) by auto
  have q: "sq_inv (rq S')" "sq_list (rq S') = [t]"
    using enqueue_proc_list [OF assms(3), of t] assms(4) sq_lenI [OF assms(3)] by (auto simp: k(3) sq_full_def MAX_PROCS_def)
  note tm = preempt_timer
  obtain q' where "timer_ticks (Suc n) (clock S') (rq S', c) = Some ((clock S')\<lparr>ticks := of_nat (Suc n)\<rparr>, q', t)"
    using timer_ticks_single [OF tm(1-4) assms(7), of "(rq S', c)"] funpow_schedule [OF q(1), of n c] q(2) assms(5)
    by (auto simp: k(3) tm(5) simp del: funpow.simps)
  moreover have "procs (kern_st S') ! nat t = (procs (kern_st S) ! nat t)\<lparr>tid := t, present := True, pstatus := PROC_READY, fdmap := replicate FDS_PER_PROC (-1), ctx := d\<rparr>"
    using slot(3) d(1) k(2,3) by simp
  ultimately show ?thesis using slot(2-4) d(2-6) q(2) by (intro exI [of _ t] exI [of _ q']) simp
qed

subsection \<open>A machine at its start\<close>

definition demo_link :: link_info where
  "demo_link = \<lparr>boot_cr3 = 0x8000, tss_addr = 0, gdt_addr = 0, isr_addr = (\<lambda>_. 0), msg_testing = 0, msg_ready = 0, temp_page = 0x7000, kernel_start = 0xffff8000,
    task1_addr = 0, str_initial = 0, str_atapio = 0, str_pm = 0, types_base = 0, fslinks_base = 0, rodata = demo_ro\<rparr>"

definition demo_system :: "pmm \<Rightarrow> disk system" where
  "demo_system f = \<lparr>kern_st = (disk_kernel (ata_store_type demo_disk_bus) 0 two_blocks 0 heap_one_free)\<lparr>frames := f, procs := [free_proc]\<rparr>, gdt = [],
    gdtr = \<lparr>gdt_limit = 0, gdt_base = 0\<rparr>, idt = [], tss = \<lparr>rsp0 = 0, rsp1 = 0, rsp2 = 0, ists = [], io_bitmap_offset = 0, iopb = []\<rparr>,
    com_tab = [], uart_port = None, rq = \<lparr>sched_queue = replicate MAX_PROCS 0, sq_head = 0, sq_tail = 0, sq_space_left = MAX_PROCS\<rparr>, clock = timer_init\<rparr>"

definition limine_boot :: boot_info where
  "limine_boot = demo_boot\<lparr>trans := limine_tr, memmap := small_memmap, hhdm := HH_MASK, heap_start := 0x10000\<rparr>"

lemma limine_sel [simp]:
  "boot_info.trans limine_boot = limine_tr" "hhdm limine_boot = HH_MASK" "memmap limine_boot = small_memmap" "heap_start limine_boot = 0x10000"
  "boot_cr3 demo_link = 0x8000" "frames (kern_st (demo_system f)) = f"
  by (simp_all add: limine_boot_def demo_link_def demo_system_def)

text \<open>Where the upper tables for the heap page are present, mapping it succeeds.\<close>

lemma path_heap_map:
  assumes "pmem f 0x8000 = 0x9003" and "pmem f 0x9000 = 0xA003" and "pmem f 0xA000 = 0xB003"
  shows "\<exists>f'. map_page_4k limine_tr (HH_MASK + 0x8000) page 0x10000 3 f = (0, f')"
  using assms
  by (simp add: map_page_4k_def next_table_def rd64_def wr64_def slot_def limine_tr_def HH_MASK_def
      EXTRACT_PML4_INDEX_def EXTRACT_PML3_INDEX_def EXTRACT_PML2_INDEX_def EXTRACT_PML1_INDEX_def PSE_PTR_def
      PSE_GET_PTR_def PSE_PRESENT_def PSE_PAGESIZE_def take_bit_eq_mod)

theorem memory_initialise_heap_witness:
  "\<exists>S'. memory_initialise demo_link limine_boot (demo_system path_tables) = Some S' \<and>
    heap_ok (kheap (kern_st S')) ((\<lambda>_. [])(7 := [0x10000])) {}"
proof -
  let ?S = "demo_system path_tables"
  have p: "points_to limine_tr (HH_MASK + 0x8000) 0x8000"
    using limine_direct_map slot_offset by (simp add: points_to_def direct_map_def slot_def page_aligned_def)
  have "tables_ok path_tables {} path_lv path_own" using path_tables(1) by (simp add: pt_ok_def)
  moreover have "t \<notin> {4096, 8192}" if "path_lv t = Some k" for t k using that by (auto simp: path_lv_def split: if_splits)
  ultimately have t: "tables_ok path_tables {4096, 8192} path_lv path_own" unfolding tables_ok_def by blast
  have z: "frame_list path_tables = 0" "free_frames path_tables = 0" by (simp_all add: path_tables_def)
  obtain page f r f' where e: "\<forall>t k i. path_lv t = Some k \<and> i < 512 \<longrightarrow> ent f t i = ent path_tables t i"
      and m: "map_page_4k limine_tr (HH_MASK + 0x8000) page 0x10000 3 f = (r, f')"
      and c: "if r \<noteq> 0 then memory_initialise demo_link limine_boot ?S = None
        else \<exists>S'. memory_initialise demo_link limine_boot ?S = Some S' \<and> heap_ok (kheap (kern_st S')) ((\<lambda>_. [])(7 := [0x10000])) {}"
    using memory_initialise_heap [of ?S limine_boot demo_link "0x8000" path_lv path_own] t z p limine_direct_map path_tables(2) small_memmap_boot
    by (auto simp: page_aligned_def split: if_splits)
  have "pmem f 0x8000 = 0x9003" "pmem f 0x9000 = 0xA003" "pmem f 0xA000 = 0xB003"
    using e [rule_format, of "0x8000" 4 0] e [rule_format, of "0x9000" 3 0] e [rule_format, of "0xA000" 2 0]
    by (simp_all add: path_lv_def ent_def slot_def path_tables_def)
  from path_heap_map [OF this, of page] m have "r = 0" by auto
  with c show ?thesis by simp
qed

text \<open>Translations that all lead to one present entry.\<close>

definition flat_boot :: boot_info where
  "flat_boot = demo_boot\<lparr>trans := (\<lambda>_. 0x100), code_offset := 0x5000, ro_offset := 0x5000, rw_offset := 0x5000\<rparr>"

definition flat_frames :: pmm where
  "flat_frames = three_frames\<lparr>pmem := (pmem three_frames)(0x100 := 1)\<rparr>"

lemma flat_sel [simp]:
  "boot_info.trans flat_boot = (\<lambda>_. 0x100)" "kernel_pml4_table flat_boot = 0x1000" "kernel_start demo_link = 0xffff8000" "temp_page demo_link = 0x7000"
  "task1_addr demo_link = 0" "str_initial demo_link = 0" "procs (kern_st (demo_system f)) = [free_proc]"
  by (simp_all add: flat_boot_def demo_boot_def demo_link_def demo_system_def)

lemma flat_next_table:
  assumes "bit (pmem s 0x100) 0" and "\<not> bit (pmem s 0x100) 7" and "bit flags 0" and "\<not> bit flags 7"
  shows "\<exists>P w. next_table (\<lambda>_. 0x100) flags e s = (Some P, s\<lparr>pmem := (pmem s)(0x100 := w)\<rparr>) \<and> bit w 0 \<and> \<not> bit w 7"
proof -
  have "pmem s 0x100 AND PSE_PRESENT \<noteq> 0" using assms(1) pse_present_bit by (simp add: pse_present_def)
  then show ?thesis using assms by (auto simp: next_table_def rd64_def wr64_def bit_simps PSE_PRESENT_def)
qed

lemma flat_map:
  assumes "bit (pmem s 0x100) 0" and "\<not> bit (pmem s 0x100) 7" and "bit flags 0" and "\<not> bit flags 7"
  shows "\<exists>w. map_page_4k (\<lambda>_. 0x100) P phys virt flags s = (0, s\<lparr>pmem := (pmem s)(0x100 := w)\<rparr>) \<and> bit w 0 \<and> \<not> bit w 7"
proof -
  have ps: "w AND PSE_PAGESIZE = 0" if "\<not> bit w 7" for w :: u64
    using that pagesize_bit [of w] by blast
  obtain P1 w1 where 1: "next_table (\<lambda>_. 0x100) flags (slot P (EXTRACT_PML4_INDEX virt)) s = (Some P1, s\<lparr>pmem := (pmem s)(0x100 := w1)\<rparr>)" "bit w1 0" "\<not> bit w1 7"
    using flat_next_table [OF assms] by blast
  obtain P2 w2 where 2: "next_table (\<lambda>_. 0x100) flags (slot P1 (EXTRACT_PML3_INDEX virt)) (s\<lparr>pmem := (pmem s)(0x100 := w1)\<rparr>) = (Some P2, s\<lparr>pmem := (pmem s)(0x100 := w2)\<rparr>)" "bit w2 0" "\<not> bit w2 7"
    using flat_next_table [of "s\<lparr>pmem := (pmem s)(0x100 := w1)\<rparr>" flags "slot P1 (EXTRACT_PML3_INDEX virt)"] 1 assms by auto
  obtain P3 w3 where 3: "next_table (\<lambda>_. 0x100) flags (slot P2 (EXTRACT_PML2_INDEX virt)) (s\<lparr>pmem := (pmem s)(0x100 := w2)\<rparr>) = (Some P3, s\<lparr>pmem := (pmem s)(0x100 := w3)\<rparr>)"
    using flat_next_table [of "s\<lparr>pmem := (pmem s)(0x100 := w2)\<rparr>" flags "slot P2 (EXTRACT_PML2_INDEX virt)"] 2 assms by auto
  have "bit (PSE_PTR phys OR ucast flags) 0" "\<not> bit (PSE_PTR phys OR ucast flags :: u64) 7"
    using assms(3,4) by (simp_all add: bit_simps PSE_PTR_def)
  then show ?thesis using 1 2 3 ps by (simp add: map_page_4k_def rd64_def wr64_def Let_def) blast
qed

lemma flat_lookup:
  assumes "bit (pmem s 0x100) 0" and "\<not> bit (pmem s 0x100) 7"
  shows "fst (map_lookup (\<lambda>_. 0x100) hh P v s) = 0"
  using assms pse_present_bit [of "pmem s 0x100"] pagesize_bit [of "pmem s 0x100"]
  by (simp add: map_lookup_def rd64_def Let_def set_addr_def pse_present_def)

lemma flat_pml4:
  assumes "bit (pmem s 0x100) 0" and "\<not> bit (pmem s 0x100) 7" and "frame_list s = 20480" and "pmem s 20480 = 0"
  shows "\<exists>s'. new_blank_user_pml4 flat_boot s = Some (20480, s') \<and> bit (pmem s' 0x100) 0 \<and> \<not> bit (pmem s' 0x100) 7"
proof -
  let ?s = "s\<lparr>frame_list := 0, free_frames := free_frames s - 1\<rparr>"
  have a: "pfalloc_one s = (20480, ?s)" using assms(3,4) by (simp add: pfalloc_one_def fm_next_def)
  have l: "map_loop tr P phys virt flags 4096 0x5000 t = Some t" for tr P phys virt flags t by (subst map_loop.simps) simp
  have "fst (map_lookup (\<lambda>_. 0x100) 0 0x1000 0 ?s) = 0" using flat_lookup [of ?s 0 "0x1000" 0] assms(1,2) by simp
  then obtain phys where p: "map_lookup (\<lambda>_. 0x100) 0 0x1000 0 ?s = (0, phys)" by (cases "map_lookup (\<lambda>_. 0x100) 0 0x1000 0 ?s") simp
  obtain w where w: "map_page_4k (\<lambda>_. 0x100) 20480 phys 0 3 ?s = (0, ?s\<lparr>pmem := (pmem ?s)(0x100 := w)\<rparr>)" "bit w 0" "\<not> bit w 7"
    using flat_map [of ?s 3 20480 phys 0] assms(1,2) by auto
  have "new_blank_user_pml4 flat_boot s = Some (20480, ?s\<lparr>pmem := (pmem ?s)(0x100 := w)\<rparr>)"
    using a p w(1) l by (simp add: new_blank_user_pml4_def flat_boot_def demo_boot_def ARCH_PAGE_SIZE_def PSE_PRESENT_def PSE_WRITABLE_def Let_def)
  then show ?thesis using w(2,3) by simp
qed

lemma flat_user_page:
  assumes "bit (pmem (frames k) 0x100) 0" and "\<not> bit (pmem (frames k) 0x100) 7" and "procs k = [p]" and "present p"
  shows "\<exists>k'. map_user_page flat_boot 0 pa va k = Some k' \<and> bit (pmem (frames k') 0x100) 0 \<and> \<not> bit (pmem (frames k') 0x100) 7 \<and> procs k' = [p]"
proof -
  let ?f = "VMAP_4K OR VMAP_EXEC OR VMAP_USER OR VMAP_WRIT"
  have f: "ucast (vmap_flags ?f OR PSE_PRESENT) = (7 :: u32)" "?f AND VMAP_4K \<noteq> 0"
    by (simp_all add: vmap_flags_def VMAP_4K_def VMAP_WRIT_def VMAP_USER_def VMAP_EXEC_def PSE_WRITABLE_def PSE_PRESENT_def PSE_USER_def)
  obtain w where w: "map_page_4k (\<lambda>_. 0x100) (cr3 (ctx p)) pa va 7 (frames k) = (0, (frames k)\<lparr>pmem := (pmem (frames k))(0x100 := w)\<rparr>)" "bit w 0" "\<not> bit w 7"
    using flat_map [of "frames k" 7 "cr3 (ctx p)" pa va] assms(1,2) by auto
  have "map_user_page flat_boot 0 pa va k = Some (k\<lparr>frames := (frames k)\<lparr>pmem := (pmem (frames k))(0x100 := w)\<rparr>\<rparr>)"
    using w(1) f assms(3,4) by (simp add: map_user_page_def vmap_def proc_roots_def flat_boot_def)
  then show ?thesis using w(2,3) assms(3) by simp
qed

theorem start_initial_runs_first_process_witness:
  "\<exists>S'. start_initial demo_disk_bus demo_link flat_boot (demo_system flat_frames) = Some S' \<and> sq_list (rq S') = [0]"
proof -
  let ?S = "demo_system flat_frames"
  obtain f1 f2 where pf: "pfalloc_one flat_frames = (4096, f1)" "pfalloc_one f1 = (8192, f2)"
      "frame_list f2 = 20480" "pmem f2 20480 = 0" "pmem f2 0x100 = 1"
    by (simp add: flat_frames_def three_frames_def pfalloc_one_def fm_next_def set_fm_prev_def)
  obtain w where w: "map_page_4k (\<lambda>_. 0x100) 0x1000 4096 0x7000 3 f2 = (0, f2\<lparr>pmem := (pmem f2)(0x100 := w)\<rparr>)" "bit w 0" "\<not> bit w 7"
    using flat_map [of f2 3 "0x1000" 4096 "0x7000"] pf(5) by auto
  let ?f3 = "f2\<lparr>pmem := (pmem f2)(0x100 := w)\<rparr>"
  have tmp: "tmpmap (\<lambda>_. 0x100) 0x1000 0x7000 4096 f2 = (0x7000, ?f3)" using w(1) by (simp add: tmpmap_def PSE_PRESENT_def PSE_WRITABLE_def)
  let ?k = "(kern_st ?S)\<lparr>frames := ?f3, kmem := snd (memcpy 0x7000 0 4096 (kmem (kern_st ?S)))\<rparr>"
  obtain f4 where f4: "new_blank_user_pml4 flat_boot ?f3 = Some (20480, f4)" "bit (pmem f4 0x100) 0" "\<not> bit (pmem f4 0x100) 7"
    using flat_pml4 [of ?f3] w(2,3) pf(3,4) by auto
  have "\<exists>k1 p. create_process flat_boot 0 USER_START 0 (0xffff8000 - 4096 + 4095) True ?k = Some (0, k1) \<and> frames k1 = f4 \<and> procs k1 = [p] \<and> present p"
    using f4(1) by (simp add: create_process_def find_free_tid_def find_free_tid_in_def free_proc_def Let_def)
  then obtain k1 p where k1: "create_process flat_boot 0 USER_START 0 (0xffff8000 - 4096 + 4095) True ?k = Some (0, k1)" "frames k1 = f4" "procs k1 = [p]" "present p" by blast
  obtain k2 where k2: "map_user_page flat_boot 0 4096 USER_START k1 = Some k2" "bit (pmem (frames k2) 0x100) 0" "\<not> bit (pmem (frames k2) 0x100) 7" "procs k2 = [p]"
    using flat_user_page [of k1 p 4096 USER_START] k1 f4 by auto
  obtain k3 where k3: "map_user_page flat_boot 0 8192 (0xffff8000 - 4096) k2 = Some k3"
    using flat_user_page [of k2 p 8192 "0xffff8000 - 4096"] k2 k1(4) by auto
  have "\<exists>S'. start_initial demo_disk_bus demo_link flat_boot ?S = Some S'"
    using pf tmp k1(1) k2(1) k3 by (simp add: start_initial_def Let_def)
  then obtain S' where S': "start_initial demo_disk_bus demo_link flat_boot ?S = Some S'" by blast
  have "sq_inv (rq ?S)" "sq_list (rq ?S) = []" "clock ?S = timer_init" by (simp_all add: demo_system_def sq_inv_def sq_list_def sq_len_def MAX_PROCS_def)
  then have "\<exists>t. 0 \<le> t \<and> nat t < length (procs (kern_st ?S)) \<and> sq_list (rq S') = [t]"
    using start_initial_runs_first_process [OF S' _ _ _ _ _ , of 0] by (simp add: free_proc_def) blast
  then show ?thesis using S' by auto
qed

end
