(* ===== verification/Canonical.thy ===== *)
theory Canonical
  imports Prelude
begin

text \<open>
  Canonical paths: \<^verbatim>\<open>test/canonical.c\<close>, the program that tries out the path format \<^verbatim>\<open>:tag:dir/file\<close>.
  A C string is the list of its bytes before the NUL, a pointer into it the rest of the list from there
  (\<open>[]\<close> is the NUL). The buffer that the code allocates is the list of the bytes written so far and its capacity;
  writing behind it, and reading behind the NUL, is \<open>None\<close>.
\<close>

section \<open>Model\<close>

definition TAG_SIZE :: nat where "TAG_SIZE = 8"

definition slash :: u8 where "slash = 47"
definition colon :: u8 where "colon = 58"

fun strchr_at :: "u8 list \<Rightarrow> u8 \<Rightarrow> nat option" where
  "strchr_at [] c = None"
| "strchr_at (x # xs) c = (if x = c then Some 0 else map_option Suc (strchr_at xs c))"

fun canonical_loop :: "u8 list \<Rightarrow> bool" where
  "canonical_loop [] = True"
| "canonical_loop (x # xs) = (if x = slash \<and> (xs = [] \<or> hd xs = slash) then False else canonical_loop xs)"

fun is_canonical :: "u8 list option \<Rightarrow> bool" where
  "is_canonical None = False"
| "is_canonical (Some []) = False"
| "is_canonical (Some (x # xs)) =
    (if x \<noteq> colon then False
     else (case strchr_at xs colon of
             None \<Rightarrow> False
           | Some tag_len \<Rightarrow>
              if tag_len = 0 \<or> TAG_SIZE < tag_len then False
              else (let path = drop (Suc tag_len) xs
                    in if path \<noteq> [] \<and> hd path = slash then False else canonical_loop path)))"

definition put :: "nat \<Rightarrow> u8 \<Rightarrow> u8 list \<Rightarrow> u8 list option" where
  "put cap x buff = (if length buff < cap then Some (buff @ [x]) else None)"

text \<open>
  The loop of \<open>try_make_canonical\<close>; \<open>first\<close> is \<^verbatim>\<open>path == tag_end + 1\<close>. The result is the buffer and where
  \<open>path\<close> is at the end.
\<close>

function squeeze :: "nat \<Rightarrow> bool \<Rightarrow> u8 list \<Rightarrow> u8 list \<Rightarrow> (u8 list \<times> u8 list) option" where
  "squeeze cap first [] buff = Some (buff, [])"
| "squeeze cap first (x # xs) buff =
    (if x \<noteq> slash then do { b \<leftarrow> put cap x buff; squeeze cap False xs b }
     else if xs = [] then Some (buff, x # xs)
     else if hd xs = slash
     then (case dropWhile (\<lambda>c. c = slash) xs of
             [] \<Rightarrow> Some (buff, x # xs)
           | c # cs \<Rightarrow> do { b \<leftarrow> (if first then Some buff else put cap slash buff); squeeze cap False (c # cs) b })
     else do { b \<leftarrow> (if first then Some buff else put cap slash buff); squeeze cap False xs b })"
  by pat_completeness auto
termination
proof (relation "measure (\<lambda>(cap, first, xs, buff). length xs)", goal_cases)
  case (3 cap first x xs buff c cs b)
  then show ?case using length_dropWhile_le [of "\<lambda>c. c = slash" xs] by simp
qed auto

text \<open>
  The results: the value returned, the string at \<open>path\<close> and what is stored to \<^verbatim>\<open>*len_res\<close>; \<open>len_res\<close> is
  false for NULL.
\<close>

definition try_make_canonical :: "bool \<Rightarrow> u8 list \<Rightarrow> (int \<times> u8 list \<times> nat option) option" where
  "try_make_canonical len_res path =
    (if is_canonical (Some path)
     then (if len_res then Some (0, path, Some (length path)) else None)
     else if path = [] then None
     else (case strchr_at (tl path) colon of
             None \<Rightarrow> Some (-1, path, None)
           | Some i \<Rightarrow> do {
               let tag_len = i + 2;
               let cap = length path + 1;
               (buff, rest) \<leftarrow> squeeze cap True (drop tag_len path) (take tag_len path);
               buff0 \<leftarrow> put cap 0 buff;
               Some (if is_canonical (Some rest) then 1 else 0, buff, None) }))"

definition str :: "string \<Rightarrow> u8 list" where
  "str s = map of_char s"

definition goods :: "u8 list list" where
  "goods = map str ['':drive1:my_docs/school/homework1.txt'', '':usb:arch_linux_live_disk.iso'', '':backup:backups/2023-12-07'',
    '':ssd1:'', '':tag::a_nice_file.txt'', '':tag: a file.txt'']"

definition bads :: "u8 list list" where
  "bads = map str ['':drive1:/my_docs/my_paper.txt'', '':drive1:my_docs//my_paper.txt'', '':drive1://///hello////world////'',
    ''/usr/bin/helix'', '':usr:bin/helix/'']"

text \<open>The number of failures that \<^verbatim>\<open>main\<close> prints.\<close>

definition test_failures :: nat where
  "test_failures = length (filter (\<lambda>p. is_canonical (Some p) \<noteq> True) goods) + length (filter (\<lambda>p. is_canonical (Some p) \<noteq> False) bads)"

section \<open>Specification: components\<close>

text \<open>The components of a path between slashes, and a path from its components.\<close>

fun comps :: "u8 list \<Rightarrow> u8 list list" where
  "comps [] = [[]]"
| "comps (x # xs) = (if x = slash then [] # comps xs else (x # hd (comps xs)) # tl (comps xs))"

fun join :: "u8 list list \<Rightarrow> u8 list" where
  "join [] = []"
| "join [c] = c"
| "join (c # d # cs) = c @ slash # join (d # cs)"

definition normal :: "u8 list \<Rightarrow> u8 list" where
  "normal xs = join (filter (\<lambda>c. c \<noteq> []) (comps xs))"

lemma comps_not_Nil [simp]: "comps xs \<noteq> []"
  by (induction xs) auto

lemma comps_hd_tl: "hd (comps xs) # tl (comps xs) = comps xs"
  by simp

lemma join_comps: "join (comps xs) = xs"
proof (induction xs)
  case (Cons x xs)
  obtain c cs where c: "comps xs = c # cs" by (cases "comps xs") auto
  show ?case using Cons c by (cases cs) (auto simp: slash_def)
qed simp

lemma comps_no_slash: "c \<in> set (comps xs) \<Longrightarrow> slash \<notin> set c"
proof (induction xs arbitrary: c)
  case (Cons x xs)
  obtain d ds where d: "comps xs = d # ds" by (cases "comps xs") auto
  show ?case using Cons d by (auto split: if_splits)
qed simp

lemma comps_append_slash: "slash \<notin> set c \<Longrightarrow> comps (c @ slash # xs) = c # comps xs"
  by (induction c) auto

lemma comps_word: "slash \<notin> set c \<Longrightarrow> comps c = [c]"
  by (induction c) auto

lemma comps_join: "cs \<noteq> [] \<Longrightarrow> \<forall>c \<in> set cs. slash \<notin> set c \<Longrightarrow> comps (join cs) = cs"
  by (induction cs rule: join.induct) (auto simp: comps_append_slash comps_word)

lemma join_Cons: "join (c # cs) = c @ concat (map (\<lambda>d. slash # d) cs)"
  by (induction "c # cs" arbitrary: c cs rule: join.induct) auto

section \<open>The loops\<close>

text \<open>What the loop appends once it has left the start: the rest of the component it is in, then the others.\<close>

definition tail_out :: "u8 list \<Rightarrow> u8 list" where
  "tail_out xs = hd (comps xs) @ concat (map (\<lambda>c. slash # c) (filter (\<lambda>c. c \<noteq> []) (tl (comps xs))))"

lemma tail_out_Cons: "x \<noteq> slash \<Longrightarrow> tail_out (x # xs) = x # tail_out xs"
  by (simp add: tail_out_def)

lemma tail_out_slash:
  "tail_out (slash # xs) = (let ys = dropWhile (\<lambda>c. c = slash) xs in if ys = [] then [] else slash # tail_out ys)"
proof (induction xs)
  case (Cons x xs)
  then show ?case by (cases "x = slash") (auto simp: tail_out_def Let_def)
qed (simp add: tail_out_def)

lemma normal_Cons: "x \<noteq> slash \<Longrightarrow> normal (x # xs) = x # tail_out xs"
  by (simp add: normal_def tail_out_def join_Cons)

lemma normal_slash: "normal (slash # xs) = normal (dropWhile (\<lambda>c. c = slash) xs)"
  by (induction xs) (auto simp: normal_def)

lemma tail_out_length: "length (tail_out xs) \<le> length xs"
proof (induction "length xs" arbitrary: xs rule: less_induct)
  case less
  show ?case
  proof (cases xs)
    case (Cons x ys)
    have "length (dropWhile (\<lambda>c. c = slash) ys) \<le> length ys" by (rule length_dropWhile_le)
    with less [of ys] less [of "dropWhile (\<lambda>c. c = slash) ys"] Cons show ?thesis
      by (cases "x = slash") (auto simp: tail_out_Cons tail_out_slash Let_def)
  qed (simp add: tail_out_def)
qed

lemma normal_length: "length (normal xs) \<le> length xs"
proof (induction xs)
  case (Cons x xs)
  show ?case
  proof (cases "x = slash")
    case True
    then have "normal (x # xs) = normal xs" by (simp add: normal_def)
    with Cons show ?thesis by simp
  qed (use tail_out_length in \<open>simp add: normal_Cons\<close>)
qed (simp add: normal_def)

lemma squeeze_normal:
  assumes "length buff + length xs \<le> cap"
  shows "\<exists>r. squeeze cap first xs buff = Some (buff @ (if first then normal xs else tail_out xs), r) \<and> (r = [] \<or> hd r = slash)"
  using assms
proof (induction cap first xs buff rule: squeeze.induct)
  case (1 cap first buff)
  then show ?case by (simp add: normal_def tail_out_def)
next
  case (2 cap first x xs buff)
  let ?ys = "dropWhile (\<lambda>c. c = slash) xs"
  have len: "length ?ys \<le> length xs" by (rule length_dropWhile_le)
  consider (other) "x \<noteq> slash" | (end_) "x = slash" "?ys = []" | (more) "x = slash" "?ys \<noteq> []" by blast
  then show ?case
  proof cases
    case other
    then show ?thesis using 2(1) [OF other, of "buff @ [x]"] 2(4) by (simp add: put_def tail_out_Cons normal_Cons)
  next
    case end_
    have "normal (x # xs) = []" "tail_out (x # xs) = []" unfolding end_(1) normal_slash tail_out_slash end_(2) by (simp_all add: normal_def)
    moreover have "xs = [] \<or> hd xs = slash" using end_(2) by (cases xs) (auto split: if_splits)
    then have "squeeze cap first (x # xs) buff = Some (buff, x # xs)" using end_ by (auto simp del: dropWhile_eq_Nil_conv)
    ultimately show ?thesis using end_(1) by simp
  next
    case more
    then obtain c cs where c: "?ys = c # cs" "c \<noteq> slash" by (cases ?ys) (auto dest: dropWhile_eq_Cons_conv [THEN iffD1])
    let ?b = "if first then buff else buff @ [slash]"
    have xs: "xs \<noteq> []" using more by auto
    have out: "buff @ (if first then normal (x # xs) else tail_out (x # xs)) = ?b @ tail_out (c # cs)"
      using c more by (simp add: tail_out_slash normal_slash normal_Cons tail_out_Cons)
    have ih: "\<exists>r. squeeze cap False (c # cs) ?b = Some (?b @ tail_out (c # cs), r) \<and> (r = [] \<or> hd r = slash)"
    proof (cases "hd xs = slash")
      case True
      show ?thesis using 2(2) [of c cs ?b] True xs more(1) c(1) 2(4) len by (auto simp: put_def)
    next
      case False
      then have "?ys = xs" using xs by (cases xs) auto
      then show ?thesis using 2(3) [of ?b] False xs more(1) c(1) 2(4) by (auto simp: put_def)
    qed
    have "squeeze cap first (x # xs) buff = squeeze cap False (c # cs) ?b"
    proof (cases "hd xs = slash")
      case True
      then show ?thesis using xs more(1) c(1) 2(4) len by (auto simp: put_def)
    next
      case False
      then have "?ys = xs" using xs by (cases xs) auto
      then show ?thesis using False xs more(1) c(1) 2(4) by (auto simp: put_def)
    qed
    with ih out show ?thesis by simp
  qed
qed

lemma strchr_at_append: "c \<notin> set xs \<Longrightarrow> strchr_at (xs @ c # ys) c = Some (length xs)"
  by (induction xs) auto

lemma strchr_at_Some: "strchr_at xs c = Some i \<Longrightarrow> \<exists>ys zs. xs = ys @ c # zs \<and> c \<notin> set ys \<and> length ys = i"
proof (induction xs arbitrary: i)
  case (Cons x xs)
  show ?case
  proof (cases "x = c")
    case False
    then obtain j where "strchr_at xs c = Some j" "i = Suc j" using Cons.prems by auto
    then obtain ys zs where "xs = ys @ c # zs" "c \<notin> set ys" "length ys = j" using Cons.IH by blast
    then show ?thesis using False \<open>i = Suc j\<close> by (intro exI [of _ "x # ys"] exI [of _ zs]) auto
  qed (use Cons.prems in auto)
qed simp

lemma canonical_loop_comps: "canonical_loop xs \<longleftrightarrow> [] \<notin> set (tl (comps xs))"
proof (induction xs)
  case (Cons x xs)
  have "[] \<in> set (comps xs) \<longleftrightarrow> xs = [] \<or> hd xs = slash \<or> [] \<in> set (tl (comps xs))" by (cases xs) (auto simp: tl_Nil)
  then show ?case using Cons by auto
qed simp

text \<open>The second half of \<open>is_canonical\<close> accepts exactly the paths that the normal form leaves alone.\<close>

lemma canonical_normal: "\<not> (xs \<noteq> [] \<and> hd xs = slash) \<and> canonical_loop xs \<longleftrightarrow> normal xs = xs"
proof (cases "xs = []")
  case False
  have "\<not> (hd xs = slash) \<and> canonical_loop xs \<longleftrightarrow> [] \<notin> set (comps xs)"
    using False by (cases xs) (auto simp: canonical_loop_comps)
  also have "\<dots> \<longleftrightarrow> normal xs = xs"
  proof
    assume "[] \<notin> set (comps xs)"
    then have "filter (\<lambda>c. c \<noteq> []) (comps xs) = comps xs" by (auto simp: filter_id_conv)
    then show "normal xs = xs" by (simp add: normal_def join_comps)
  next
    assume n: "normal xs = xs"
    let ?cs = "filter (\<lambda>c. c \<noteq> []) (comps xs)"
    have "?cs \<noteq> []" using n False by (auto simp: normal_def)
    then have "comps (normal xs) = ?cs" unfolding normal_def by (intro comps_join) (auto dest: comps_no_slash)
    then have "comps xs = ?cs" using n by simp
    then show "[] \<notin> set (comps xs)" by (metis (mono_tags, lifting) filter_eq_Cons_iff filter_id_conv)
  qed
  finally show ?thesis using False by blast
qed (simp add: normal_def)

lemma is_canonical_split:
  "colon \<notin> set tag \<Longrightarrow> is_canonical (Some (x # tag @ colon # rest)) \<longleftrightarrow> x = colon \<and> 1 \<le> length tag \<and> length tag \<le> TAG_SIZE \<and> normal rest = rest"
  using canonical_normal [of rest] by (auto simp: strchr_at_append Let_def Suc_le_eq)

declare is_canonical.simps(3) [simp del]

lemma normal_join: "normal (join cs) = join cs" if "\<forall>c \<in> set cs. c \<noteq> [] \<and> slash \<notin> set c"
proof (cases "cs = []")
  case False
  then show ?thesis using that comps_join [OF False] by (simp add: normal_def filter_id_conv)
qed (simp add: normal_def)

section \<open>Properties\<close>

text \<open>
  \<open>is_canonical\<close> accepts exactly the strings \<^verbatim>\<open>:tag:c1/c2/.../cn\<close> with a tag of 1 to 8 characters other than a colon
  and with \<open>n \<ge> 0\<close> components that are not empty and contain no slash.
\<close>

theorem is_canonical_iff:
  "is_canonical (Some p) \<longleftrightarrow>
    (\<exists>tag cs. p = colon # tag @ colon # join cs \<and> colon \<notin> set tag \<and> 1 \<le> length tag \<and> length tag \<le> TAG_SIZE \<and>
      (\<forall>c \<in> set cs. c \<noteq> [] \<and> slash \<notin> set c))"
proof
  assume c: "is_canonical (Some p)"
  then obtain xs i where "p = colon # xs" "strchr_at xs colon = Some i" by (cases p) (auto simp: is_canonical.simps(3) split: if_splits option.splits)
  then obtain tag rest where p: "p = colon # tag @ colon # rest" "colon \<notin> set tag" using strchr_at_Some by blast
  have t: "1 \<le> length tag" "length tag \<le> TAG_SIZE" "normal rest = rest" using c unfolding p(1) is_canonical_split [OF p(2)] by auto
  let ?cs = "filter (\<lambda>c. c \<noteq> []) (comps rest)"
  have "p = colon # tag @ colon # join ?cs" using p(1) t(3) by (simp add: normal_def)
  moreover have "\<forall>c \<in> set ?cs. c \<noteq> [] \<and> slash \<notin> set c" using comps_no_slash by auto
  ultimately show "\<exists>tag cs. p = colon # tag @ colon # join cs \<and> colon \<notin> set tag \<and> 1 \<le> length tag \<and> length tag \<le> TAG_SIZE \<and>
      (\<forall>c \<in> set cs. c \<noteq> [] \<and> slash \<notin> set c)" using p(2) t(1,2) by blast
next
  assume "\<exists>tag cs. p = colon # tag @ colon # join cs \<and> colon \<notin> set tag \<and> 1 \<le> length tag \<and> length tag \<le> TAG_SIZE \<and>
      (\<forall>c \<in> set cs. c \<noteq> [] \<and> slash \<notin> set c)"
  then show "is_canonical (Some p)" using is_canonical_split normal_join by metis
qed

theorem is_canonical_iff_witness: "is_canonical (Some (str '':usb:a/b''))"
proof -
  have "str '':usb:a/b'' = colon # str ''usb'' @ colon # join [str ''a'', str ''b'']" by (simp add: str_def colon_def slash_def)
  then show ?thesis using is_canonical_iff [of "str '':usb:a/b''"] by (auto simp: str_def colon_def slash_def TAG_SIZE_def intro!: exI [of _ "str ''usb''"] exI [of _ "[str ''a'', str ''b'']"])
qed

text \<open>
  C38: \<open>try_make_canonical\<close> always returns 0 for a path with a second colon, never writes behind its buffer, and leaves the
  path with its components joined by single slashes: leading, trailing and repeated slashes are gone and nothing
  else has changed. The result is canonical exactly when the path starts with a colon and the tag has 1 to 8 characters; the value
  returned does not tell which. A path with no second colon is left alone and the result is -1.
\<close>

theorem try_make_canonical_normalises:
  assumes "colon \<notin> set tag"
  shows "try_make_canonical True (x # tag @ colon # rest) = Some (0, x # tag @ colon # normal rest,
      if is_canonical (Some (x # tag @ colon # rest)) then Some (length tag + length rest + 2) else None) \<and>
    (is_canonical (Some (x # tag @ colon # normal rest)) \<longleftrightarrow> x = colon \<and> 1 \<le> length tag \<and> length tag \<le> TAG_SIZE) \<and>
    try_make_canonical True (x # tag) = Some (-1, x # tag, None)"
proof -
  let ?p = "x # tag @ colon # rest"
  have norm: "normal (normal rest) = normal rest" unfolding normal_def [of rest] by (rule normal_join) (auto dest: comps_no_slash)
  have "strchr_at tag colon = None" using assms by (induction tag) auto
  then have three: "try_make_canonical True (x # tag) = Some (-1, x # tag, None)" by (simp add: try_make_canonical_def is_canonical.simps(3))
  have one: "try_make_canonical True ?p = Some (0, x # tag @ colon # normal rest, if is_canonical (Some ?p) then Some (length tag + length rest + 2) else None)"
  proof (cases "is_canonical (Some ?p)")
    case True
    then have "normal rest = rest" using is_canonical_split [OF assms] by blast
    then show ?thesis using True by (simp add: try_make_canonical_def)
  next
    case False
    have len: "length (x # tag @ [colon]) + length rest \<le> length ?p + 1" by simp
    obtain r where r: "squeeze (length ?p + 1) True rest (x # tag @ [colon]) = Some ((x # tag @ [colon]) @ normal rest, r)" "r = [] \<or> hd r = slash"
      using squeeze_normal [OF len, of True] by auto
    have "\<not> is_canonical (Some r)" using r(2) by (cases r) (auto simp: is_canonical.simps(3) slash_def colon_def)
    moreover note normal_length [of rest]
    ultimately show ?thesis using False r(1) assms
      by (simp add: try_make_canonical_def strchr_at_append put_def)
  qed
  show ?thesis using one three is_canonical_split [OF assms, of x "normal rest"] norm by blast
qed

theorem try_make_canonical_normalises_witness:
  "try_make_canonical True (str '':drive1://///hello////world////'') = Some (0, str '':drive1:hello/world'', None)"
proof -
  have p: "str '':drive1://///hello////world////'' = colon # str ''drive1'' @ colon # str ''/////hello////world////''" by (simp add: str_def colon_def)
  have n: "normal (str ''/////hello////world////'') = str ''hello/world''" by (simp add: str_def normal_def slash_def)
  have t: "colon \<notin> set (str ''drive1'')" by (simp add: str_def colon_def)
  have "\<not> is_canonical (Some (str '':drive1://///hello////world////''))"
    unfolding p is_canonical_split [OF t] n by (simp add: str_def)
  then show ?thesis using try_make_canonical_normalises [OF t, of colon "str ''/////hello////world////''"] unfolding p n by (simp add: str_def colon_def)
qed

text \<open>The cases of \<^verbatim>\<open>main\<close> all pass.\<close>

lemma tests_pass: "test_failures = 0"
  by (simp add: test_failures_def goods_def bads_def str_def is_canonical.simps(3) colon_def slash_def TAG_SIZE_def Let_def)

end
