(* ===== verification/PathWalk.thy ===== *)
theory PathWalk
  imports TestFs
begin

text \<open>
  Path lookup. \<open>find_parent\<close> of \<^verbatim>\<open>generic/fs/vfs.c\<close> walks over the delimiters of a path in memory; here it is
  compared with a walk over the list of the path's fields in the tree of the test file system.
\<close>

section \<open>The reference\<close>

text \<open>The fields of a path between its slashes, and a path without its trailing slashes.\<close>

fun path_fields :: "u8 list \<Rightarrow> u8 list list" where
  "path_fields [] = [[]]"
| "path_fields (x # xs) = (if x = 47 then [] # path_fields xs else (x # hd (path_fields xs)) # tl (path_fields xs))"

definition strip :: "u8 list \<Rightarrow> u8 list" where
  "strip xs = rev (dropWhile (\<lambda>x. x = 47) (rev xs))"

text \<open>The entries of a directory of the test file system, and the first one that a name matches.\<close>

definition dir_entries :: "nat \<Rightarrow> nat list" where
  "dir_entries d = (if d = 0 then [0..<6] else if d = 4 then [6..<8] else if d = 5 then [8..<10] else [])"

definition dir_lookup :: "nat \<Rightarrow> u8 list \<Rightarrow> nat option" where
  "dir_lookup d c = find (\<lambda>i. name_matches c (chars (node_names ! i))) (dir_entries d)"

text \<open>The walk from directory \<open>d\<close>; each field that is not empty takes one of the \<open>k\<close> free nodes.\<close>

fun tree_walk :: "nat \<Rightarrow> nat \<Rightarrow> u8 list list \<Rightarrow> nat option" where
  "tree_walk k d [] = Some d"
| "tree_walk k d (c # rest) =
    (if c = [] then tree_walk k d rest
     else if k = 0 then None
     else (case dir_lookup d c of None \<Rightarrow> None | Some i \<Rightarrow> if i \<in> {0, 4, 5} then tree_walk (k - 1) i rest else None))"

lemma path_fields_nonempty [simp]: "path_fields xs \<noteq> []"
  by (cases xs) auto

lemma path_fields_plain: "47 \<notin> set xs \<Longrightarrow> path_fields xs = [xs]"
  by (induction xs) auto

lemma path_fields_append: "47 \<notin> set c \<Longrightarrow> path_fields (c @ 47 # xs) = c # path_fields xs"
  by (induction c) auto

lemma strip_snoc: "strip (xs @ [x]) = (if x = 47 then strip xs else xs @ [x])"
  by (simp add: strip_def)

lemma strip_prefix: "\<exists>k. xs = strip xs @ replicate k 47"
proof (induction xs rule: rev_induct)
  case (snoc x xs)
  then obtain k where "xs = strip xs @ replicate k 47" by blast
  then have "xs @ [47] = strip xs @ replicate (Suc k) 47" by (metis append.assoc replicate_append_same replicate_Suc)
  then show ?case by (cases "x = 47") (metis strip_snoc, metis strip_snoc append_Nil2 replicate_0)
qed (simp add: strip_def)

section \<open>Delimiters in memory\<close>

lemma strnchr_none:
  assumes "cstr m q (ys @ ts)" and "47 \<notin> set ys"
  shows "strnchr q 47 (of_nat (length ys)) m = 0"
proof -
  have l: "length ys < 2 ^ 64" using cstr_length [OF assms(1)] by simp
  have "\<not> sint (m (q + of_nat j)) = 47" if "j < length ys" for j
    using cstr_nth [OF assms(1), of j] that assms(2) by (metis nth_append nth_mem sint_47 length_append trans_less_add1)
  then show ?thesis using assms(1) l find_None_upt [of "length ys" "\<lambda>j. sint (m (q + of_nat j)) = 47"]
    by (simp add: strnchr_def memchr_find strnlen_cstr unat_of_nat)
qed

lemma find_upt_first: "P i \<Longrightarrow> (\<And>j. j < i \<Longrightarrow> \<not> P j) \<Longrightarrow> i < n \<Longrightarrow> find P [0..<n] = Some i"
  by (auto simp: find_Some_iff)

lemma find_upt_last: "P i \<Longrightarrow> (\<And>j. i < j \<Longrightarrow> j < n \<Longrightarrow> \<not> P j) \<Longrightarrow> i < n \<Longrightarrow> find P (rev [0..<n]) = Some i"
  by (auto simp: find_Some_iff rev_nth intro!: exI [of _ "n - Suc i"])

lemma strnchr_first:
  assumes "cstr m q (c @ 47 # zs)" and "47 \<notin> set c" and "length c < n" and "n < 2 ^ 64"
  shows "strnchr q 47 (of_nat n) m = q + of_nat (length c)"
proof -
  have at: "m (q + of_nat j) = (c @ 47 # zs) ! j" if "j < length (c @ 47 # zs)" for j using cstr_nth [OF assms(1) that] by simp
  let ?P = "\<lambda>j. sint (m (q + of_nat j)) = 47" and ?n = "min n (length (c @ 47 # zs))"
  have "?P (length c)" using at [of "length c"] by (simp add: nth_append)
  moreover have "\<not> ?P j" if "j < length c" for j
    using at [of j] that nth_mem [OF that] assms(2) by (metis nth_append sint_47 length_append trans_less_add1)
  ultimately have "find ?P [0..<?n] = Some (length c)" using assms(3) by (intro find_upt_first) auto
  moreover have "unat (of_nat ?n :: u64) = ?n" using assms(4) by (simp add: unat_of_nat min_def)
  moreover have "unat (of_nat n :: u64) = n" using assms(4) by (simp add: unat_of_nat)
  ultimately show ?thesis using assms(1) by (simp add: strnchr_def memchr_find strnlen_cstr)
qed

lemma memrchr_last:
  assumes "cstr m q (ys @ ts)" and "ys = pre @ 47 # post" and "47 \<notin> set post" and "length ys < 2 ^ 63"
  shows "memrchr q 47 (of_nat (length ys)) m = q + of_nat (length pre)"
proof -
  have at: "m (q + of_nat j) = ys ! j" if "j < length ys" for j using cstr_nth [OF assms(1), of j] that by (simp add: nth_append)
  let ?P = "\<lambda>j. sint (m (q + of_nat j)) = 47"
  have "?P (length pre)" using at [of "length pre"] assms(2) by simp
  moreover have "\<not> ?P j" if "length pre < j" "j < length ys" for j
  proof -
    have "ys ! j = post ! (j - Suc (length pre))" using that assms(2) by (auto simp: nth_append nth_Cons')
    moreover have "j - Suc (length pre) < length post" using that assms(2) by auto
    then have "post ! (j - Suc (length pre)) \<in> set post" by (rule nth_mem)
    ultimately show ?thesis using at [OF that(2)] assms(3) by (metis sint_47)
  qed
  ultimately have "find ?P (rev [0..<length ys]) = Some (length pre)" using assms(2) by (intro find_upt_last) auto
  then show ?thesis using memrchr_find [of "length ys" q 47 m] assms(2,4) by simp
qed

text \<open>A string that does not reach the end of the address space: the addresses in it are ordered.\<close>

definition placed :: "u64 \<Rightarrow> nat \<Rightarrow> bool" where
  "placed q n \<longleftrightarrow> q \<noteq> 0 \<and> unat q + n < 2 ^ 64"

lemma placed_unat: "placed q n \<Longrightarrow> i \<le> n \<Longrightarrow> unat (q + of_nat i) = unat q + i"
  by (simp add: placed_def unat_word_ariths unat_of_nat)

lemma placed_nonzero: "placed q n \<Longrightarrow> i \<le> n \<Longrightarrow> q + of_nat i \<noteq> 0"
  using placed_unat [of q n i] by (auto simp: placed_def unat_eq_0)

lemma placed_add: "placed q n \<Longrightarrow> i \<le> n \<Longrightarrow> placed (q + of_nat i) (n - i)"
  using placed_unat [of q n i] placed_nonzero [of q n i] by (simp add: placed_def)

lemma trailing_loop_strip:
  assumes "\<And>i. i < length ys \<Longrightarrow> m (q + of_nat i) = ys ! i" and "placed q (length ys)"
  shows "trailing_loop m q (q + of_nat (length ys) - 1) = Some (q + of_nat (length (strip ys)) - 1)"
  using assms
proof (induction ys rule: rev_induct)
  case Nil
  have "unat (q - 1) = unat q - 1" using Nil by (simp add: placed_def unat_minus_one)
  moreover have "0 < unat q" using Nil by (simp add: placed_def unat_gt_0)
  ultimately have "\<not> q \<le> q - 1" by (simp add: word_le_nat_alt)
  then show ?case by (simp add: strip_def trailing_loop.simps)
next
  case (snoc y ys)
  have m: "m (q + of_nat (length ys)) = y" using snoc.prems(1) [of "length ys"] by simp
  have le: "q \<le> q + of_nat (length ys)" using placed_unat [OF snoc.prems(2), of "length ys"] by (simp add: word_le_nat_alt)
  have e: "q + of_nat (length (ys @ [y])) - 1 = q + of_nat (length ys)" by simp
  have "m (q + of_nat i) = ys ! i" if "i < length ys" for i using snoc.prems(1) [of i] that by (simp add: nth_append)
  moreover have "placed q (length ys)" using snoc.prems(2) by (simp add: placed_def)
  ultimately have IH: "trailing_loop m q (q + of_nat (length ys) - 1) = Some (q + of_nat (length (strip ys)) - 1)" by (rule snoc.IH)
  show ?case unfolding e using IH m le by (subst trailing_loop.simps) (simp add: strip_snoc)
qed

lemma first_of_trailing_strip:
  assumes "cstr m q xs" and "placed q (length xs)"
  shows "first_of_trailing q m = Some (q + of_nat (length (strip xs)))"
  using trailing_loop_strip [of xs m q] assms cstr_nth [OF assms(1)] by (simp add: first_of_trailing_def strlen_cstr)

section \<open>One step\<close>

text \<open>Node \<open>n\<close> stands for directory \<open>d\<close> and has no cached links.\<close>

definition dir_node :: "nat \<Rightarrow> nat \<Rightarrow> 'x kernel_scheme \<Rightarrow> bool" where
  "dir_node d n s \<longleftrightarrow> n < length (fsnodes s) \<and> node_fs (Some n) s \<noteq> None \<and>
    (let nd = fsnodes s ! n in internal_id nd = int d \<and> ntype nd = DIRECTORY \<and> child nd = None \<and> perms nd AND FP_XOTH \<noteq> 0)"

definition free_nodes :: "'x kernel_scheme \<Rightarrow> nat" where
  "free_nodes s = length (filter (\<lambda>n. ntype n = EMPTY) (fsnodes s))"

lemma root_ready_dir: "root_ready R r s \<Longrightarrow> dir_node 0 r s"
  by (simp add: root_ready_def dir_node_def Let_def ID_ROOT_DIR_def)

lemma dir_node_exec: "dir_node d n s \<Longrightarrow> can_exec (Some n) p s = Some True"
  by (simp add: dir_node_def can_exec_def nth_opt_def Let_def)

lemma dir_entries_less: "i \<in> set (dir_entries d) \<Longrightarrow> i < 10"
  by (auto simp: dir_entries_def split: if_splits)

lemma dir_lookup_less: "dir_lookup d c = Some i \<Longrightarrow> i < 10"
  unfolding dir_lookup_def by (metis dir_entries_less find_Some_iff nth_mem)

lemma retrieve_entries:
  assumes "n < length (fsnodes s)" and "internal_id (fsnodes s ! n) = int d"
  shows "tfs_retrieve_child R n nm len s = Some (tfs_scan R nm len (kmem s) (dir_entries d), s)"
  using assms by (auto simp: tfs_retrieve_child_def nth_opt_def dir_entries_def ID_ROOT_DIR_def ID_TESTDIR1_def ID_TESTDIR2_def
      ROOT_SENTINAL_def DIR1_SENTINAL_def DIR2_SENTINAL_def)

text \<open>Looking a field up takes the first free node for the entry that matches.\<close>

lemma get_node_field:
  assumes d: "dir_node d n s" and ro: "rodata_ok R (kmem s)" and nm: "cstr (kmem s) nm zs" "len \<le> length zs" and k: "find_free_node s = int k"
  shows "get_node_with_len (tfs_env R base) (Some n) nm (of_nat len) s =
    (let s1 = upd_node k (\<lambda>x. x\<lparr>mountpoint := mountpoint (fsnodes s ! n)\<rparr>) s
     in case dir_lookup d (take len zs) of None \<Rightarrow> Some (None, s1) | Some i \<Rightarrow> Some (Some k, upd_node k (tfs_fill (int i)) s1))"
proof -
  have free: "k < length (fsnodes s)" "ntype (fsnodes s ! k) = EMPTY"
    using nt.find_in_range [of "fsnodes s"] nt.find_is_free [of "fsnodes s"] k by (auto simp: find_free_node_def)
  have n: "n < length (fsnodes s)" "internal_id (fsnodes s ! n) = int d" "child (fsnodes s ! n) = None" "n \<noteq> k"
    using d free by (auto simp: dir_node_def Let_def)
  let ?s1 = "upd_node k (\<lambda>x. x\<lparr>mountpoint := mountpoint (fsnodes s ! n)\<rparr>) s"
  obtain f where f: "node_fs (Some n) ?s1 = Some f" using d n by (auto simp: dir_node_def node_fs_def nth_opt_def)
  have sc: "tfs_scan R nm (of_nat len) (kmem s) (dir_entries d) = (case dir_lookup d (take len zs) of None \<Rightarrow> -1 | Some i \<Rightarrow> int i)"
    unfolding dir_lookup_def using dir_entries_less by (intro tfs_scan_field [OF ro nm]) blast
  have "tfs_retrieve_child R n nm (of_nat len) ?s1 = Some (tfs_scan R nm (of_nat len) (kmem s) (dir_entries d), ?s1)"
    using retrieve_entries [of n ?s1 d] n free by simp
  then show ?thesis using n free k f sc
    by (auto simp: get_node_with_len_def link_search.simps nth_opt_def Let_def tfs_env_def testfs_type_def tfs_node_from_id_def DIR2_SENTINAL_def
        split: option.splits dest: dir_lookup_less)
qed

lemma free_nodes_fill:
  assumes "find_free_node s = int k" and "ntype nd \<noteq> EMPTY"
  shows "free_nodes s = Suc (free_nodes (s\<lparr>fsnodes := (fsnodes s)[k := nd]\<rparr>))"
proof -
  have "find_free_node_in (fsnodes s) = int k" using assms(1) by (simp add: find_free_node_def)
  then show ?thesis using nt.fill_count [of "fsnodes s" nd] assms(2) by (simp add: free_nodes_def)
qed

lemma free_nodes_0: "free_nodes s = 0 \<longleftrightarrow> find_free_node s = -1"
  by (auto simp: free_nodes_def find_free_node_def nt.find_none_iff filter_empty_conv)

lemma find_free_node_cases: "find_free_node s = -1 \<or> (\<exists>k. find_free_node s = int k)"
  using nt.find_in_range [of "fsnodes s"] by (metis find_free_node_def nonneg_int_cases)

section \<open>The walk\<close>

text \<open>Nothing but the table of nodes differs.\<close>

definition only_nodes :: "'x kernel_scheme \<Rightarrow> 'x kernel_scheme \<Rightarrow> bool" where
  "only_nodes s s' \<longleftrightarrow> s' = s\<lparr>fsnodes := fsnodes s'\<rparr>"

lemma only_nodes_refl [simp]: "only_nodes s s" and only_nodes_upd [simp]: "only_nodes s (s\<lparr>fsnodes := ns\<rparr>)" "only_nodes s (upd_node k f s)"
  by (simp_all add: only_nodes_def upd_node_def)

lemma only_nodes_trans: "only_nodes s s1 \<Longrightarrow> only_nodes s1 s2 \<Longrightarrow> only_nodes s s2"
  unfolding only_nodes_def by (metis kernel.surjective kernel.update_convs(1))

lemma only_nodes_keeps: "only_nodes s s' \<Longrightarrow> kmem s' = kmem s \<and> open_files s' = open_files s \<and> vfs_root s' = vfs_root s"
  unfolding only_nodes_def by (metis kernel.ext_inject kernel.surjective kproc.ext_inject kproc.surjective kernel.update_convs(1))

text \<open>What the walk returns: NULL, or a node for the directory and \<open>k\<close> nodes left.\<close>

definition found :: "nat option \<Rightarrow> nat \<Rightarrow> nat option \<Rightarrow> 'x kernel_scheme \<Rightarrow> bool" where
  "found w k r s \<longleftrightarrow> (case w of None \<Rightarrow> r = None | Some d \<Rightarrow> \<exists>n. r = Some n \<and> dir_node d n s \<and> free_nodes s = k)"

definition n_named :: "u8 list list \<Rightarrow> nat" where
  "n_named fs = length (filter (\<lambda>c. c \<noteq> []) fs)"

lemma n_named_simps [simp]: "n_named [] = 0" "n_named (c # fs) = (if c = [] then n_named fs else Suc (n_named fs))"
  by (simp_all add: n_named_def)

text \<open>The body of the loop behind a field: the new parent, or NULL.\<close>

lemma field_step:
  assumes d: "dir_node d n s" and ro: "rodata_ok R (kmem s)" and nm: "cstr (kmem s) q (c @ 47 # zs)" and c: "c \<noteq> []"
  shows "\<exists>r s1. get_node_with_len (tfs_env R base) (Some n) q (of_nat (length c)) s = Some (r, s1) \<and> only_nodes s s1 \<and>
    (case (if free_nodes s = 0 then None else dir_lookup d c) of
       None \<Rightarrow> r = None
     | Some i \<Rightarrow> \<exists>k. r = Some k \<and> k < length (fsnodes s1) \<and> (ntype (fsnodes s1 ! k) = DIRECTORY \<longleftrightarrow> i \<in> {0, 4, 5}) \<and>
          (i \<in> {0, 4, 5} \<longrightarrow> dir_node i k s1) \<and> free_nodes s1 = free_nodes s - 1)"
proof (cases "find_free_node s = -1")
  case True
  then have "get_node_with_len (tfs_env R base) (Some n) q (of_nat (length c)) s = Some (None, s)"
    using d by (simp add: get_node_with_len_def dir_node_def Let_def link_search.simps nth_opt_def)
  then show ?thesis using True free_nodes_0 [of s] by simp
next
  case False
  then obtain k where k: "find_free_node s = int k" using find_free_node_cases by blast
  then have kl: "k < length (fsnodes s)" "n \<noteq> k" using nt.find_in_range [of "fsnodes s"] nt.find_is_free [of "fsnodes s"] d
    by (auto simp: find_free_node_def dir_node_def Let_def)
  let ?s1 = "upd_node k (\<lambda>x. x\<lparr>mountpoint := mountpoint (fsnodes s ! n)\<rparr>) s"
  have g: "get_node_with_len (tfs_env R base) (Some n) q (of_nat (length c)) s =
      (case dir_lookup d c of None \<Rightarrow> Some (None, ?s1) | Some i \<Rightarrow> Some (Some k, upd_node k (tfs_fill (int i)) ?s1))"
    using get_node_field [OF d ro nm _ k, of "length c"] by (simp add: Let_def)
  have nz: "free_nodes s \<noteq> 0" using False free_nodes_0 by blast
  show ?thesis
  proof (cases "dir_lookup d c")
    case None
    then show ?thesis using g by simp
  next
    case (Some i)
    let ?nd = "tfs_fill (int i) ((fsnodes s ! k)\<lparr>mountpoint := mountpoint (fsnodes s ! n)\<rparr>)"
    have s2: "upd_node k (tfs_fill (int i)) ?s1 = s\<lparr>fsnodes := (fsnodes s)[k := ?nd]\<rparr>" using kl by (simp add: upd_node_def)
    have "free_nodes s = Suc (free_nodes (s\<lparr>fsnodes := (fsnodes s)[k := ?nd]\<rparr>))" by (rule free_nodes_fill [OF k]) simp
    moreover have "node_fs (Some k) (s\<lparr>fsnodes := (fsnodes s)[k := ?nd]\<rparr>) = node_fs (Some n) s"
      using kl d by (simp add: node_fs_def dir_node_def nth_opt_def)
    moreover have "get_node_with_len (tfs_env R base) (Some n) q (of_nat (length c)) s = Some (Some k, s\<lparr>fsnodes := (fsnodes s)[k := ?nd]\<rparr>)"
      using g Some by (simp add: s2)
    ultimately show ?thesis using Some nz kl d by (auto simp: dir_node_def Let_def FP_XOTH_def)
  qed
qed

lemma slash_cases:
  obtains "47 \<notin> set (ys :: u8 list)" | c rest where "ys = c @ 47 # rest" "47 \<notin> set c"
  by (metis split_list_first)

text \<open>One round of the loop, for an empty field and for a field that is looked up.\<close>

lemma loop_empty_field:
  assumes "dir_node d n s" and "strnchr q 47 (endp - q) (kmem s) = q" and "q \<noteq> 0"
  shows "find_parent_loop E endp ld p (Some n) q s = (if q = ld then Some (Some n, s) else find_parent_loop E endp ld p (Some n) (q + 1) s)"
  using assms dir_node_exec [OF assms(1), of p] by (subst find_parent_loop.simps) (simp add: Let_def dir_node_def nth_opt_def deref_def)

lemma loop_field:
  assumes d: "dir_node d n s" and ro: "rodata_ok R (kmem s)" and nm: "cstr (kmem s) q (c @ 47 # zs)" and c: "c \<noteq> []" "length c < 2 ^ 63"
    and nd: "strnchr q 47 (endp - q) (kmem s) = q + of_nat (length c)" "q + of_nat (length c) \<noteq> 0"
  shows "\<exists>s1. only_nodes s s1 \<and>
    (if free_nodes s \<noteq> 0 \<and> dir_lookup d c \<in> {Some 0, Some 4, Some 5}
     then \<exists>k. dir_node (the (dir_lookup d c)) k s1 \<and> free_nodes s1 = free_nodes s - 1 \<and>
       find_parent_loop (tfs_env R base) endp ld p (Some n) q s = (if q + of_nat (length c) = ld then Some (Some k, s1)
         else find_parent_loop (tfs_env R base) endp ld p (Some k) (q + of_nat (length c) + 1) s1)
     else find_parent_loop (tfs_env R base) endp ld p (Some n) q s = Some (None, s1))"
proof -
  have fl: "0 < sint (q + of_nat (length c) - q)" using sint_of_nat_u64 [of "length c"] c by simp
  obtain r s1 where g: "get_node_with_len (tfs_env R base) (Some n) q (of_nat (length c)) s = Some (r, s1)" "only_nodes s s1"
      "case (if free_nodes s = 0 then None else dir_lookup d c) of
         None \<Rightarrow> r = None
       | Some i \<Rightarrow> \<exists>k. r = Some k \<and> k < length (fsnodes s1) \<and> (ntype (fsnodes s1 ! k) = DIRECTORY \<longleftrightarrow> i \<in> {0, 4, 5}) \<and>
            (i \<in> {0, 4, 5} \<longrightarrow> dir_node i k s1) \<and> free_nodes s1 = free_nodes s - 1"
    using field_step [OF d ro nm c(1)] by blast
  show ?thesis
  proof (cases "free_nodes s \<noteq> 0 \<and> dir_lookup d c \<in> {Some 0, Some 4, Some 5}")
    case True
    then obtain k where k: "r = Some k" "dir_node (the (dir_lookup d c)) k s1" "free_nodes s1 = free_nodes s - 1" "k < length (fsnodes s1)"
        "ntype (fsnodes s1 ! k) = DIRECTORY" using g(3) by auto
    then have "find_parent_loop (tfs_env R base) endp ld p (Some n) q s = (if q + of_nat (length c) = ld then Some (Some k, s1)
        else find_parent_loop (tfs_env R base) endp ld p (Some k) (q + of_nat (length c) + 1) s1)"
      using nd fl g(1) dir_node_exec [OF k(2), of p] by (subst find_parent_loop.simps) (simp add: Let_def nth_opt_def deref_def)
    with k True g(2) show ?thesis by auto
  next
    case False
    then have "find_parent_loop (tfs_env R base) endp ld p (Some n) q s = Some (None, s1)"
      using nd fl g by (subst find_parent_loop.simps) (auto simp: Let_def nth_opt_def deref_def split: option.splits if_splits)
    with False g(2) show ?thesis by auto
  qed
qed

text \<open>\<open>last_slash q ys ld\<close>: \<open>ld\<close> is the address of the last slash of the string \<open>ys\<close> at \<open>q\<close>, if it has any.\<close>

definition last_slash :: "u64 \<Rightarrow> u8 list \<Rightarrow> u64 \<Rightarrow> bool" where
  "last_slash q ys ld \<longleftrightarrow> (\<forall>pre post. ys = pre @ 47 # post \<longrightarrow> 47 \<notin> set post \<longrightarrow> ld = q + of_nat (length pre))"

lemma last_slash_rest:
  assumes "last_slash q (c @ 47 # rest) ld"
  shows "last_slash (q + of_nat (length c) + 1) rest ld"
  unfolding last_slash_def
proof (intro allI impI)
  fix pre post assume "rest = pre @ 47 # post" and "47 \<notin> set post"
  then show "ld = q + of_nat (length c) + 1 + of_nat (length pre)"
    using assms [unfolded last_slash_def, rule_format, of "c @ 47 # pre" post] by (simp add: algebra_simps)
qed

lemma last_slash_iff:
  assumes ls: "last_slash q (c @ 47 # rest) ld" and pl: "placed q (length (c @ 47 # rest))"
  shows "q + of_nat (length c) = ld \<longleftrightarrow> 47 \<notin> set rest"
proof (cases "47 \<in> set rest")
  case True
  then obtain pre post where r: "rest = pre @ 47 # post" "47 \<notin> set post" by (metis split_list_last)
  let ?k = "length c + 1 + length pre"
  have "ld = q + of_nat ?k" using last_slash_rest [OF ls] r by (simp add: last_slash_def algebra_simps)
  moreover have "unat (q + of_nat ?k) = unat q + ?k" "unat (q + of_nat (length c)) = unat q + length c"
    using r(1) by (intro placed_unat [OF pl]; simp)+
  ultimately show ?thesis using True by (metis add_left_cancel less_add_one less_not_refl trans_less_add1)
qed (use ls in \<open>auto simp: last_slash_def\<close>)

lemma find_parent_loop_resolves:
  fixes s :: "'x kernel_scheme"
  assumes "dir_node d n s" and "rodata_ok R (kmem s)" and "cstr (kmem s) q (ys @ ts)" and "placed q (length ys)" and "length ys < 2 ^ 63"
    and "last_slash q ys ld"
  shows "\<exists>r s'. find_parent_loop (tfs_env R base) (q + of_nat (length ys)) ld p (Some n) q s = Some (r, s') \<and> only_nodes s s' \<and>
    found (tree_walk (free_nodes s) d (butlast (path_fields ys))) (free_nodes s - n_named (butlast (path_fields ys))) r s'"
  using assms
proof (induction "length ys" arbitrary: ys q d n s rule: less_induct)
  case less
  show ?case
  proof (cases ys rule: slash_cases)
    case 1
    then show ?thesis using strnchr_none [OF less.prems(3) 1] less.prems(1)
      by (simp add: find_parent_loop.simps path_fields_plain found_def)
  next
    case (2 c rest)
    let ?next = "q + of_nat (length c)" and ?q = "q + of_nat (length c) + 1" and ?loop = "find_parent_loop (tfs_env R base) (q + of_nat (length ys)) ld p"
    have cs: "cstr (kmem s) q (c @ 47 # rest @ ts)" using less.prems(3) 2(1) by simp
    have l: "length c < length ys" "length ys < 2 ^ 64" "length c < 2 ^ 63" using 2(1) less.prems(5) by auto
    have nd: "strnchr q 47 (q + of_nat (length ys) - q) (kmem s) = ?next" "?next \<noteq> 0"
      using strnchr_first [OF cs 2(2) l(1,2)] placed_nonzero [OF less.prems(4), of "length c"] l(1) by simp_all
    have fs: "butlast (path_fields ys) = c # butlast (path_fields rest)" using 2 by (simp add: path_fields_append)
    have last: "?next = ld \<longleftrightarrow> 47 \<notin> set rest" using last_slash_iff less.prems(4,6) 2(1) by blast
    have cq: "cstr (kmem s) ?q (rest @ ts)" using cstr_drop [OF cs, of "Suc (length c)"] by (simp add: algebra_simps)
    have pq: "placed ?q (length rest)" using placed_add [OF less.prems(4), of "Suc (length c)"] 2(1) by (simp add: algebra_simps)
    have eq: "q + of_nat (length ys) = ?q + of_nat (length rest)" using 2(1) by (simp add: algebra_simps)
    have cont: "\<exists>r s'. (if ?next = ld then Some (Some n1, s1) else ?loop (Some n1) ?q s1) = Some (r, s') \<and> only_nodes s s' \<and>
        found (tree_walk (free_nodes s1) d1 (butlast (path_fields rest))) (free_nodes s1 - n_named (butlast (path_fields rest))) r s'" if s1: "dir_node d1 n1 s1" "only_nodes s s1" for d1 n1 and s1 :: "'x kernel_scheme"
    proof (cases "47 \<in> set rest")
      case True
      have "\<exists>r s'. find_parent_loop (tfs_env R base) (?q + of_nat (length rest)) ld p (Some n1) ?q s1 = Some (r, s') \<and> only_nodes s1 s' \<and>
          found (tree_walk (free_nodes s1) d1 (butlast (path_fields rest))) (free_nodes s1 - n_named (butlast (path_fields rest))) r s'"
        by (rule less.hyps [OF _ s1(1)]) (use 2(1) only_nodes_keeps [OF s1(2)] less.prems(2,5,6) cq pq last_slash_rest in simp_all)
      then show ?thesis unfolding eq using True last only_nodes_trans [OF s1(2)] by (smt (verit))
    qed (use last s1 in \<open>simp add: path_fields_plain found_def\<close>)
    show ?thesis
    proof (cases "c = []")
      case True
      then have "?loop (Some n) q s = (if ?next = ld then Some (Some n, s) else ?loop (Some n) ?q s)"
        using loop_empty_field [OF less.prems(1)] nd by simp
      then show ?thesis using cont [OF less.prems(1) only_nodes_refl] True unfolding fs by simp
    next
      case False
      let ?ok = "free_nodes s \<noteq> 0 \<and> dir_lookup d c \<in> {Some 0, Some 4, Some 5}"
      obtain s1 where s1: "only_nodes s s1" "if ?ok then \<exists>k. dir_node (the (dir_lookup d c)) k s1 \<and> free_nodes s1 = free_nodes s - 1 \<and>
            ?loop (Some n) q s = (if ?next = ld then Some (Some k, s1) else ?loop (Some k) ?q s1) else ?loop (Some n) q s = Some (None, s1)"
        using loop_field [OF less.prems(1,2) cs False l(3) nd, of base ld p] by blast
      show ?thesis
      proof (cases ?ok)
        case True
        then obtain i k where "dir_lookup d c = Some i" "i \<in> {0, 4, 5}" "dir_node i k s1" "free_nodes s1 = free_nodes s - 1"
            "?loop (Some n) q s = (if ?next = ld then Some (Some k, s1) else ?loop (Some k) ?q s1)" using s1(2) by auto
        then show ?thesis using cont [of i k s1] s1(1) False True unfolding fs by simp
      next
        case bad: False
        then show ?thesis using s1 False unfolding fs by (auto simp: found_def split: option.splits if_splits)
      qed
    qed
  qed
qed

text \<open>The whole lookup of the parent directory.\<close>

definition path_ok :: "mem \<Rightarrow> u64 \<Rightarrow> u8 list \<Rightarrow> bool" where
  "path_ok m path xs \<longleftrightarrow> cstr m path (47 # xs) \<and> path \<noteq> 0 \<and> unat path + length xs + 1 < 2 ^ 64 \<and> Suc (length xs) < 2 ^ 63"

lemma find_parent_found:
  assumes rt: "root_ready R r s" and path: "path_ok (kmem s) path xs"
  shows "\<exists>d s'. find_parent_checkperm (tfs_env R base) (Some r) path p s = Some (d, s') \<and> only_nodes s s' \<and>
    found (tree_walk (free_nodes s) 0 (butlast (path_fields (strip xs)))) (free_nodes s - n_named (butlast (path_fields (strip xs)))) d s'"
proof -
  let ?q = "path + 1" and ?ys = "strip xs"
  obtain k where k: "xs = ?ys @ replicate k 47" using strip_prefix by blast
  have c: "cstr (kmem s) ?q xs" "kmem s path = 47" using path by (auto simp: path_ok_def)
  have "unat ?q = unat path + 1" using path by (simp add: path_ok_def unat_word_ariths)
  then have pl: "placed ?q (length xs)" using path by (auto simp: path_ok_def placed_def)
  have le: "length ?ys \<le> length xs" using arg_cong [OF k, of length] by simp
  then have pl2: "placed ?q (length ?ys)" using pl by (simp add: placed_def)
  have cy: "cstr (kmem s) ?q (?ys @ replicate k 47)" using c(1) k by simp
  have ro: "rodata_ok R (kmem s)" using rt by (simp add: root_ready_def)
  have l63: "length ?ys < 2 ^ 63" using le path by (simp add: path_ok_def)
  have ls: "last_slash ?q ?ys (memrchr ?q 47 (of_nat (length ?ys)) (kmem s))"
    unfolding last_slash_def using memrchr_last [OF cy _ _ l63] by blast
  have "find_parent_checkperm (tfs_env R base) (Some r) path p s =
      find_parent_loop (tfs_env R base) (?q + of_nat (length ?ys)) (memrchr ?q 47 (of_nat (length ?ys)) (kmem s)) p (Some r) ?q s"
    using first_of_trailing_strip [OF c(1) pl] c(2) root_can_exec [OF rt] by (simp add: find_parent_checkperm_def)
  then show ?thesis using find_parent_loop_resolves [OF root_ready_dir [OF rt] ro cy pl2 l63 ls] by simp
qed

text \<open>The name that \<open>basename\<close> finds: the last field and the slashes behind it.\<close>

definition last_name :: "u8 list \<Rightarrow> u8 list" where
  "last_name xs = last (path_fields (strip xs)) @ drop (length (strip xs)) xs"

lemma path_fields_last: "\<exists>pre. 47 # ys = pre @ 47 # last (path_fields ys)" and path_fields_last_plain: "47 \<notin> set (last (path_fields ys))"
proof -
  have "(\<exists>pre. 47 # ys = pre @ 47 # last (path_fields ys)) \<and> 47 \<notin> set (last (path_fields ys))"
  proof (induction "length ys" arbitrary: ys rule: less_induct)
    case less
    show ?case
    proof (cases ys rule: slash_cases)
      case 1
      then show ?thesis by (simp add: path_fields_plain)
    next
      case (2 c rest)
      then obtain pre where pre: "47 # rest = pre @ 47 # last (path_fields rest)" "47 \<notin> set (last (path_fields rest))" using less.hyps [of rest] by auto
      have "last (path_fields ys) = last (path_fields rest)" using 2 by (simp add: path_fields_append)
      moreover have "47 # ys = (47 # c @ pre) @ 47 # last (path_fields rest)" using 2(1) pre(1) by simp
      ultimately show ?thesis using pre(2) by metis
    qed
  qed
  then show "\<exists>pre. 47 # ys = pre @ 47 # last (path_fields ys)" "47 \<notin> set (last (path_fields ys))" by blast+
qed

lemma strip_Cons: "strip xs \<noteq> [] \<Longrightarrow> strip (47 # xs) = 47 # strip xs" and strip_all: "strip xs = [] \<Longrightarrow> strip (47 # xs) = []"
proof -
  show "strip (47 # xs) = 47 # strip xs" if "strip xs \<noteq> []"
    using that by (induction xs rule: rev_induct) (auto simp: strip_snoc simp flip: append_Cons split: if_splits, simp add: strip_def)
  show "strip (47 # xs) = []" if "strip xs = []"
    using that by (auto simp: strip_def dropWhile_eq_Nil_conv)
qed

lemma basename_last:
  assumes path: "path_ok m path xs"
  shows "if strip xs = [] then basename path m = Some 0 else \<exists>b. basename path m = Some b \<and> b \<noteq> 0 \<and> cstr m b (last_name xs)"
proof -
  have c: "cstr m path (47 # xs)" and pl: "placed path (length (47 # xs))" and l: "Suc (length xs) < 2 ^ 63"
    using path by (auto simp: path_ok_def placed_def)
  note f = first_of_trailing_strip [OF c pl]
  show ?thesis
  proof (cases "strip xs = []")
    case True
    then show ?thesis using f by (simp add: strip_all basename_def memrchr_def)
  next
    case False
    let ?nm = "last (path_fields (strip xs))"
    obtain k where k: "xs = strip xs @ replicate k 47" using strip_prefix by blast
    obtain pre where pre: "47 # strip xs = pre @ 47 # ?nm" using path_fields_last by blast
    have s: "strip (47 # xs) = pre @ 47 # ?nm" using strip_Cons [OF False] pre by simp
    have z: "47 # xs = (pre @ 47 # ?nm) @ replicate k 47" using k pre by (metis append_Cons)
    have len: "Suc (length pre) \<le> length (47 # xs)" using arg_cong [OF z, of length] by simp
    have "memrchr path 47 (of_nat (length (strip (47 # xs)))) m = path + of_nat (length pre)"
    proof (rule memrchr_last [OF _ s path_fields_last_plain])
      show "cstr m path (strip (47 # xs) @ replicate k 47)" using c z s by metis
      show "length (strip (47 # xs)) < 2 ^ 63" using arg_cong [OF z, of length] l unfolding s by simp
    qed
    moreover have "path + of_nat (length pre) \<noteq> 0" "path + of_nat (Suc (length pre)) \<noteq> 0"
      using len by (intro placed_nonzero [OF pl]; simp)+
    moreover have "cstr m (path + of_nat (Suc (length pre))) (drop (Suc (length pre)) (47 # xs))" by (rule cstr_drop [OF c len])
    moreover have "drop (Suc (length pre)) (47 # xs) = last_name xs"
    proof -
      have "drop (length (strip xs)) xs = replicate k 47" using k by (metis append_eq_conv_conj)
      then show ?thesis unfolding z last_name_def by simp
    qed
    ultimately show ?thesis using f False by (simp add: basename_def algebra_simps)
  qed
qed

text \<open>Opening the entry that a name matches.\<close>

lemma open_null: "vfs_open_node E p OF_READ None s = None"
  by (simp add: vfs_open_node_def can_read_def deref_def OF_READ_def OF_APPEND_def OF_WRITE_def)

lemma open_name:
  assumes d: "dir_node d n s" and ro: "rodata_ok R (kmem s)" and b: "cstr (kmem s) b nm" "b \<noteq> 0"
    and fd: "find_free_fd s \<noteq> -1"
  shows "case (if free_nodes s = 0 then None else dir_lookup d (take 32 nm)) of
      None \<Rightarrow> do { (node, s2) \<leftarrow> get_node (tfs_env R base) (Some n) b s; vfs_open_node (tfs_env R base) p OF_READ node s2 } = None
    | Some i \<Rightarrow> \<exists>k s'. do { (node, s2) \<leftarrow> get_node (tfs_env R base) (Some n) b s; vfs_open_node (tfs_env R base) p OF_READ node s2 } = Some (find_free_fd s, s') \<and>
        open_files s' = (open_files s)[nat (find_free_fd s) := \<lparr>onode = Some k, cursor = 0, omode = OF_READ, oproc = p\<rparr>] \<and>
        internal_id (fsnodes s' ! k) = int i \<and> ref_count (fsnodes s' ! k) = 1"
proof -
  have len: "strnlen b FILENAME_SIZE (kmem s) = of_nat (min 32 (length nm))" using b(1) by (simp add: strnlen_cstr FILENAME_SIZE_def)
  have tk: "take (min 32 (length nm)) nm = take 32 nm" by (simp add: min_def)
  show ?thesis
  proof (cases "find_free_node s = -1")
    case True
    then have "get_node (tfs_env R base) (Some n) b s = Some (None, s)"
      using d b(2) by (simp add: get_node_def get_node_with_len_def dir_node_def Let_def link_search.simps nth_opt_def)
    then show ?thesis using True free_nodes_0 [of s] by (simp add: open_null)
  next
    case False
    then obtain k where k: "find_free_node s = int k" using find_free_node_cases by blast
    then have kl: "k < length (fsnodes s)" "n \<noteq> k" using nt.find_in_range [of "fsnodes s"] nt.find_is_free [of "fsnodes s"] d
      by (auto simp: find_free_node_def dir_node_def Let_def)
    let ?s1 = "upd_node k (\<lambda>x. x\<lparr>mountpoint := mountpoint (fsnodes s ! n)\<rparr>) s"
    have g: "get_node (tfs_env R base) (Some n) b s =
        (case dir_lookup d (take 32 nm) of None \<Rightarrow> Some (None, ?s1) | Some i \<Rightarrow> Some (Some k, upd_node k (tfs_fill (int i)) ?s1))"
      using get_node_field [OF d ro b(1) _ k, of "min 32 (length nm)"] b(2) unfolding get_node_def len tk by (simp add: Let_def)
    have nz: "free_nodes s \<noteq> 0" using False free_nodes_0 by blast
    show ?thesis
    proof (cases "dir_lookup d (take 32 nm)")
      case None
      then show ?thesis using g by (simp add: open_null)
    next
      case (Some i)
      let ?s2 = "upd_node k (tfs_fill (int i)) ?s1"
      obtain f where f: "node_fs (Some k) ?s2 = Some f" using d kl by (auto simp: node_fs_def dir_node_def nth_opt_def)
      have "can_read (Some k) p ?s2 = Some True" using kl by (simp add: can_read_def nth_opt_def FP_ROTH_def)
      moreover have "find_free_fd ?s2 = find_free_fd s" by (simp add: find_free_fd_def)
      ultimately have "vfs_open_node (tfs_env R base) p OF_READ (Some k) ?s2 = Some (find_free_fd s,
          upd_node k (\<lambda>n. n\<lparr>ref_count := ref_count n + 1\<rparr>) (upd_file (nat (find_free_fd s)) (\<lambda>_. \<lparr>onode = Some k, cursor = 0, omode = OF_READ, oproc = p\<rparr>) ?s2))"
        using f fd by (simp add: vfs_open_node_def tfs_env_def testfs_type_def tfs_open_def OF_READ_def OF_APPEND_def OF_WRITE_def Let_def)
      then show ?thesis using g Some nz kl by (auto simp: upd_node_def upd_file_def)
    qed
  qed
qed

section \<open>Properties\<close>

text \<open>
  C26: Path lookup terminates and resolves the path. For any path that starts with a slash, on the mounted test file system,
  \<open>find_parent_checkperm\<close> returns; the result is a node of the directory to which the walk over the fields of the path, without the last one and without
  trailing slashes, leads from the root; it is NULL when the walk meets a name that matches no entry, an entry that is no directory, or runs out of
  free nodes. Only the table of nodes changes.
\<close>

theorem find_parent_resolves:
  assumes "root_ready R r s" and "path_ok (kmem s) path xs"
  shows "\<exists>d s'. find_parent_checkperm (tfs_env R base) (Some r) path p s = Some (d, s') \<and> only_nodes s s' \<and>
    (case tree_walk (free_nodes s) 0 (butlast (path_fields (strip xs))) of
       None \<Rightarrow> d = None
     | Some i \<Rightarrow> \<exists>n. d = Some n \<and> n < length (fsnodes s') \<and> internal_id (fsnodes s' ! n) = int i \<and> ntype (fsnodes s' ! n) = DIRECTORY)"
  using find_parent_found [OF assms, of base p] by (fastforce simp: found_def dir_node_def Let_def split: option.splits)

subsection \<open>Opening\<close>

text \<open>
  Which entry a path opens, with \<open>k\<close> free nodes: \<open>None\<close> when the call does not return, because it uses a NULL node, \<open>Some None\<close> when it
  returns -1, and otherwise the entry. Names are cut to 32 bytes.
\<close>

definition open_entry :: "nat \<Rightarrow> u8 list \<Rightarrow> nat option option" where
  "open_entry k xs = (let ds = butlast (path_fields (strip xs)) in
    case tree_walk k 0 ds of
      None \<Rightarrow> Some None
    | Some d \<Rightarrow> if strip xs = [] \<or> k \<le> n_named ds then None else map_option Some (dir_lookup d (take 32 (last_name xs))))"

text \<open>
  C27: Opening by path. For any path that starts with a slash, with a free descriptor, \<open>vfs_open\<close> for reading does what the reference \<open>open_entry\<close> says: it takes the
  first free descriptor for the entry the path leads to, returns -1 when a directory on the way is missing, and does not return, since
  it uses NULL, for a path of slashes only, a last name that matches nothing, or when the nodes are used up.
\<close>

theorem vfs_open_resolves:
  assumes "root_ready R r s" and "path_ok (kmem s) path xs" and "find_free_fd s \<noteq> -1"
  shows "case open_entry (free_nodes s) xs of
      None \<Rightarrow> vfs_open (tfs_env R base) p path OF_READ s = None
    | Some None \<Rightarrow> \<exists>s'. vfs_open (tfs_env R base) p path OF_READ s = Some (-1, s') \<and> only_nodes s s'
    | Some (Some i) \<Rightarrow> \<exists>k s'. vfs_open (tfs_env R base) p path OF_READ s = Some (find_free_fd s, s') \<and>
        open_files s' = (open_files s)[nat (find_free_fd s) := \<lparr>onode = Some k, cursor = 0, omode = OF_READ, oproc = p\<rparr>] \<and>
        internal_id (fsnodes s' ! k) = int i \<and> ref_count (fsnodes s' ! k) = 1"
proof -
  let ?ds = "butlast (path_fields (strip xs))"
  obtain d s1 where f: "find_parent_checkperm (tfs_env R base) (Some r) path p s = Some (d, s1)" "only_nodes s s1"
      "found (tree_walk (free_nodes s) 0 ?ds) (free_nodes s - n_named ?ds) d s1" using find_parent_found [OF assms(1,2)] by blast
  have root: "vfs_root s = Some r" "rodata_ok R (kmem s)" using assms(1) by (auto simp: root_ready_def)
  note keep = only_nodes_keeps [OF f(2)]
  show ?thesis
  proof (cases "tree_walk (free_nodes s) 0 ?ds")
    case None
    then show ?thesis using f root by (simp add: open_entry_def found_def vfs_open_def)
  next
    case (Some e)
    then obtain n where n: "d = Some n" "dir_node e n s1" "free_nodes s1 = free_nodes s - n_named ?ds" using f(3) by (auto simp: found_def)
    have o: "vfs_open (tfs_env R base) p path OF_READ s = do { b \<leftarrow> basename path (kmem s); (node, s2) \<leftarrow> get_node (tfs_env R base) (Some n) b s1;
        vfs_open_node (tfs_env R base) p OF_READ node s2 }"
      using f(1) root n dir_node_exec [OF n(2), of p] keep by (simp add: vfs_open_def)
    show ?thesis
    proof (cases "strip xs = []")
      case True
      then show ?thesis using basename_last [OF assms(2)] o Some by (simp add: open_entry_def get_node_def)
    next
      case False
      then obtain b where b: "basename path (kmem s) = Some b" "b \<noteq> 0" "cstr (kmem s1) b (last_name xs)" using basename_last [OF assms(2)] keep by auto
      have "rodata_ok R (kmem s1)" "find_free_fd s1 \<noteq> -1" "find_free_fd s1 = find_free_fd s" using root(2) keep assms(3) by (simp_all add: find_free_fd_def)
      then show ?thesis using open_name [OF n(2) _ b(3,2), of R base p] n(3) o b(1) keep Some False
        by (auto simp: open_entry_def Let_def split: option.splits if_splits)
    qed
  qed
qed

subsection \<open>A path of two fields\<close>

definition tree_mem :: mem where
  "tree_mem a = (if unat a < 0x1000 then mem_of (0 # pack demo_strs) a else mem_of (chars ''/testdir1//child2'' @ [0]) (a - 0x1000))"

lemma tree_rodata: "rodata_ok demo_ro tree_mem"
  by (rule rodata_cong [OF demo_rodata]) (use demo_rodata_below in \<open>force simp: tree_mem_def\<close>)

lemma tree_path: "path_ok tree_mem 0x1000 (chars ''testdir1//child2'')"
  by (simp add: path_ok_def tree_mem_def mem_of_def chars_def)

lemma tree_fields:
  "strip (chars ''testdir1//child2'') = chars ''testdir1//child2''"
  "path_fields (chars ''testdir1//child2'') = [chars ''testdir1'', [], chars ''child2'']"
  by (simp_all add: strip_def chars_def)

lemma tree_names: "chars ''testdir1'' \<noteq> []" "chars ''testdir1//child2'' \<noteq> []" "take 32 (chars ''child2'') = chars ''child2''"
  by (simp_all add: chars_def)

lemma tree_lookup: "dir_lookup 0 (chars ''testdir1'') = Some 4" "dir_lookup 4 (chars ''child2'') = Some 7"
  by (simp_all add: dir_lookup_def dir_entries_def name_matches_def chars_def node_names_def upt_conv_Cons)

lemma tree_mounted:
  obtains s0 where "mount_root demo_ro 0x10000 (demo_kernel\<lparr>kmem := tree_mem\<rparr>) = Some s0" and "root_ready demo_ro 0 s0" and "kmem s0 = tree_mem"
    and "find_free_fd s0 = 0" and "free_nodes s0 = 255"
proof -
  have "zero_tables (demo_kernel\<lparr>kmem := tree_mem\<rparr>)" by (simp add: zero_tables_def demo_kernel_def)
  then obtain s0 where s0: "mount_root demo_ro 0x10000 (demo_kernel\<lparr>kmem := tree_mem\<rparr>) = Some s0" "root_ready demo_ro 0 s0" "kmem s0 = tree_mem"
      "find_free_fd s0 = 0" "fsnodes s0 = tfs_fill 0 (zero_node\<lparr>mountpoint := Some 0\<rparr>) # replicate 255 zero_node"
    using mount_root_ready [of "demo_kernel\<lparr>kmem := tree_mem\<rparr>" demo_ro "0x10000"] tree_rodata by auto
  have "free_nodes s0 = 255" unfolding free_nodes_def s0(5) by (simp add: zero_node_def)
  with s0(1-4) that show thesis by blast
qed

theorem find_parent_resolves_witness:
  "\<exists>s0 n s'. mount_root demo_ro 0x10000 (demo_kernel\<lparr>kmem := tree_mem\<rparr>) = Some s0 \<and>
    find_parent_checkperm (tfs_env demo_ro 0x10000) (Some 0) 0x1000 7 s0 = Some (Some n, s') \<and> internal_id (fsnodes s' ! n) = 4"
proof -
  obtain s0 where s0: "mount_root demo_ro 0x10000 (demo_kernel\<lparr>kmem := tree_mem\<rparr>) = Some s0" "root_ready demo_ro 0 s0" "kmem s0 = tree_mem"
      "find_free_fd s0 = 0" "free_nodes s0 = 255" by (rule tree_mounted)
  then show ?thesis using find_parent_resolves [of demo_ro 0 s0 "0x1000" "chars ''testdir1//child2''" "0x10000" 7] tree_path
    by (auto simp: tree_fields tree_lookup tree_names)
qed

theorem vfs_open_resolves_witness:
  "\<exists>s0 k s'. mount_root demo_ro 0x10000 (demo_kernel\<lparr>kmem := tree_mem\<rparr>) = Some s0 \<and>
    vfs_open (tfs_env demo_ro 0x10000) 7 0x1000 OF_READ s0 = Some (0, s') \<and> internal_id (fsnodes s' ! k) = 7"
proof -
  obtain s0 where s0: "mount_root demo_ro 0x10000 (demo_kernel\<lparr>kmem := tree_mem\<rparr>) = Some s0" "root_ready demo_ro 0 s0" "kmem s0 = tree_mem"
      "find_free_fd s0 = 0" "free_nodes s0 = 255" by (rule tree_mounted)
  have "open_entry 255 (chars ''testdir1//child2'') = Some (Some 7)"
    by (simp add: open_entry_def last_name_def tree_fields tree_lookup tree_names)
  then show ?thesis using vfs_open_resolves [of demo_ro 0 s0 "0x1000" "chars ''testdir1//child2''" "0x10000" 7] tree_path s0 by fastforce
qed

end
