(* ===== verification/PathTest.thy ===== *)
theory PathTest
  imports PathWalk
begin

text \<open>
  The host program \<^verbatim>\<open>test/fs.c\<close>, which tries the loop of \<open>find_parent\<close> on lines of input: it prints the names of the directories on the way
  instead of looking them up. The buffer that \<^verbatim>\<open>malloc\<close> returns and the line that \<^verbatim>\<open>getline\<close> reads are arguments.
\<close>

section \<open>Model\<close>

definition printed :: "u64 \<Rightarrow> mem \<Rightarrow> u8 list option" where
  "printed p m = do { l \<leftarrow> strlen p m; Some (bytes_at m p (unat l)) }"

partial_function (option) test_loop :: "u64 \<Rightarrow> u64 \<Rightarrow> u64 \<Rightarrow> u64 \<Rightarrow> mem \<Rightarrow> u8 list list \<Rightarrow> (u8 list list \<times> mem) option" where
  "test_loop endp last_delim parent path m out =
    (let next_delim = strnchr path 47 (endp - path) m
     in if next_delim = 0 then Some (out, m)
        else Option.bind (if 0 < sint (next_delim - path)
            then let m1 = (snd (strncpy parent path (next_delim - path) m))(parent + (next_delim - path) := 0)
                 in Option.bind (printed parent m1) (\<lambda>str. Some (out @ [str], m1))
            else Some (out, m))
          (\<lambda>r. if next_delim = last_delim then Some r
               else test_loop endp last_delim parent (next_delim + 1) (snd r) (fst r)))"

text \<open>The lines printed: the parents in turn, and the final result; \<open>None\<close> for a path that does not start with a slash.\<close>

definition test_find_parent :: "u64 \<Rightarrow> u64 \<Rightarrow> mem \<Rightarrow> ((u8 list list \<times> u8 list) option \<times> mem) option" where
  "test_find_parent parent path m = do {
    let m0 = m(parent := 47, parent + 1 := 0);
    (if m0 path \<noteq> 47 then Some (None, m0)
     else do {
       endp \<leftarrow> first_of_trailing (path + 1) m0;
       let last_delim = strnrchr (path + 1) 47 (endp - (path + 1)) m0;
       (out, m1) \<leftarrow> test_loop endp last_delim parent (path + 1) m0 [];
       result \<leftarrow> printed parent m1;
       Some (Some (out, result), m1) }) }"

definition test_line :: "u64 \<Rightarrow> u64 \<Rightarrow> mem \<Rightarrow> ((u8 list list \<times> u8 list) option \<times> mem) option" where
  "test_line parent buf m = do { l \<leftarrow> strlen buf m; test_find_parent parent buf (m(buf + l - 1 := 0)) }"

section \<open>The names on the way\<close>

lemma printed_cstr: "cstr m p xs \<Longrightarrow> printed p m = Some xs"
  using cstr_length [of m p xs] by (simp add: printed_def strlen_cstr unat_of_nat cstr_iff)

text \<open>Copying one field into the buffer.\<close>

lemma copy_field:
  assumes cs: "cstr m q (c @ 47 # zs)" and c: "length c < 128" and dis: "range_of parent 128 \<inter> range_of q (Suc (length (c @ 47 # zs))) = {}"
  shows "\<exists>m1. (snd (strncpy parent q (of_nat (length c)) m))(parent + of_nat (length c) := 0) = m1 \<and> printed parent m1 = Some c \<and> cstr m1 parent c \<and>
    (\<forall>a. a \<notin> range_of parent 128 \<longrightarrow> m1 a = m a)"
proof -
  have n: "unat (of_nat (length c) :: u64) = length c" using c by (simp add: unat_of_nat)
  have sub: "range_of parent (Suc (length c)) \<subseteq> range_of parent 128" using c by (intro range_of_mono) simp
  then obtain m1 where m1: "strncpy parent q (of_nat (length c)) m = (parent, m1)" "cstr m1 parent c" "\<forall>a. a \<notin> range_of parent (Suc (length c)) \<longrightarrow> m1 a = m a"
    using strncpy_cstr [OF cs, of parent "of_nat (length c)"] dis by (auto simp: n)
  moreover have "m1(parent + of_nat (length c) := 0) = m1" using m1(2) by (auto simp: cstr_iff)
  ultimately show ?thesis using printed_cstr [OF m1(2)] sub by auto
qed

definition names :: "u8 list \<Rightarrow> u8 list list" where
  "names ys = filter (\<lambda>c. c \<noteq> []) (butlast (path_fields ys))"

lemma test_loop_names:
  assumes "cstr m q (ys @ ts)" and "placed q (length ys)" and "length ys < 2 ^ 63" and "last_slash q ys ld"
    and "range_of parent 128 \<inter> range_of q (Suc (length (ys @ ts))) = {}" and "\<forall>c \<in> set (butlast (path_fields ys)). length c < 128"
    and "cstr m parent z"
  shows "\<exists>m'. test_loop (q + of_nat (length ys)) ld parent q m out = Some (out @ names ys, m') \<and> cstr m' parent (last (z # names ys)) \<and>
    (\<forall>a. a \<notin> range_of parent 128 \<longrightarrow> m' a = m a)"
  using assms
proof (induction "length ys" arbitrary: ys q m z out rule: less_induct)
  case less
  show ?case
  proof (cases ys rule: slash_cases)
    case 1
    then show ?thesis using strnchr_none [OF less.prems(1) 1] less.prems(7) by (simp add: test_loop.simps path_fields_plain names_def)
  next
    case (2 c rest)
    let ?next = "q + of_nat (length c)" and ?q = "q + of_nat (length c) + 1" and ?endp = "q + of_nat (length ys)"
    have cstr_q: "cstr m q (c @ 47 # rest @ ts)" using less.prems(1) 2(1) by simp
    have l: "length c < length ys" "length ys < 2 ^ 64" "length c < 2 ^ 63" using 2(1) less.prems(3) by auto
    have nd: "strnchr q 47 (?endp - q) m = ?next" "?next \<noteq> 0"
      using strnchr_first [OF cstr_q 2(2) l(1,2)] placed_nonzero [OF less.prems(2), of "length c"] l(1) by simp_all
    have last: "?next = ld \<longleftrightarrow> 47 \<notin> set rest" using last_slash_iff less.prems(2,4) 2(1) by blast
    have fs: "butlast (path_fields ys) = c # butlast (path_fields rest)" using 2 by (simp add: path_fields_append)
    have pq: "placed ?q (length rest)" using placed_add [OF less.prems(2), of "Suc (length c)"] 2(1) by (simp add: algebra_simps)
    have eq: "?endp = ?q + of_nat (length rest)" using 2(1) by (simp add: algebra_simps)
    have sub: "range_of ?q (Suc (length (rest @ ts))) \<subseteq> range_of q (Suc (length (ys @ ts)))"
      using range_of_add [of q "Suc (length c)" "Suc (length (rest @ ts))"] 2(1) by (simp add: algebra_simps)
    have cont: "\<exists>m'. (if ?next = ld then Some (out1, m1) else test_loop ?endp ld parent ?q m1 out1) = Some (out1 @ names rest, m') \<and>
        cstr m' parent (last (z1 # names rest)) \<and> (\<forall>a. a \<notin> range_of parent 128 \<longrightarrow> m' a = m a)"
      if m1: "cstr m1 parent z1" "\<forall>a. a \<notin> range_of parent 128 \<longrightarrow> m1 a = m a" for m1 z1 out1
    proof (cases "47 \<in> set rest")
      case True
      have "cstr m1 ?q (rest @ ts)"
      proof (rule cstr_cong)
        show "cstr m ?q (rest @ ts)" using cstr_drop [OF cstr_q, of "Suc (length c)"] by (simp add: algebra_simps)
      qed (use m1(2) sub less.prems(5) in blast)
      moreover have "range_of parent 128 \<inter> range_of ?q (Suc (length (rest @ ts))) = {}" using sub less.prems(5) by blast
      ultimately obtain m' where
          "test_loop (?q + of_nat (length rest)) ld parent ?q m1 out1 = Some (out1 @ names rest, m')" "cstr m' parent (last (z1 # names rest))"
          "\<forall>a. a \<notin> range_of parent 128 \<longrightarrow> m' a = m1 a"
        using less.hyps [OF _ _ pq _ _ _ _ m1(1), where out = out1] 2(1) less.prems(3,4,6) last_slash_rest fs by auto
      then show ?thesis unfolding eq using True last m1(2) by auto
    qed (use last m1 in \<open>simp add: path_fields_plain names_def\<close>)
    show ?thesis
    proof (cases "c = []")
      case True
      then have "test_loop ?endp ld parent q m out = (if ?next = ld then Some (out, m) else test_loop ?endp ld parent ?q m out)"
        using nd by (subst test_loop.simps) (simp add: Let_def)
      moreover have "names ys = names rest" using True fs by (simp add: names_def)
      ultimately show ?thesis using cont [OF less.prems(7), of out] by simp
    next
      case False
      have fl: "0 < sint (?next - q)" using sint_of_nat_u64 [of "length c"] l(3) False by simp
      obtain m1 where m1: "(snd (strncpy parent q (of_nat (length c)) m))(parent + of_nat (length c) := 0) = m1" "printed parent m1 = Some c" "cstr m1 parent c"
          "\<forall>a. a \<notin> range_of parent 128 \<longrightarrow> m1 a = m a"
        using copy_field [OF cstr_q] less.prems(5,6) 2(1) fs by auto
      have "test_loop ?endp ld parent q m out = (if ?next = ld then Some (out @ [c], m1) else test_loop ?endp ld parent ?q m1 (out @ [c]))"
        using nd fl m1(1,2) by (subst test_loop.simps) (simp add: Let_def)
      moreover have "names ys = c # names rest" using False fs by (simp add: names_def)
      ultimately show ?thesis using cont [OF m1(3,4), of "out @ [c]"] by simp
    qed
  qed
qed

text \<open>
  The program prints, for a path that starts with a slash, the names of the fields that the walk of \<open>find_parent\<close> looks up, in order and without empty ones, and as
  the result the last of them, or the root. No memory outside of the 128 bytes of its buffer changes, provided no
  directory name has 128 bytes or more.
\<close>

theorem test_find_parent_prints_names:
  assumes path: "path_ok m path xs" and dis: "range_of parent 128 \<inter> range_of path (Suc (Suc (length xs))) = {}"
    and len: "\<forall>c \<in> set (butlast (path_fields (strip xs))). length c < 128"
  shows "\<exists>m'. test_find_parent parent path m = Some (Some (names (strip xs), last ([47] # names (strip xs))), m') \<and>
    (\<forall>a. a \<notin> range_of parent 128 \<longrightarrow> m' a = m a)"
proof -
  let ?m = "m(parent := 47, parent + 1 := 0)" and ?q = "path + 1" and ?ys = "strip xs"
  have "range_of parent (Suc (Suc 0)) \<subseteq> range_of parent 128" by (intro range_of_mono) simp
  then have in2: "parent \<in> range_of parent 128" "parent + 1 \<in> range_of parent 128" by (auto simp: range_of_Suc)
  have c: "cstr ?m path (47 # xs)" using path dis in2 by (intro cstr_upd) (auto simp: path_ok_def)
  then have cq: "cstr ?m ?q xs" "?m path = 47" by auto
  have pr: "cstr ?m parent [47]" by simp
  have "unat ?q = unat path + 1" using path by (simp add: path_ok_def unat_word_ariths)
  then have pl: "placed ?q (length xs)" using path by (auto simp: path_ok_def placed_def)
  obtain k where k: "xs = ?ys @ replicate k 47" using strip_prefix by blast
  have le: "length ?ys \<le> length xs" using arg_cong [OF k, of length] by simp
  then have pl2: "placed ?q (length ?ys)" using pl by (simp add: placed_def)
  have cy: "cstr ?m ?q (?ys @ replicate k 47)" using cq(1) k by simp
  have l63: "length ?ys < 2 ^ 63" using le path by (simp add: path_ok_def)
  have sn: "strnrchr ?q 47 (of_nat (length ?ys)) ?m = memrchr ?q 47 (of_nat (length ?ys)) ?m"
    using strnlen_cstr [OF cq(1), of "of_nat (length ?ys)"] l63 le by (simp add: strnrchr_def unat_of_nat min_def)
  have ls: "last_slash ?q ?ys (memrchr ?q 47 (of_nat (length ?ys)) ?m)" unfolding last_slash_def using memrchr_last [OF cy _ _ l63] by blast
  have d2: "range_of parent 128 \<inter> range_of ?q (Suc (length (?ys @ replicate k 47))) = {}" using dis k by (simp add: range_of_Suc [of path])
  obtain m' where m': "test_loop (?q + of_nat (length ?ys)) (memrchr ?q 47 (of_nat (length ?ys)) ?m) parent ?q ?m [] = Some (names ?ys, m')"
      "cstr m' parent (last ([47] # names ?ys))" "\<forall>a. a \<notin> range_of parent 128 \<longrightarrow> m' a = ?m a"
    using test_loop_names [OF cy pl2 l63 ls d2 len pr, of "[]"] by auto
  then have "test_find_parent parent path m = Some (Some (names ?ys, last ([47] # names ?ys)), m')"
    using first_of_trailing_strip [OF cq(1) pl] cq(2) sn printed_cstr [OF m'(2)] by (simp add: test_find_parent_def)
  moreover have "m' a = m a" if "a \<notin> range_of parent 128" for a using m'(3) that in2 by auto
  ultimately show ?thesis by blast
qed

lemma tree_path_names: "names (strip (chars ''testdir1//child2'')) = [chars ''testdir1'']"
  by (simp add: names_def tree_fields tree_names)

theorem test_find_parent_prints_names_witness:
  "\<exists>m'. test_find_parent 0x2000 0x1000 tree_mem = Some (Some ([chars ''testdir1''], chars ''testdir1''), m')"
proof -
  have "range_of 0x2000 128 \<inter> range_of 0x1000 (Suc (Suc (length (chars ''testdir1//child2'')))) = {}"
    by (auto simp: length_chars dest!: range_of_below)
  moreover have "\<forall>c \<in> set (butlast (path_fields (strip (chars ''testdir1//child2'')))). length c < 128"
    by (simp add: tree_fields length_chars)
  ultimately show ?thesis using test_find_parent_prints_names [OF tree_path, of "0x2000"] by (auto simp: tree_path_names)
qed

end
