(* ===== verification/CacheSpec.thy ===== *)
theory CacheSpec
  imports Store
begin

text \<open>
  The block cache against its specification. What a client of \<open>bc_get\<close> and \<open>bc_put\<close> sees is an array of blocks: a block reads as
  what was last written to it, through loading, writing back and making room. The specification also says which
  requests are refused, since the cache fills up.
\<close>

section \<open>Clients\<close>

text \<open>
  A client asks for a block and looks at its buffer, changes one 16-bit word of it, or has the block saved. It does not use
  a buffer when \<open>bc_get\<close> returned 0.
\<close>

datatype client_call = Read int u64 | Update int u64 nat u16 | Flush int u64
datatype outcome = Refused | Done | Block "u16 list"

definition given :: "int \<Rightarrow> u64 option \<Rightarrow> u64 option" where
  "given r b = (if r = 0 then None else b)"

fun client_step :: "client_call \<Rightarrow> 'd skernel \<Rightarrow> (outcome \<times> 'd skernel) option" where
  "client_step (Read sid a) s = do { (r, b, s1) \<leftarrow> bc_get sid a s;
     Some (case given r b of None \<Rightarrow> (Refused, s1) | Some p \<Rightarrow> (Block (words_at p 256 (kmem s1)), s1)) }"
| "client_step (Update sid a k w) s = do { (r, b, s1) \<leftarrow> bc_get sid a s;
     Some (case given r b of None \<Rightarrow> (Refused, s1) | Some p \<Rightarrow> (Done, s1\<lparr>kmem := store16 (p + 2 * of_nat k) w (kmem s1)\<rparr>)) }"
| "client_step (Flush sid a) s = do { (r, s1) \<leftarrow> bc_put sid a s; Some (if r = 1 then Done else Refused, s1) }"

fun client_run :: "client_call list \<Rightarrow> 'd skernel \<Rightarrow> (outcome list \<times> 'd skernel) option" where
  "client_run [] s = Some ([], s)"
| "client_run (c # ops) s = do { (x, s1) \<leftarrow> client_step c s; (xs, s2) \<leftarrow> client_run ops s1; Some (x # xs, s2) }"

fun target :: "client_call \<Rightarrow> int \<times> u64" where
  "target (Read sid a) = (sid, a)"
| "target (Update sid a k w) = (sid, a)"
| "target (Flush sid a) = (sid, a)"

text \<open>Calls for blocks in \<open>X\<close>, with words inside of a block.\<close>

definition call_ok :: "(nat \<times> u64) set \<Rightarrow> client_call \<Rightarrow> bool" where
  "call_ok X c \<longleftrightarrow> (case target c of (sid, a) \<Rightarrow> case get_store_by_id sid of None \<Rightarrow> True | Some i \<Rightarrow> (i, a) \<in> X) \<and>
    (case c of Update sid a k w \<Rightarrow> k < 256 | _ \<Rightarrow> True)"

section \<open>The specification\<close>

text \<open>
  The abstract state: the contents of the blocks, those that are resident, and how many were ever loaded. When two were, a request for a
  block that is not resident is refused, and one resident block is given up if there is any.
\<close>

type_synonym aspace = "(nat \<times> u64 \<Rightarrow> u16 list) \<times> (nat \<times> u64) set \<times> int"

inductive access :: "int \<Rightarrow> u64 \<Rightarrow> bool \<Rightarrow> aspace \<Rightarrow> aspace \<Rightarrow> bool" where
  hit: "get_store_by_id sid = Some i \<Longrightarrow> (i, a) \<in> K \<Longrightarrow> access sid a True (C, K, n) (C, K, n)"
| load: "get_store_by_id sid = Some i \<Longrightarrow> (i, a) \<notin> K \<Longrightarrow> n < MAX_CACHED_BLOCKS \<Longrightarrow> access sid a True (C, K, n) (C, insert (i, a) K, n + 1)"
| full: "get_store_by_id sid = Some i \<Longrightarrow> (i, a) \<notin> K \<Longrightarrow> n = MAX_CACHED_BLOCKS \<Longrightarrow> K' \<subseteq> K \<Longrightarrow> (if K = {} then K' = {} else card (K - K') = 1) \<Longrightarrow>
    access sid a False (C, K, n) (C, K', n)"
| no_store: "get_store_by_id sid = None \<Longrightarrow> access sid a False A A"

inductive array_step :: "client_call \<Rightarrow> outcome \<Rightarrow> aspace \<Rightarrow> aspace \<Rightarrow> bool" where
  read: "access sid a True A (C, K, n) \<Longrightarrow> array_step (Read sid a) (Block (C (nat sid, a))) A (C, K, n)"
| update: "access sid a True A (C, K, n) \<Longrightarrow> array_step (Update sid a k w) Done A (C((nat sid, a) := (C (nat sid, a))[k := w]), K, n)"
| read_refused: "access sid a False A A' \<Longrightarrow> array_step (Read sid a) Refused A A'"
| update_refused: "access sid a False A A' \<Longrightarrow> array_step (Update sid a k w) Refused A A'"
| flush: "get_store_by_id sid = Some i \<Longrightarrow> array_step (Flush sid a) Done A A"
| flush_refused: "get_store_by_id sid = None \<Longrightarrow> array_step (Flush sid a) Refused A A"

inductive array_run :: "client_call list \<Rightarrow> outcome list \<Rightarrow> aspace \<Rightarrow> aspace \<Rightarrow> bool" where
  array_run_Nil: "array_run [] [] A A"
| array_run_Cons: "array_step c x A A1 \<Longrightarrow> array_run ops xs A1 A2 \<Longrightarrow> array_run (c # ops) (x # xs) A A2"

section \<open>The abstraction\<close>

text \<open>What a block reads as: its buffer if it is cached, and otherwise its place on the device.\<close>

definition block_view :: "(ata_device \<Rightarrow> u64 \<Rightarrow> 'p) \<Rightarrow> ('d \<Rightarrow> 'p \<Rightarrow> u16 list) \<Rightarrow> 'd skernel \<Rightarrow> nat \<times> u64 \<Rightarrow> u16 list" where
  "block_view place view s = (\<lambda>(i, a). case bc_search (bcs s) a (bc_first (stores s ! i)) of
      None \<Rightarrow> []
    | Some x \<Rightarrow> if x = 0 then view (devices s) (place (sdev (stores s ! i)) a) else words_at (bc_data (bcs s x)) 256 (kmem s))"

definition residents :: "'d skernel \<Rightarrow> (nat \<times> u64) set" where
  "residents s = {(i, a). i < MAX_STORES \<and> bc_search (bcs s) a (bc_first (stores s ! i)) \<noteq> Some 0}"

definition abstraction :: "(ata_device \<Rightarrow> u64 \<Rightarrow> 'p) \<Rightarrow> ('d \<Rightarrow> 'p \<Rightarrow> u16 list) \<Rightarrow> (nat \<times> u64) set \<Rightarrow> 'd skernel \<Rightarrow> aspace" where
  "abstraction place view X s = (\<lambda>b. if b \<in> X then block_view place view s b else [], residents s, bc_cached_count s)"

section \<open>The invariant\<close>

definition entries :: "(nat \<Rightarrow> u64 list) \<Rightarrow> (nat \<times> u64) set" where
  "entries es = {(i, x). i < MAX_STORES \<and> x \<in> set (es i)}"

definition buffer :: "'d skernel \<Rightarrow> u64 \<Rightarrow> u64 set" where
  "buffer s x = range_of (bc_data (bcs s x)) 512"

text \<open>Entries and buffers are blocks of the heap, while more can be loaded.\<close>

definition heap_holds :: "'d skernel \<Rightarrow> (nat \<Rightarrow> u64 list) \<Rightarrow> bool" where
  "heap_holds s es \<longleftrightarrow> (\<exists>fl A. heap_ok (kheap s) fl A \<and>
    (\<forall>(i, x) \<in> entries es. (\<exists>k. (x - 24, k) \<in> A) \<and> (\<exists>k. (bc_data (bcs s x) - 24, k) \<in> A \<and> 24 + 512 \<le> (2 :: nat) ^ k)))"

text \<open>
  All stores are of the type \<open>ty\<close> with a device in \<open>good\<close>; the buffers are disjoint; no block is cached twice; the blocks of \<open>X\<close>
  have different places, and only these are cached.
\<close>

definition cache_ok :: "'d store_type \<Rightarrow> (ata_device \<Rightarrow> bool) \<Rightarrow> (ata_device \<Rightarrow> u64 \<Rightarrow> 'p) \<Rightarrow> (nat \<times> u64) set \<Rightarrow> 'd skernel \<Rightarrow> (nat \<Rightarrow> u64 list) \<Rightarrow> bool" where
  "cache_ok ty good place X s es \<longleftrightarrow> cache_inv s es \<and> (bc_cached_count s < MAX_CACHED_BLOCKS \<longrightarrow> heap_holds s es) \<and>
    (\<forall>i < MAX_STORES. \<forall>t. type_of (stores s ! i) s = Some t \<longrightarrow> t = ty \<and> good (sdev (stores s ! i))) \<and>
    (\<forall>(i, x) \<in> entries es. type_of (stores s ! i) s \<noteq> None \<and> (i, bc_addr (bcs s x)) \<in> X) \<and>
    (\<forall>i < MAX_STORES. distinct (map (\<lambda>x. bc_addr (bcs s x)) (es i))) \<and>
    (\<forall>e \<in> entries es. \<forall>f \<in> entries es. e \<noteq> f \<longrightarrow> buffer s (snd e) \<inter> buffer s (snd f) = {}) \<and>
    X \<subseteq> {..<MAX_STORES} \<times> UNIV \<and> inj_on (\<lambda>(i, a). place (sdev (stores s ! i)) a) X"

section \<open>Memory\<close>

lemma words_at_update:
  assumes "k < 256"
  shows "words_at p 256 (store16 (p + 2 * of_nat k) w m) = (words_at p 256 m)[k := w]"
proof (rule nth_equalityI)
  fix i
  assume i: "i < length (words_at p 256 (store16 (p + 2 * of_nat k) w m))"
  then have i: "i < 256" by (simp add: words_at_def)
  have off: "p + of_nat x \<noteq> p + of_nat y" if "x \<noteq> y" "x < 1000" "y < 1000" for x y
  proof
    assume "p + of_nat x = p + of_nat y"
    then have "unat (of_nat x :: u64) = unat (of_nat y :: u64)" by simp
    then show False using that by (simp add: unat_of_nat)
  qed
  have e: "p + 2 * of_nat j = p + of_nat (2 * j)" "p + 2 * of_nat j + 1 = p + of_nat (2 * j + 1)" for j by simp_all
  have "load16 (p + 2 * of_nat i) (store16 (p + 2 * of_nat k) w m) = (if i = k then w else load16 (p + 2 * of_nat i) m)"
  proof (cases "i = k")
    case False
    then have "2 * i \<noteq> 2 * k" "2 * i \<noteq> 2 * k + 1" "2 * i + 1 \<noteq> 2 * k" "2 * i + 1 \<noteq> 2 * k + 1" by presburger+
    moreover have "2 * i + 1 < 1000" "2 * k + 1 < 1000" "2 * i < 1000" "2 * k < 1000" using i assms by simp_all
    ultimately have "p + of_nat (2 * i) \<noteq> p + of_nat (2 * k)" "p + of_nat (2 * i) \<noteq> p + of_nat (2 * k + 1)"
        "p + of_nat (2 * i + 1) \<noteq> p + of_nat (2 * k)" "p + of_nat (2 * i + 1) \<noteq> p + of_nat (2 * k + 1)" by - (rule off; assumption)+
    then have "load16 (p + 2 * of_nat i) (store16 (p + 2 * of_nat k) w m) = load16 (p + 2 * of_nat i) m"
      unfolding e [symmetric] by (intro load16_other) simp_all
    then show ?thesis using False by simp
  qed (simp add: load_store16)
  then show "words_at p 256 (store16 (p + 2 * of_nat k) w m) ! i = (words_at p 256 m)[k := w] ! i"
    using i assms by (simp add: words_at_def nth_list_update)
qed (simp add: words_at_def)

lemma words_at_range: "(\<And>a. a \<in> range_of p 512 \<Longrightarrow> m' a = m a) \<Longrightarrow> words_at p 256 m' = words_at p 256 m"
  by (rule words_at_cong) (auto simp: range_of_def)

lemma store16_range: "k < 256 \<Longrightarrow> a \<notin> range_of p 512 \<Longrightarrow> store16 (p + 2 * of_nat k) w m a = m a"
proof -
  assume k: "k < 256" and a: "a \<notin> range_of p 512"
  have "p + of_nat (2 * k) \<in> range_of p 512" "p + of_nat (2 * k + 1) \<in> range_of p 512" unfolding range_of_def using k by (intro imageI; simp)+
  then show ?thesis using a by (auto simp: store16_def add.assoc add.commute [of 1])
qed

lemma far_iff_range: "512 \<le> unat (a - p) \<longleftrightarrow> a \<notin> range_of p 512" for a p :: u64
proof
  assume "512 \<le> unat (a - p)"
  then show "a \<notin> range_of p 512" by (auto simp: range_of_def unat_of_nat)
next
  assume n: "a \<notin> range_of p 512"
  show "512 \<le> unat (a - p)"
  proof (rule ccontr)
    assume "\<not> 512 \<le> unat (a - p)"
    moreover have "a = p + of_nat (unat (a - p))" by simp
    ultimately show False using n unfolding range_of_def by (metis (no_types, lifting) atLeastLessThan_iff imageI not_le zero_le)
  qed
qed

section \<open>Lookup\<close>

lemma cache_okD:
  assumes "cache_ok ty good place X s es"
  shows "cache_inv s es" and "chains s es" and "bc_cached_count s < MAX_CACHED_BLOCKS \<Longrightarrow> heap_holds s es"
    and "i < MAX_STORES \<Longrightarrow> type_of (stores s ! i) s = Some t \<Longrightarrow> t = ty \<and> good (sdev (stores s ! i))"
    and "(i, x) \<in> entries es \<Longrightarrow> type_of (stores s ! i) s = Some ty \<and> good (sdev (stores s ! i)) \<and> (i, bc_addr (bcs s x)) \<in> X"
    and "i < MAX_STORES \<Longrightarrow> distinct (map (\<lambda>x. bc_addr (bcs s x)) (es i))"
    and "(i, x) \<in> entries es \<Longrightarrow> (j, y) \<in> entries es \<Longrightarrow> (i, x) \<noteq> (j, y) \<Longrightarrow> buffer s x \<inter> buffer s y = {}"
    and "X \<subseteq> {..<MAX_STORES} \<times> UNIV" and "inj_on (\<lambda>(i, a). place (sdev (stores s ! i)) a) X"
proof -
  show "(i, x) \<in> entries es \<Longrightarrow> type_of (stores s ! i) s = Some ty \<and> good (sdev (stores s ! i)) \<and> (i, bc_addr (bcs s x)) \<in> X"
  proof -
    assume e: "(i, x) \<in> entries es"
    then have "type_of (stores s ! i) s \<noteq> None \<and> (i, bc_addr (bcs s x)) \<in> X" using assms unfolding cache_ok_def by blast
    moreover have "i < MAX_STORES" using e by (simp add: entries_def)
    ultimately show ?thesis using assms unfolding cache_ok_def by blast
  qed
  show "(i, x) \<in> entries es \<Longrightarrow> (j, y) \<in> entries es \<Longrightarrow> (i, x) \<noteq> (j, y) \<Longrightarrow> buffer s x \<inter> buffer s y = {}"
  proof -
    have "\<forall>e \<in> entries es. \<forall>f \<in> entries es. e \<noteq> f \<longrightarrow> buffer s (snd e) \<inter> buffer s (snd f) = {}" using assms unfolding cache_ok_def by blast
    moreover assume "(i, x) \<in> entries es" "(j, y) \<in> entries es" "(i, x) \<noteq> (j, y)"
    ultimately have "buffer s (snd (i, x)) \<inter> buffer s (snd (j, y)) = {}" by blast
    then show ?thesis by simp
  qed
qed (use assms in \<open>simp_all add: cache_ok_def cache_inv_def\<close>)

text \<open>The entry of a block, if it is cached.\<close>

definition lookup :: "'d skernel \<Rightarrow> (nat \<Rightarrow> u64 list) \<Rightarrow> nat \<Rightarrow> u64 \<Rightarrow> u64 option" where
  "lookup s es i a = find (\<lambda>x. bc_addr (bcs s x) = a) (es i)"

lemma lookup_Some: "lookup s es i a = Some x \<Longrightarrow> x \<in> set (es i) \<and> bc_addr (bcs s x) = a"
  by (auto simp: lookup_def find_Some_iff)

lemma lookup_None: "lookup s es i a = None \<longleftrightarrow> a \<notin> (\<lambda>x. bc_addr (bcs s x)) ` set (es i)"
  by (auto simp: lookup_def find_None_iff)

lemma search_lookup:
  assumes "chains s es" and "i < MAX_STORES"
  shows "bc_search (bcs s) a (bc_first (stores s ! i)) = Some (case lookup s es i a of None \<Rightarrow> 0 | Some x \<Rightarrow> x)"
    and "lookup s es i a = Some x \<Longrightarrow> x \<noteq> 0"
proof -
  have c: "chain (bcs s) (bc_first (stores s ! i)) (es i)" using assms by (simp add: chains_def)
  show "bc_search (bcs s) a (bc_first (stores s ! i)) = Some (case lookup s es i a of None \<Rightarrow> 0 | Some x \<Rightarrow> x)"
    unfolding lookup_def by (rule bc_search_chain [OF c])
  show "lookup s es i a = Some x \<Longrightarrow> x \<noteq> 0" using chain_nonzero [OF c] lookup_Some by metis
qed

lemma block_view_lookup:
  assumes "chains s es" and "i < MAX_STORES"
  shows "block_view place view s (i, a) = (case lookup s es i a of
      None \<Rightarrow> view (devices s) (place (sdev (stores s ! i)) a) | Some x \<Rightarrow> words_at (bc_data (bcs s x)) 256 (kmem s))"
  using search_lookup [OF assms] by (auto simp: block_view_def split: option.splits)

lemma residents_lookup: "chains s es \<Longrightarrow> residents s = {(i, a). i < MAX_STORES \<and> lookup s es i a \<noteq> None}"
  using search_lookup [of s es] by (fastforce simp: residents_def split: option.splits)

lemma chain_unique: "chain b p ps \<Longrightarrow> chain b p qs \<Longrightarrow> ps = qs"
proof (induction ps arbitrary: p qs)
  case Nil
  then show ?case by (cases qs) auto
next
  case (Cons x xs)
  then show ?case by (cases qs) auto
qed

lemma cache_inv_chains:
  assumes "cache_inv s es" and "chains s es'"
  shows "cache_inv s es'"
proof -
  have e: "es' i = es i" if "i < MAX_STORES" for i using assms that by (auto simp: cache_inv_def chains_def intro: chain_unique)
  then have "(\<Sum>i < MAX_STORES. length (es' i)) = (\<Sum>i < MAX_STORES. length (es i))" by (intro sum.cong) auto
  then show ?thesis using assms e by (auto simp: cache_inv_def room_inv_def)
qed

lemma cache_ok_frame:
  assumes "bcs s1 = bcs s" "stores s1 = stores s" "store_types s1 = store_types s" "bc_cached_count s1 = bc_cached_count s" "kheap s1 = kheap s"
  shows "cache_ok ty good place X s1 es = cache_ok ty good place X s es" and "lookup s1 es i a = lookup s es i a"
    and "residents s1 = residents s"
  using assms by (simp_all add: cache_ok_def cache_inv_def chains_def room_inv_def heap_holds_def type_of_def buffer_def lookup_def residents_def)

lemma abstraction_eqI:
  assumes "\<And>i a. (i, a) \<in> X \<Longrightarrow> block_view place view s1 (i, a) = C (i, a)" and "residents s1 = K" and "bc_cached_count s1 = n"
  shows "abstraction place view X s1 = (\<lambda>b. if b \<in> X then C b else [], K, n)"
  using assms by (auto simp: abstraction_def)

lemma data_disjoint:
  assumes ok: "heap_ok a fl A" and b: "(x, k) \<in> A" "(y, l) \<in> A" "(x, k) \<noteq> (y, l)" and n: "24 + 512 \<le> (2 :: nat) ^ k" "24 + 512 \<le> (2 :: nat) ^ l"
  shows "range_of (x + 24) 512 \<inter> range_of (y + 24) 512 = {}"
proof -
  have "blk_range (x, k) \<inter> blk_range (y, l) = {}" using ok b tiling_disjoint by (metis UnI2 heap_ok_def)
  then show ?thesis using block_data [OF ok b(1) n(1)] block_data [OF ok b(2) n(2)] by blast
qed

lemma fresh_addr:
  assumes "heap_ok a fl (insert (x, k) A)" and "(x, k) \<notin> A"
  shows "(x, j) \<notin> A"
  using assms tiling_addr_unique [of a "free_blocks a fl \<union> insert (x, k) A" x k j] by (auto simp: heap_ok_def)

text \<open>A new entry at \<open>blk\<close>, with buffer \<open>p\<close>, for block \<open>a\<close> of store \<open>i\<close>, apart from all entries so far.\<close>

definition entry_added :: "'d skernel \<Rightarrow> (nat \<Rightarrow> u64 list) \<Rightarrow> nat \<Rightarrow> u64 \<Rightarrow> u64 \<Rightarrow> u64 \<Rightarrow> 'd skernel \<Rightarrow> bool" where
  "entry_added s es i a blk p s1 \<longleftrightarrow> blk \<noteq> 0 \<and> i < MAX_STORES \<and> chains s es \<and> store_types s1 = store_types s \<and>
    bcs s1 = (bcs s)(blk := (bcs s blk)\<lparr>bc_data := p, bc_addr := a, bc_next := bc_first (stores s ! i)\<rparr>) \<and>
    stores s1 = (stores s)[i := (stores s ! i)\<lparr>bc_first := blk\<rparr>] \<and>
    (\<forall>(j, y) \<in> entries es. y \<noteq> blk \<and> buffer s y \<inter> range_of p 512 = {})"

lemma entry_addedD:
  assumes "entry_added s es i a blk p s1"
  shows "(j, y) \<in> entries es \<Longrightarrow> bcs s1 y = bcs s y" and "(j, y) \<in> entries es \<Longrightarrow> buffer s1 y = buffer s y \<and> buffer s y \<inter> range_of p 512 = {}"
    and "bc_data (bcs s1 blk) = p" "bc_addr (bcs s1 blk) = a" and "buffer s1 blk = range_of p 512"
    and "entries (es(i := blk # es i)) = insert (i, blk) (entries es)"
    and "sdev (stores s1 ! j) = sdev (stores s ! j)" and "type_of (stores s1 ! j) s1 = type_of (stores s ! j) s"
proof -
  have b: "bcs s1 = (bcs s)(blk := (bcs s blk)\<lparr>bc_data := p, bc_addr := a, bc_next := bc_first (stores s ! i)\<rparr>)"
    and st: "stores s1 = (stores s)[i := (stores s ! i)\<lparr>bc_first := blk\<rparr>]" "store_types s1 = store_types s"
    and i: "i < MAX_STORES" "i < length (stores s)" using assms by (auto simp: entry_added_def chains_def)
  have old: "y \<noteq> blk \<and> buffer s y \<inter> range_of p 512 = {}" if "(j, y) \<in> entries es" for j y using assms that unfolding entry_added_def by blast
  show "(j, y) \<in> entries es \<Longrightarrow> bcs s1 y = bcs s y" using old by (simp add: b)
  show "(j, y) \<in> entries es \<Longrightarrow> buffer s1 y = buffer s y \<and> buffer s y \<inter> range_of p 512 = {}" using old by (simp add: b buffer_def)
  show "bc_data (bcs s1 blk) = p" "bc_addr (bcs s1 blk) = a" "buffer s1 blk = range_of p 512" by (simp_all add: b buffer_def)
  show "entries (es(i := blk # es i)) = insert (i, blk) (entries es)" using i(1) by (auto simp: entries_def split: if_splits)
  show "sdev (stores s1 ! j) = sdev (stores s ! j)" using i(2) unfolding st by (cases "j = i") simp_all
  show "type_of (stores s1 ! j) s1 = type_of (stores s ! j) s" using i(2) unfolding type_of_def st by (cases "j = i") simp_all
qed

lemma entry_added_lookup:
  assumes add: "entry_added s es i a blk p s1"
  shows "chains s1 (es(i := blk # es i))"
    and "j < MAX_STORES \<Longrightarrow> lookup s1 (es(i := blk # es i)) j b = (if (j, b) = (i, a) then Some blk else lookup s es j b)"
proof -
  have "blk \<notin> set (es j)" if "j < MAX_STORES" for j
  proof -
    have "\<forall>(j, y) \<in> entries es. y \<noteq> blk" using add unfolding entry_added_def by blast
    then show ?thesis using that by (auto simp: entries_def)
  qed
  then show "chains s1 (es(i := blk # es i))" using add by (intro chains_insert [where e = "(bcs s blk)\<lparr>bc_data := p, bc_addr := a, bc_next := bc_first (stores s ! i)\<rparr>"])
      (auto simp: entry_added_def)
  assume "j < MAX_STORES"
  then have "find (\<lambda>x. bc_addr (bcs s1 x) = b) (es j) = find (\<lambda>x. bc_addr (bcs s x) = b) (es j)"
    using entry_addedD(1) [OF add] by (intro find_cong) (auto simp: entries_def)
  then show "lookup s1 (es(i := blk # es i)) j b = (if (j, b) = (i, a) then Some blk else lookup s es j b)"
    using entry_addedD(4) [OF add] by (auto simp: lookup_def)
qed

lemma entry_added_ok:
  assumes add: "entry_added s es i a blk p s1" and ok: "cache_ok ty good place X s es" and X: "(i, a) \<in> X" and miss: "lookup s es i a = None"
    and inv: "cache_inv s1 es'" and h: "heap_holds s1 (es(i := blk # es i))" and t: "type_of (stores s ! i) s \<noteq> None"
  shows "cache_ok ty good place X s1 (es(i := blk # es i))"
proof -
  let ?es = "es(i := blk # es i)"
  note D = entry_addedD [OF add]
  have iM: "i < MAX_STORES" using add by (simp add: entry_added_def)
  have "cache_inv s1 ?es" by (rule cache_inv_chains [OF inv entry_added_lookup(1) [OF add]])
  moreover have "distinct (map (\<lambda>x. bc_addr (bcs s1 x)) (?es j))" if "j < MAX_STORES" for j
  proof -
    have "map (\<lambda>x. bc_addr (bcs s1 x)) (es j) = map (\<lambda>x. bc_addr (bcs s x)) (es j)" using D(1) that by (auto simp: entries_def)
    then have "distinct (map (\<lambda>x. bc_addr (bcs s1 x)) (es j))" using cache_okD(6) [OF ok that] by (simp only:)
    moreover have "a \<notin> (\<lambda>x. bc_addr (bcs s1 x)) ` set (es i)" using miss D(1) iM by (auto simp: lookup_None entries_def)
    ultimately show ?thesis using D(4) by auto
  qed
  moreover have "buffer s1 (snd e) \<inter> buffer s1 (snd f) = {}" if "e \<in> entries ?es" "f \<in> entries ?es" "e \<noteq> f" for e f
  proof -
    have old_old: "buffer s1 (snd e) \<inter> buffer s1 (snd f) = {}" if "e \<in> entries es" "f \<in> entries es" "e \<noteq> f" for e f
      using that D(2) cache_okD(7) [OF ok, of "fst e" "snd e" "fst f" "snd f"] by (metis prod.collapse)
    have old_new: "buffer s1 (snd e) \<inter> range_of p 512 = {}" if "e \<in> entries es" for e using that D(2) by (metis prod.collapse)
    show ?thesis using that old_old [of e f] old_new [of e] old_new [of f] D(5) unfolding D(6) by auto
  qed
  ultimately show ?thesis using cache_okD(4,5,8,9) [OF ok] X t h D(1,4,7,8) unfolding cache_ok_def D(6) by auto
qed

lemma entry_added_view:
  assumes add: "entry_added s es i a blk p s1" and miss: "lookup s es i a = None" and mem: "\<And>q. q \<notin> range_of p 512 \<Longrightarrow> kmem s1 q = kmem s q"
    and ld: "words_at p 256 (kmem s1) = view (devices s) (place (sdev (stores s ! i)) a)" "view (devices s1) = view (devices s)"
  shows "j < MAX_STORES \<Longrightarrow> block_view place view s1 (j, b) = block_view place view s (j, b)" and "residents s1 = insert (i, a) (residents s)"
proof -
  note D = entry_addedD [OF add] and lk = entry_added_lookup [OF add]
  have ch: "chains s es" and iM: "i < MAX_STORES" using add by (auto simp: entry_added_def)
  show "residents s1 = insert (i, a) (residents s)" unfolding residents_lookup [OF ch] residents_lookup [OF lk(1)] using lk(2) iM by auto
  assume j: "j < MAX_STORES"
  have "words_at (bc_data (bcs s1 y)) 256 (kmem s1) = words_at (bc_data (bcs s y)) 256 (kmem s)" if y: "lookup s es j b = Some y" for y
  proof -
    have e: "(j, y) \<in> entries es" using lookup_Some [OF y] j by (simp add: entries_def)
    then show ?thesis using mem D(1,2) [OF e] by (auto simp: buffer_def intro!: words_at_range)
  qed
  then show "block_view place view s1 (j, b) = block_view place view s (j, b)"
    unfolding block_view_lookup [OF ch j] block_view_lookup [OF lk(1) j] lk(2) [OF j] using ld miss D(3,7) by (auto split: option.splits)
qed

section \<open>The operations\<close>

locale disk_cache =
  fixes ty :: "'d store_type" and good :: "ata_device \<Rightarrow> bool" and place :: "ata_device \<Rightarrow> u64 \<Rightarrow> 'p" and view :: "'d \<Rightarrow> 'p \<Rightarrow> u16 list"
  assumes store: "good dv \<Longrightarrow> block_store ty dv (place dv) view" and seg: "seg_sz ty = 512"
begin

lemma put_refines:
  assumes ok: "cache_ok ty good place X s es" and i: "get_store_by_id sid = Some i" and X: "(i, a) \<in> X"
  shows "\<exists>s1. bc_put sid a s = Some (1, s1) \<and> cache_ok ty good place X s1 es \<and> abstraction place view X s1 = abstraction place view X s"
proof -
  have iM: "i < MAX_STORES" using i by (auto simp: get_store_by_id_def split: if_splits)
  have ch: "chains s es" by (rule cache_okD(2) [OF ok])
  then have st: "i < length (stores s)" using iM by (simp add: chains_def)
  show ?thesis
  proof (cases "lookup s es i a")
    case None
    then have "bc_put sid a s = Some (1, s)" using search_lookup(1) [OF ch iM, of a] i st by (simp add: bc_put_def nth_opt_def)
    then show ?thesis using ok by blast
  next
    case (Some x)
    have x: "x \<noteq> 0" "bc_addr (bcs s x) = a" "(i, x) \<in> entries es" using search_lookup(2) [OF ch iM Some] lookup_Some [OF Some] iM by (auto simp: entries_def)
    let ?dv = "sdev (stores s ! i)"
    have t: "type_of (stores s ! i) s = Some ty" "good ?dv" using cache_okD(5) [OF ok x(3)] by auto
    obtain r m d where w: "wr ty ?dv a (bc_data (bcs s x)) (kmem s, devices s) = (r, m, d)" by (metis prod_cases3)
    have wb: "r = 1" "m = kmem s" "view d = (view (devices s))(place ?dv a := words_at (bc_data (bcs s x)) 256 (kmem s))"
      using block_store.wr_block [OF store [OF t(2)] w] by auto
    let ?s1 = "s\<lparr>kmem := m, devices := d\<rparr>"
    have p: "bc_put sid a s = Some (1, ?s1)"
      using search_lookup(1) [OF ch iM, of a] Some i st t(1) w wb(1) x(1) by (simp add: bc_put_def nth_opt_def Let_def)
    note fr = cache_ok_frame [of ?s1 s]
    have c1: "chains ?s1 es" using ch by (simp add: chains_def)
    have "block_view place view ?s1 (j, b) = block_view place view s (j, b)" if jb: "(j, b) \<in> X" for j b
    proof -
      have j: "j < MAX_STORES" using cache_okD(8) [OF ok] jb by auto
      have "place (sdev (stores s ! j)) b \<noteq> place ?dv a" if "lookup s es j b = None"
      proof
        assume "place (sdev (stores s ! j)) b = place ?dv a"
        then have "(j, b) = (i, a)" using inj_onD [OF cache_okD(9) [OF ok], of "(j, b)" "(i, a)"] jb X by simp
        then show False using that Some by simp
      qed
      then show ?thesis unfolding block_view_lookup [OF ch j] block_view_lookup [OF c1 j] using wb fr(2) [of es j b]
        by (auto split: option.splits)
    qed
    then have "abstraction place view X ?s1 = abstraction place view X s" using fr(3) by (auto simp: abstraction_def)
    moreover have "cache_ok ty good place X ?s1 es" by (rule cache_ok_frame(1) [THEN iffD2, OF _ _ _ _ _ ok]) simp_all
    ultimately show ?thesis using p by blast
  qed
qed

text \<open>Changing a word of a delivered buffer.\<close>

lemma update_refines:
  assumes ok: "cache_ok ty good place X s es" and i: "i < MAX_STORES" and x: "lookup s es i a = Some x" and k: "k < 256"
    and C: "abstraction place view X s = (C, K, n)" and s1_def: "s1 = s\<lparr>kmem := store16 (bc_data (bcs s x) + 2 * of_nat k) w (kmem s)\<rparr>"
  shows "cache_ok ty good place X s1 es \<and> abstraction place view X s1 = (C((i, a) := (C (i, a))[k := w]), K, n)"
proof -
  have ch: "chains s es" by (rule cache_okD(2) [OF ok])
  then have c1: "chains s1 es" by (simp add: chains_def s1_def)
  have lk: "lookup s1 es j b = lookup s es j b" for j b by (rule cache_ok_frame) (simp_all add: s1_def)
  have e: "(i, x) \<in> entries es" "bc_addr (bcs s x) = a" using lookup_Some [OF x] i by (auto simp: entries_def)
  then have aX: "(i, a) \<in> X" using cache_okD(5) [OF ok e(1)] by blast
  have bv: "block_view place view s1 (j, b) = (if (j, b) = (i, a) then (block_view place view s (i, a))[k := w] else block_view place view s (j, b))"
    if jb: "(j, b) \<in> X" for j b
  proof (cases "(j, b) = (i, a)")
    case True
    then show ?thesis using x words_at_update [OF k] by (simp add: block_view_lookup [OF ch i] block_view_lookup [OF c1 i] lk) (simp add: s1_def)
  next
    case False
    have j: "j < MAX_STORES" using cache_okD(8) [OF ok] jb by auto
    have "words_at (bc_data (bcs s y)) 256 (kmem s1) = words_at (bc_data (bcs s y)) 256 (kmem s)" if y: "lookup s es j b = Some y" for y
    proof (rule words_at_range)
      fix q
      assume q: "q \<in> range_of (bc_data (bcs s y)) 512"
      have "(j, y) \<in> entries es" "(j, y) \<noteq> (i, x)" using lookup_Some [OF y] e(2) False j by (auto simp: entries_def)
      then have "q \<notin> range_of (bc_data (bcs s x)) 512" using cache_okD(7) [OF ok e(1)] q unfolding buffer_def by blast
      then show "kmem s1 q = kmem s q" using store16_range [OF k] by (simp add: s1_def)
    qed
    then show ?thesis unfolding block_view_lookup [OF ch j] block_view_lookup [OF c1 j] using False
      by (auto simp: lk split: option.splits) (simp_all add: s1_def)
  qed
  have r: "residents s1 = residents s" by (rule cache_ok_frame) (simp_all add: s1_def)
  have n: "bc_cached_count s1 = bc_cached_count s" by (simp add: s1_def)
  have "abstraction place view X s1 = (C((i, a) := (C (i, a))[k := w]), K, n)"
  proof -
    have "C = (\<lambda>b. if b \<in> X then block_view place view s b else [])" "K = residents s" "n = bc_cached_count s" using C by (auto simp: abstraction_def)
    then show ?thesis using aX by (auto simp: abstraction_def fun_eq_iff bv r n)
  qed
  moreover have "cache_ok ty good place X s1 es" by (rule cache_ok_frame(1) [THEN iffD2, OF _ _ _ _ _ ok]) (simp_all add: s1_def)
  ultimately show ?thesis by blast
qed

lemma get_hit:
  assumes ok: "cache_ok ty good place X s es" and i: "get_store_by_id sid = Some i" and x: "lookup s es i a = Some x"
  shows "bc_get sid a s = Some (1, Some (bc_data (bcs s x)), s)"
proof -
  have iM: "i < MAX_STORES" using i by (auto simp: get_store_by_id_def split: if_splits)
  have ch: "chains s es" by (rule cache_okD(2) [OF ok])
  then have "i < length (stores s)" using iM by (simp add: chains_def)
  then show ?thesis using search_lookup [OF ch iM, of a] x i by (simp add: bc_get_def nth_opt_def)
qed

text \<open>The heap gives a new entry and a buffer apart from all others.\<close>

lemma alloc_apart:
  assumes ok: "cache_ok ty good place X s es" and n: "bc_cached_count s < MAX_CACHED_BLOCKS" and t: "type_of st s = Some ty"
    and k: "kalloc sizeof_bc_entry (kheap s) = Some (blk, h1)" "kalloc (seg_sz ty) h1 = Some (p, h2)"
  shows "\<exists>fl A. heap_ok h2 fl A \<and> (\<exists>k. (blk - 24, k) \<in> A) \<and> (\<exists>k. (p - 24, k) \<in> A \<and> 24 + 512 \<le> (2 :: nat) ^ k) \<and>
    (\<forall>(j, y) \<in> entries es. y \<noteq> blk \<and> buffer s y \<inter> range_of p 512 = {} \<and> (\<exists>k. (y - 24, k) \<in> A) \<and>
      (\<exists>k. (bc_data (bcs s y) - 24, k) \<in> A \<and> 24 + 512 \<le> (2 :: nat) ^ k))"
proof -
  obtain fl A where h: "heap_ok (kheap s) fl A"
      "\<forall>(i, x) \<in> entries es. (\<exists>k. (x - 24, k) \<in> A) \<and> (\<exists>k. (bc_data (bcs s x) - 24, k) \<in> A \<and> 24 + 512 \<le> (2 :: nat) ^ k)"
    using cache_okD(3) [OF ok n] unfolding heap_holds_def by blast
  have room: "room_inv s es" using cache_okD(1) [OF ok] n by (simp add: cache_inv_def)
  then have sz: "sizeof_bc_entry \<le> bsize (kheap s)" "sizeof_bc_entry \<noteq> 0" "seg_sz ty \<noteq> 0" "seg_sz ty \<le> bsize (kheap s)"
    using type_of_mem [OF t] by (auto simp: room_inv_def sizeof_bc_entry_def)
  obtain x1 k1 fl1 where 1: "blk = x1 + 24" "same_params (kheap s) h1" "heap_ok h1 fl1 (insert (x1, k1) A)" "(x1, k1) \<notin> A"
    using kalloc_cases [OF h(1) sz(2,1)] k(1) by auto
  have "seg_sz ty \<le> bsize h1" using sz(4) 1(2) by (simp add: same_params_def)
  then obtain x2 k2 fl2 where 2: "p = x2 + 24" "heap_ok h2 fl2 (insert (x2, k2) (insert (x1, k1) A))" "(x2, k2) \<notin> insert (x1, k1) A"
      "unat (seg_sz ty) + 24 \<le> 2 ^ k2"
    using kalloc_cases [OF 1(3) sz(3)] k(2) by auto
  have k2: "24 + 512 \<le> (2 :: nat) ^ k2" using 2(4) by (simp add: seg)
  have "y \<noteq> blk" if "(y - 24, j) \<in> A" for y j using fresh_addr [OF 1(3,4)] that 1(1) by auto
  moreover have "buffer s y \<inter> range_of p 512 = {}" if "(bc_data (bcs s y) - 24, j) \<in> A" "24 + 512 \<le> (2 :: nat) ^ j" for y j
    using data_disjoint [OF 2(2), of "bc_data (bcs s y) - 24" j x2 k2] that 2(1,3) k2 by (auto simp: buffer_def)
  ultimately show ?thesis using h(2) 1(1) 2(1,2) k2 by (intro exI [of _ fl2] exI [of _ "insert (x2, k2) (insert (x1, k1) A)"]) fastforce
qed

lemma get_load:
  assumes ok: "cache_ok ty good place X s es" and i: "get_store_by_id sid = Some i" and X: "(i, a) \<in> X" and miss: "lookup s es i a = None"
    and g: "bc_get sid a s = Some (r, Some p, s1)"
  shows "r = 1 \<and> bc_cached_count s < MAX_CACHED_BLOCKS \<and> (\<exists>es1 x. cache_ok ty good place X s1 es1 \<and> lookup s1 es1 i a = Some x \<and> bc_data (bcs s1 x) = p \<and>
    abstraction place view X s1 = (fst (abstraction place view X s), insert (i, a) (residents s), bc_cached_count s + 1))"
proof -
  have iM: "i < MAX_STORES" using i by (auto simp: get_store_by_id_def split: if_splits)
  have ch: "chains s es" by (rule cache_okD(2) [OF ok])
  let ?st = "stores s ! i"
  have sr: "bc_search (bcs s) a (bc_first ?st) = Some 0" using search_lookup(1) [OF ch iM, of a] miss by simp
  from bc_get_new [OF g i sr] obtain t blk h1 h2 where n: "type_of ?st s = Some t" "kalloc sizeof_bc_entry (kheap s) = Some (blk, h1)"
      "kalloc (seg_sz t) h1 = Some (p, h2)" "kheap s1 = h2" "blk \<noteq> 0"
      "bcs s1 = (bcs s)(blk := (bcs s blk)\<lparr>bc_data := p, bc_addr := a, bc_next := bc_first ?st\<rparr>)"
      "stores s1 = (stores s)[i := ?st\<lparr>bc_first := blk\<rparr>]" "store_types s1 = store_types s"
      "bc_cached_count s \<noteq> MAX_CACHED_BLOCKS" "bc_cached_count s1 = bc_cached_count s + 1" by blast
  have t: "t = ty" "good (sdev ?st)" using cache_okD(4) [OF ok iM n(1)] by auto
  have ld: "r = 1" "words_at p 256 (kmem s1) = view (devices s) (place (sdev ?st) a)" "view (devices s1) = view (devices s)"
      "\<And>q. q \<notin> range_of p 512 \<Longrightarrow> kmem s1 q = kmem s q"
    using block_store.get_loads [OF store [OF t(2)] i n(1) [unfolded t(1)] refl sr g] by (auto simp: far_iff_range)
  have lt: "bc_cached_count s < MAX_CACHED_BLOCKS" using n(9) cache_okD(1) [OF ok] by (simp add: cache_inv_def)
  obtain fl A where al: "heap_ok h2 fl A" "\<exists>k. (blk - 24, k) \<in> A" "\<exists>k. (p - 24, k) \<in> A \<and> 24 + 512 \<le> (2 :: nat) ^ k"
      "\<forall>(j, y) \<in> entries es. y \<noteq> blk \<and> buffer s y \<inter> range_of p 512 = {} \<and> (\<exists>k. (y - 24, k) \<in> A) \<and>
        (\<exists>k. (bc_data (bcs s y) - 24, k) \<in> A \<and> 24 + 512 \<le> (2 :: nat) ^ k)"
    using alloc_apart [OF ok lt n(1) [unfolded t(1)] n(2) n(3) [unfolded t(1)]] by (elim exE conjE) (rule that; (assumption | rule exI conjI)+)
  then have add: "entry_added s es i a blk p s1" using n iM ch unfolding entry_added_def by blast
  have h: "heap_holds s1 (es(i := blk # es i))" unfolding heap_holds_def entry_addedD(6) [OF add] n(4)
    using al entry_addedD(1,3) [OF add] by (intro exI [of _ fl] exI [of _ A]) fastforce
  obtain es' where "cache_inv s1 es'" using bc_get_inv [OF cache_okD(1) [OF ok] g] by blast
  then have "cache_ok ty good place X s1 (es(i := blk # es i))" by (rule entry_added_ok [OF add ok X miss _ h]) (simp add: n(1))
  moreover have "abstraction place view X s1 = (fst (abstraction place view X s), insert (i, a) (residents s), bc_cached_count s + 1)"
    using entry_added_view [where place = place and view = view, OF add miss ld(4,2,3)] cache_okD(8) [OF ok] n(10) by (auto simp: abstraction_def fun_eq_iff)
  ultimately show ?thesis using ld(1) lt entry_added_lookup(2) [OF add iM, of a] entry_addedD(3) [OF add] by auto
qed

text \<open>Making room: nothing is cached, or the first block of one store is saved and dropped.\<close>

lemma evict_one:
  assumes ok: "cache_ok ty good place X s es" and e: "evict is s = Some s1" and M: "set is \<subseteq> {..<MAX_STORES}"
  shows "s1 = s \<and> (\<forall>i \<in> set is. es i = []) \<or> (\<exists>i x xs d h. i < MAX_STORES \<and> es i = x # xs \<and>
    s1 = upd_store i (\<lambda>st. st\<lparr>bc_first := bc_next (bcs s x)\<rparr>) (s\<lparr>devices := d, kheap := h\<rparr>) \<and>
    view d = (view (devices s))(place (sdev (stores s ! i)) (bc_addr (bcs s x)) := words_at (bc_data (bcs s x)) 256 (kmem s)))"
  using e M
proof (induction "is")
  case (Cons i "is")
  have i: "i < MAX_STORES" using Cons.prems(2) by simp
  have c: "chain (bcs s) (bc_first (stores s ! i)) (es i)" "i < length (stores s)" using cache_okD(2) [OF ok] i by (auto simp: chains_def)
  show ?case
  proof (cases "es i")
    case Nil
    then have "evict is s = Some s1" using Cons.prems(1) c by (simp add: nth_opt_def)
    then show ?thesis using Cons.IH Cons.prems(2) Nil by auto
  next
    case (Cons x xs)
    let ?dv = "sdev (stores s ! i)"
    have x: "bc_first (stores s ! i) = x" "x \<noteq> 0" "(i, x) \<in> entries es" using c Cons i by (auto simp: entries_def)
    have t: "type_of (stores s ! i) s = Some ty" "good ?dv" using cache_okD(5) [OF ok x(3)] by auto
    obtain r m d where w: "wr ty ?dv (bc_addr (bcs s x)) (bc_data (bcs s x)) (kmem s, devices s) = (r, m, d)" by (metis prod_cases3)
    have wb: "r = 1" "m = kmem s" "view d = (view (devices s))(place ?dv (bc_addr (bcs s x)) := words_at (bc_data (bcs s x)) 256 (kmem s))"
      using block_store.wr_block [OF store [OF t(2)] w] by auto
    obtain h where "s1 = upd_store i (\<lambda>st. st\<lparr>bc_first := bc_next (bcs s x)\<rparr>) (s\<lparr>kmem := kmem s, devices := d, kheap := h\<rparr>)"
      using Cons.prems(1) c(2) x t(1) w wb(1,2) by (auto simp: nth_opt_def Let_def bind_eq_Some_conv)
    then have "s1 = upd_store i (\<lambda>st. st\<lparr>bc_first := bc_next (bcs s x)\<rparr>) (s\<lparr>devices := d, kheap := h\<rparr>)" by simp
    then show ?thesis using i Cons wb(3) by blast
  qed
qed simp

lemma drop_refines:
  assumes ok: "cache_ok ty good place X s es" and n: "bc_cached_count s = MAX_CACHED_BLOCKS" and j: "j < MAX_STORES" and x: "es j = x # xs"
    and s1: "s1 = upd_store j (\<lambda>st. st\<lparr>bc_first := bc_next (bcs s x)\<rparr>) (s\<lparr>devices := d, kheap := h\<rparr>)"
    and d: "view d = (view (devices s))(place (sdev (stores s ! j)) (bc_addr (bcs s x)) := words_at (bc_data (bcs s x)) 256 (kmem s))"
    and inv: "cache_inv s1 es'"
  shows "cache_ok ty good place X s1 (es(j := xs)) \<and> (j, bc_addr (bcs s x)) \<in> residents s \<and>
    abstraction place view X s1 = (fst (abstraction place view X s), residents s - {(j, bc_addr (bcs s x))}, MAX_CACHED_BLOCKS)"
proof -
  let ?a = "bc_addr (bcs s x)" and ?es = "es(j := xs)"
  have ch: "chains s es" by (rule cache_okD(2) [OF ok])
  have jL: "j < length (stores s)" using ch j by (simp add: chains_def)
  have f: "bcs s1 = bcs s" "kmem s1 = kmem s" "devices s1 = d" "bc_cached_count s1 = MAX_CACHED_BLOCKS" "store_types s1 = store_types s"
      "stores s1 = (stores s)[j := (stores s ! j)\<lparr>bc_first := bc_next (bcs s x)\<rparr>]" using n by (simp_all add: s1)
  have sd: "sdev (stores s1 ! k) = sdev (stores s ! k)" "type_of (stores s1 ! k) s1 = type_of (stores s ! k) s" for k
    using jL unfolding type_of_def f(5,6) by (cases "k = j"; simp)+
  have e: "(j, x) \<in> entries es" and sub: "entries ?es \<subseteq> entries es" using j x by (auto simp: entries_def split: if_splits)
  have aX: "(j, ?a) \<in> X" using cache_okD(5) [OF ok e] by blast
  have c1: "chains s1 ?es" using ch j x by (auto simp: chains_def f nth_list_update)
  have dx: "?a \<notin> (\<lambda>y. bc_addr (bcs s y)) ` set xs" using cache_okD(6) [OF ok j] x by simp
  have lx: "lookup s es j ?a = Some x" by (simp add: lookup_def x)
  have "lookup s1 ?es j ?a = None" using dx by (simp add: lookup_None f)
  then have lk: "lookup s1 ?es k b = (if (k, b) = (j, ?a) then None else lookup s es k b)" for k b
    using x by (auto simp: lookup_def f)
  have bv: "block_view place view s1 (k, b) = block_view place view s (k, b)" if kb: "(k, b) \<in> X" for k b
  proof -
    have k: "k < MAX_STORES" using cache_okD(8) [OF ok] kb by auto
    have "place (sdev (stores s ! k)) b \<noteq> place (sdev (stores s ! j)) ?a" if "(k, b) \<noteq> (j, ?a)"
      using inj_onD [OF cache_okD(9) [OF ok], of "(k, b)" "(j, ?a)"] kb aX that by auto
    then show ?thesis unfolding block_view_lookup [OF ch k] block_view_lookup [OF c1 k] lk using lx
      by (auto simp: f(1-3) sd d split: option.splits)
  qed
  have "residents s1 = residents s - {(j, ?a)}" "(j, ?a) \<in> residents s"
    unfolding residents_lookup [OF ch] residents_lookup [OF c1] lk using j lx by auto
  then have "(j, ?a) \<in> residents s \<and> abstraction place view X s1 = (fst (abstraction place view X s), residents s - {(j, ?a)}, MAX_CACHED_BLOCKS)"
    using bv f(4) by (auto simp: abstraction_def)
  moreover have "cache_ok ty good place X s1 ?es"
  proof -
    have "distinct (map (\<lambda>y. bc_addr (bcs s1 y)) (?es k))" if "k < MAX_STORES" for k using cache_okD(6) [OF ok that] x by (auto simp: f)
    moreover have "buffer s1 (snd e) \<inter> buffer s1 (snd g) = {}" if "e \<in> entries ?es" "g \<in> entries ?es" "e \<noteq> g" for e g
      using that sub cache_okD(7) [OF ok, of "fst e" "snd e" "fst g" "snd g"] by (auto simp: buffer_def f)
    moreover have "cache_inv s1 ?es" by (rule cache_inv_chains [OF inv c1])
    moreover have "type_of (stores s1 ! k) s1 \<noteq> None \<and> (k, bc_addr (bcs s1 y)) \<in> X" if "(k, y) \<in> entries ?es" for k y
      using cache_okD(5) [OF ok, of k y] that sub sd f(1) by auto
    ultimately show ?thesis using cache_okD(4,8,9) [OF ok] unfolding cache_ok_def sd f(4) by auto
  qed
  ultimately show ?thesis by blast
qed

lemma get_full:
  assumes ok: "cache_ok ty good place X s es" and i: "get_store_by_id sid = Some i" and miss: "lookup s es i a = None"
    and n: "bc_cached_count s = MAX_CACHED_BLOCKS" and g: "bc_get sid a s = Some (r, b, s1)"
  shows "r = 0 \<and> b = None \<and> (\<exists>es1 K. cache_ok ty good place X s1 es1 \<and> abstraction place view X s1 = (fst (abstraction place view X s), K, MAX_CACHED_BLOCKS) \<and>
    K \<subseteq> residents s \<and> (if residents s = {} then K = {} else card (residents s - K) = 1))"
proof -
  have iM: "i < MAX_STORES" using i by (auto simp: get_store_by_id_def split: if_splits)
  have ch: "chains s es" by (rule cache_okD(2) [OF ok])
  then have "i < length (stores s)" using iM by (simp add: chains_def)
  then have rb: "r = 0" "b = None" "evict [0..<MAX_STORES] s = Some s1"
    using g i n search_lookup(1) [OF ch iM, of a] miss by (auto simp: bc_get_def nth_opt_def bind_eq_Some_conv)
  have res: "residents s = {(i, a). i < MAX_STORES \<and> lookup s es i a \<noteq> None}" by (rule residents_lookup [OF ch])
  from evict_one [OF ok rb(3)] consider "s1 = s" "\<forall>i < MAX_STORES. es i = []"
    | j x xs d h where "j < MAX_STORES" "es j = x # xs" "s1 = upd_store j (\<lambda>st. st\<lparr>bc_first := bc_next (bcs s x)\<rparr>) (s\<lparr>devices := d, kheap := h\<rparr>)"
      "view d = (view (devices s))(place (sdev (stores s ! j)) (bc_addr (bcs s x)) := words_at (bc_data (bcs s x)) 256 (kmem s))"
    by (auto simp: atLeast0LessThan)
  then show ?thesis
  proof cases
    case 1
    then have "residents s = {}" by (auto simp: res lookup_None)
    then show ?thesis using 1(1) ok n rb by (auto simp: abstraction_def)
  next
    case 2
    obtain es' where "cache_inv s1 es'" using bc_get_inv [OF cache_okD(1) [OF ok] g] by blast
    note dr = drop_refines [OF ok n 2 this]
    then have "residents s - (residents s - {(j, bc_addr (bcs s x))}) = {(j, bc_addr (bcs s x))}" by blast
    then have "card (residents s - (residents s - {(j, bc_addr (bcs s x))})) = 1" by simp
    then show ?thesis using dr rb(1,2) by (metis Diff_subset empty_iff)
  qed
qed

lemma get_refines:
  assumes ok: "cache_ok ty good place X s es" and X: "\<And>i. get_store_by_id sid = Some i \<Longrightarrow> (i, a) \<in> X" and g: "bc_get sid a s = Some (r, b, s1)"
  shows "\<exists>es1. cache_ok ty good place X s1 es1 \<and> access sid a (given r b \<noteq> None) (abstraction place view X s) (abstraction place view X s1) \<and>
    (\<forall>p. given r b = Some p \<longrightarrow> (\<exists>i x. get_store_by_id sid = Some i \<and> lookup s1 es1 i a = Some x \<and> bc_data (bcs s1 x) = p))"
proof (cases "get_store_by_id sid")
  case None
  then have "r = 0" "b = None" "s1 = s" using g by (simp_all add: bc_get_def)
  then show ?thesis using ok None by (auto simp: given_def intro: access.no_store)
next
  case (Some i)
  have iM: "i < MAX_STORES" using Some by (auto simp: get_store_by_id_def split: if_splits)
  have ch: "chains s es" by (rule cache_okD(2) [OF ok])
  have abs: "abstraction place view X s = (fst (abstraction place view X s), residents s, bc_cached_count s)" by (simp add: abstraction_def)
  have res: "(i, a) \<in> residents s \<longleftrightarrow> lookup s es i a \<noteq> None" using iM by (simp add: residents_lookup [OF ch])
  show ?thesis
  proof (cases "lookup s es i a")
    case (Some x)
    then have "r = 1" "b = Some (bc_data (bcs s x))" "s1 = s" using get_hit [OF ok \<open>get_store_by_id sid = Some i\<close> Some] g by auto
    moreover have "access sid a True (abstraction place view X s) (abstraction place view X s)"
      using \<open>get_store_by_id sid = Some i\<close> Some res by (subst (1 2) abs) (auto intro!: access.hit)
    ultimately show ?thesis using ok \<open>get_store_by_id sid = Some i\<close> Some by (auto simp: given_def)
  next
    case None
    show ?thesis
    proof (cases "bc_cached_count s = MAX_CACHED_BLOCKS")
      case True
      from get_full [OF ok Some None True g] obtain es1 K where f: "r = 0" "b = None" "cache_ok ty good place X s1 es1"
          "abstraction place view X s1 = (fst (abstraction place view X s), K, MAX_CACHED_BLOCKS)" "K \<subseteq> residents s"
          "if residents s = {} then K = {} else card (residents s - K) = 1" by blast
      have "access sid a False (abstraction place view X s) (abstraction place view X s1)"
        unfolding f(4) using Some None res f(5,6) True by (subst abs) (auto intro!: access.full)
      then show ?thesis using f(1,2,3) by (auto simp: given_def)
    next
      case False
      obtain p where p: "b = Some p" using bc_get_gives [OF cache_okD(1) [OF ok] Some False g] by blast
      from get_load [OF ok Some X [OF Some] None g [unfolded p]] obtain es1 x where f: "r = 1" "bc_cached_count s < MAX_CACHED_BLOCKS"
          "cache_ok ty good place X s1 es1" "lookup s1 es1 i a = Some x" "bc_data (bcs s1 x) = p"
          "abstraction place view X s1 = (fst (abstraction place view X s), insert (i, a) (residents s), bc_cached_count s + 1)" by blast
      have "access sid a True (abstraction place view X s) (abstraction place view X s1)"
        unfolding f(6) using Some None res f(2) by (subst abs) (auto intro!: access.load)
      then show ?thesis using f p Some by (auto simp: given_def)
    qed
  qed
qed

text \<open>What the accesses of a client have in common: a buffer that is given is that of the block.\<close>

lemma get_buffer:
  assumes ok: "cache_ok ty good place X s es" and c: "call_ok X c" "target c = (sid, a)" and g: "bc_get sid a s = Some (r, b, s1)"
  obtains es1 C K n where "cache_ok ty good place X s1 es1" and "abstraction place view X s1 = (C, K, n)"
    and "access sid a (given r b \<noteq> None) (abstraction place view X s) (C, K, n)"
    and "\<And>p. given r b = Some p \<Longrightarrow> nat sid < MAX_STORES \<and> C (nat sid, a) = words_at p 256 (kmem s1) \<and>
      (\<exists>x. lookup s1 es1 (nat sid) a = Some x \<and> bc_data (bcs s1 x) = p)"
proof -
  have X: "get_store_by_id sid = Some i \<Longrightarrow> (i, a) \<in> X" for i using c by (simp add: call_ok_def)
  obtain es1 where e: "cache_ok ty good place X s1 es1" "access sid a (given r b \<noteq> None) (abstraction place view X s) (abstraction place view X s1)"
      "\<And>p. given r b = Some p \<Longrightarrow> (\<exists>i x. get_store_by_id sid = Some i \<and> lookup s1 es1 i a = Some x \<and> bc_data (bcs s1 x) = p)"
    using get_refines [OF ok X g] by blast
  obtain C K n where C: "abstraction place view X s1 = (C, K, n)" by (metis prod_cases3)
  have "nat sid < MAX_STORES \<and> C (nat sid, a) = words_at p 256 (kmem s1) \<and> (\<exists>x. lookup s1 es1 (nat sid) a = Some x \<and> bc_data (bcs s1 x) = p)"
    if p: "given r b = Some p" for p
  proof -
    obtain i x where x: "get_store_by_id sid = Some i" "lookup s1 es1 i a = Some x" "bc_data (bcs s1 x) = p" using e(3) [OF p] by blast
    have iM: "i < MAX_STORES" "i = nat sid" using x(1) by (auto simp: get_store_by_id_def split: if_splits)
    have "C (i, a) = block_view place view s1 (i, a)" using C X [OF x(1)] by (auto simp: abstraction_def)
    also have "\<dots> = words_at p 256 (kmem s1)" using x(2,3) block_view_lookup [OF cache_okD(2) [OF e(1)] iM(1), of place view a] by simp
    finally show ?thesis using iM x(2,3) by auto
  qed
  then show thesis using e(1,2) C that [of es1 C K n] by simp
qed

lemma step_refines:
  assumes ok: "cache_ok ty good place X s es" and c: "call_ok X c" and st: "client_step c s = Some (out, s1)"
  shows "(\<exists>es1. cache_ok ty good place X s1 es1) \<and> array_step c out (abstraction place view X s) (abstraction place view X s1)"
proof (cases c)
  case (Read sid a)
  then obtain r b where g: "bc_get sid a s = Some (r, b, s1)"
      "out = (case given r b of None \<Rightarrow> Refused | Some p \<Rightarrow> Block (words_at p 256 (kmem s1)))"
    using st by (auto simp: bind_eq_Some_conv split: option.splits)
  show ?thesis using Read g(2) by (rule_tac get_buffer [OF ok c _ g(1)]) (auto intro: array_step.read_refused dest: array_step.read split: option.splits)
next
  case (Update sid a k w)
  then obtain r b s' where g: "bc_get sid a s = Some (r, b, s')"
      "(out, s1) = (case given r b of None \<Rightarrow> (Refused, s') | Some p \<Rightarrow> (Done, s'\<lparr>kmem := store16 (p + 2 * of_nat k) w (kmem s')\<rparr>))"
    using st by (auto simp: bind_eq_Some_conv)
  have k: "k < 256" using c Update by (simp add: call_ok_def)
  obtain es1 C K n where e: "cache_ok ty good place X s' es1" "abstraction place view X s' = (C, K, n)"
      "access sid a (given r b \<noteq> None) (abstraction place view X s) (C, K, n)"
      "\<And>p. given r b = Some p \<Longrightarrow> nat sid < MAX_STORES \<and> C (nat sid, a) = words_at p 256 (kmem s') \<and> (\<exists>x. lookup s' es1 (nat sid) a = Some x \<and> bc_data (bcs s' x) = p)"
    by (rule get_buffer [OF ok c _ g(1)]) (simp add: Update, rule that)
  show ?thesis
  proof (cases "given r b")
    case None
    then show ?thesis using e g(2) Update by (auto intro: array_step.update_refused)
  next
    case (Some p)
    obtain x where x: "nat sid < MAX_STORES" "lookup s' es1 (nat sid) a = Some x" "bc_data (bcs s' x) = p" using e(4) [OF Some] by blast
    have s1: "out = Done" "s1 = s'\<lparr>kmem := store16 (bc_data (bcs s' x) + 2 * of_nat k) w (kmem s')\<rparr>" using g(2) Some x(3) by simp_all
    have "access sid a True (abstraction place view X s) (C, K, n)" using e(3) Some by simp
    from array_step.update [OF this, of k w] show ?thesis using update_refines [OF e(1) x(1,2) k e(2) s1(2)] s1(1) Update by auto
  qed
next
  case (Flush sid a)
  show ?thesis
  proof (cases "get_store_by_id sid")
    case None
    then show ?thesis using st Flush ok by (auto simp: bc_put_def intro: array_step.flush_refused)
  next
    case (Some i)
    then have "(i, a) \<in> X" using c Flush by (simp add: call_ok_def)
    then obtain s' where p: "bc_put sid a s = Some (1, s')" "cache_ok ty good place X s' es" "abstraction place view X s' = abstraction place view X s"
      using put_refines [OF ok Some] by blast
    then have "out = Done" "s1 = s'" using st Flush by simp_all
    then show ?thesis using p(2,3) Flush array_step.flush [OF Some] by auto
  qed
qed

lemma run_refines:
  "client_run ops s = Some (outs, s1) \<Longrightarrow> cache_ok ty good place X s es \<Longrightarrow> \<forall>c \<in> set ops. call_ok X c \<Longrightarrow>
    (\<exists>es1. cache_ok ty good place X s1 es1) \<and> array_run ops outs (abstraction place view X s) (abstraction place view X s1)"
proof (induction ops arbitrary: s es outs)
  case Nil
  then show ?case by (auto intro: array_run_Nil)
next
  case (Cons c ops)
  then obtain x s' xs where r: "client_step c s = Some (x, s')" "client_run ops s' = Some (xs, s1)" "outs = x # xs"
    by (auto simp: bind_eq_Some_conv)
  have c: "call_ok X c" "\<forall>c \<in> set ops. call_ok X c" using Cons.prems(3) by auto
  obtain es' where e: "cache_ok ty good place X s' es'" "array_step c x (abstraction place view X s) (abstraction place view X s')"
    using step_refines [OF Cons.prems(2) c(1) r(1)] by blast
  show ?case using Cons.IH [OF r(2) e(1) c(2)] array_run_Cons [OF e(2)] r(3) by blast
qed

end

text \<open>Any disk behind \<^verbatim>\<open>ata.c\<close>, with one view for all of the stores.\<close>

interpretation ac: disk_cache "ata_store_type B" "\<lambda>dv. ata_disk B dv v" sector_place "\<lambda>d. sectors (v d)" for B and v :: "'d \<Rightarrow> disk"
  by (rule disk_cache.intro) (rule ata_block_store, simp_all add: ata_store_type_def)

section \<open>The property\<close>

text \<open>
  C9: The cache refines an array of blocks. Over any sequence of reads, updates and flushes of clients, on disks and blocks that have different
  sectors, calls that return behave as the array does: a read gives the content that the block had on the disk at first, with all updates made to it since, whatever
  was loaded, written back or evicted in between; an update changes one word of one block; a request is refused exactly when the store does not exist, or the block is not
  resident and two blocks were loaded already, and then a resident block is given up. The invariant is kept.
\<close>

theorem cache_refines_block_array:
  assumes "cache_ok (ata_store_type B) (\<lambda>dv. ata_disk B dv v) sector_place X s es" and "\<forall>c \<in> set ops. call_ok X c" and "client_run ops s = Some (outs, s1)"
  shows "array_run ops outs (abstraction sector_place (\<lambda>d. sectors (v d)) X s) (abstraction sector_place (\<lambda>d. sectors (v d)) X s1) \<and>
    (\<exists>es1. cache_ok (ata_store_type B) (\<lambda>dv. ata_disk B dv v) sector_place X s1 es1)"
  using ac.run_refines [OF assms(3,1,2)] by blast

subsection \<open>A run\<close>

text \<open>A heap of one page: one block is taken, one of each size is free.\<close>

definition split_page :: buddy_allocator where
  "split_page = \<lparr>min_order = 5, max_order = 12, bsize = 4096, memory_start = 0x1000,
    order_lists = (replicate 32 0)[1 := 0x1000, 2 := 0x1080, 3 := 0x1100, 4 := 0x1200, 5 := 0x1400, 6 := 0x1800],
    bheap = (\<lambda>_. \<lparr>order = 6, taken = 0, bnext = 0, bprev = 0\<rparr>)(0x1040 := \<lparr>order = 6, taken = 1, bnext = 0, bprev = 0\<rparr>,
      0x1080 := \<lparr>order = 7, taken = 0, bnext = 0, bprev = 0\<rparr>, 0x1100 := \<lparr>order = 8, taken = 0, bnext = 0, bprev = 0\<rparr>,
      0x1200 := \<lparr>order = 9, taken = 0, bnext = 0, bprev = 0\<rparr>, 0x1400 := \<lparr>order = 10, taken = 0, bnext = 0, bprev = 0\<rparr>,
      0x1800 := \<lparr>order = 11, taken = 0, bnext = 0, bprev = 0\<rparr>)\<rparr>"

definition split_lists :: "nat \<Rightarrow> u64 list" where
  "split_lists = (\<lambda>_. [])(1 := [0x1000], 2 := [0x1080], 3 := [0x1100], 4 := [0x1200], 5 := [0x1400], 6 := [0x1800])"

lemma split_free: "free_blocks split_page split_lists = {(0x1000, 6), (0x1080, 7), (0x1100, 8), (0x1200, 9), (0x1400, 10), (0x1800, 11)}"
  (is "?L = ?R")
proof
  have "(x, i) \<in> {(0x1000, 1), (0x1080, 2), (0x1100, 3), (0x1200, 4), (0x1400, 5), (0x1800, 6)}" if "x \<in> set (split_lists i)" for x i
    using that by (auto simp: split_lists_def split: if_splits)
  then show "?L \<subseteq> ?R" by (fastforce simp: free_blocks_def split_page_def)
  show "?R \<subseteq> ?L" by (simp add: free_blocks_iff split_page_def split_lists_def BUDDY_NUM_LISTS_def)
qed

lemma split_page_ok: "heap_ok split_page split_lists {(0x1040, 6)}"
proof -
  have "lists_ok split_page split_lists"
    by (auto simp: lists_ok_def split_page_def split_lists_def dll_Cons field_defs BUDDY_NUM_LISTS_def nth_list_update)
  moreover have "tiling split_page (free_blocks split_page split_lists \<union> {(0x1040, 6)})"
    unfolding split_free tiling_def by (intro conjI) (auto simp: blk_range_def split_page_def)
  ultimately show ?thesis
    by (simp add: heap_ok_def params_ok_def taken_ok_def split_page_def field_defs BUDDY_NUM_LISTS_def)
qed

definition cache_kernel :: "disk skernel" where
  "cache_kernel = disk_kernel (ata_store_type demo_disk_bus) 0 two_blocks 0 split_page"

lemma cache_kernel_ok:
  "cache_ok (ata_store_type demo_disk_bus) (\<lambda>dv. ata_disk demo_disk_bus dv demo_view) sector_place {(0, 3), (0, 5)} cache_kernel (\<lambda>_. [])"
proof -
  have "room_inv cache_kernel (\<lambda>_. [])" using split_page_ok
    by (auto simp: cache_kernel_def room_inv_def sizeof_bc_entry_def ata_store_type_def) (auto simp: split_page_def)
  moreover have "chains cache_kernel (\<lambda>_. [])" by (auto simp: cache_kernel_def chains_def MAX_STORES_def nth_Cons')
  ultimately have "cache_inv cache_kernel (\<lambda>_. [])" by (simp add: cache_kernel_def cache_inv_def MAX_CACHED_BLOCKS_def)
  moreover have "heap_holds cache_kernel (\<lambda>_. [])" using split_page_ok by (auto simp: cache_kernel_def heap_holds_def entries_def)
  moreover have "t = ata_store_type demo_disk_bus \<and> ata_disk demo_disk_bus (sdev (stores cache_kernel ! i)) demo_view"
    if "i < MAX_STORES" "type_of (stores cache_kernel ! i) cache_kernel = Some t" for i t
    using that demo_is_disk by (auto simp: cache_kernel_def type_of_def nth_Cons' MAX_STORES_def bind_eq_Some_conv deref_Some split: if_splits)
  moreover have "inj_on (\<lambda>(i, a). sector_place (sdev (stores cache_kernel ! i)) a) {(0, 3), (0, 5)}"
    by (auto simp: inj_on_def sector_place_def)
  ultimately show ?thesis by (auto simp: cache_ok_def entries_def MAX_STORES_def)
qed

lemma cache_kernel_loads: "\<exists>r p s1. bc_get 0 3 cache_kernel = Some (r, Some p, s1)"
proof -
  let ?h = "upd_block 0x1000 (\<lambda>b. b\<lparr>taken := 1\<rparr>) (split_page\<lparr>order_lists := (order_lists split_page)[1 := 0]\<rparr>)"
  have "kalloc 32 split_page = Some (0x1018, ?h)" using kalloc_only_block [of 6 32 split_page "0x1000"] by (simp add: split_page_def)
  moreover have "\<exists>h2. kalloc 512 ?h = Some (0x1418, h2)"
    using kalloc_only_block [of 10 512 ?h "0x1400"] by (simp add: split_page_def upd_block_def)
  moreover have "bc_search two_blocks 3 0 = Some 0" by (simp add: bc_search.simps)
  ultimately show ?thesis by (auto simp: cache_kernel_def bc_get_def get_store_by_id_def MAX_STORES_def nth_opt_def MAX_CACHED_BLOCKS_def sizeof_bc_entry_def
      type_of_def ata_store_type_def Let_def case_prod_beta)
qed

lemma cache_kernel_run:
  "\<exists>ws s'. client_run [Update 0 3 1 7, Read 0 3, Flush 0 3] cache_kernel = Some ([Done, Block ws, Done], s')"
proof -
  let ?X = "{(0, 3), (0, 5)} :: (nat \<times> u64) set" and ?ok = "cache_ok (ata_store_type demo_disk_bus) (\<lambda>dv. ata_disk demo_disk_bus dv demo_view) sector_place"
  have id: "get_store_by_id 0 = Some 0" by (simp add: get_store_by_id_def MAX_STORES_def)
  have miss: "lookup cache_kernel (\<lambda>_. []) 0 3 = None" by (simp add: lookup_def)
  obtain r p s1 where g: "bc_get 0 3 cache_kernel = Some (r, Some p, s1)" using cache_kernel_loads by blast
  obtain es x where x: "r = 1" "?ok ?X s1 es" "lookup s1 es 0 3 = Some x" "bc_data (bcs s1 x) = p"
    using ac.get_load [OF cache_kernel_ok id _ miss g] by auto
  let ?s2 = "s1\<lparr>kmem := store16 (p + 2 * of_nat 1) 7 (kmem s1)\<rparr>"
  have ok2: "?ok ?X ?s2 es" by (rule cache_ok_frame(1) [THEN iffD2, OF _ _ _ _ _ x(2)]) simp_all
  have "lookup ?s2 es 0 3 = Some x" using x(3) by (simp add: lookup_def)
  from ac.get_hit [OF ok2 id this] have "bc_get 0 3 ?s2 = Some (1, Some p, ?s2)" using x(4) by simp
  moreover obtain s3 where "bc_put 0 3 ?s2 = Some (1, s3)" using ac.put_refines [OF ok2 id] by blast
  ultimately show ?thesis using g x(1) by (simp add: given_def)
qed

inductive_simps array_run_Cons_iff: "array_run (c # ops) outs A A'"
inductive_simps array_update_iff: "array_step (Update sid a k w) Done A A'"
inductive_simps array_read_iff: "array_step (Read sid a) (Block ws) A A'"
inductive_simps access_iff: "access sid a True A A'"

text \<open>A changed word is read again; what is changed is the sector's content.\<close>

lemma array_update_read:
  assumes "array_run [Update sid a k w, Read sid a, Flush sid a] [Done, Block ws, Done] A A'"
  shows "ws = (fst A (nat sid, a))[k := w]"
  using assms by (auto simp: array_run_Cons_iff array_update_iff array_read_iff access_iff)

theorem cache_refines_block_array_witness:
  "\<exists>ws s'. client_run [Update 0 3 1 7, Read 0 3, Flush 0 3] cache_kernel = Some ([Done, Block ws, Done], s') \<and> ws = (replicate 256 3)[1 := 7]"
proof -
  obtain ws s' where r: "client_run [Update 0 3 1 7, Read 0 3, Flush 0 3] cache_kernel = Some ([Done, Block ws, Done], s')" using cache_kernel_run by blast
  have "array_run [Update 0 3 1 7, Read 0 3, Flush 0 3] [Done, Block ws, Done] (abstraction sector_place (\<lambda>d. sectors (demo_view d)) {(0, 3), (0, 5)} cache_kernel)
      (abstraction sector_place (\<lambda>d. sectors (demo_view d)) {(0, 3), (0, 5)} s')"
    using cache_refines_block_array [OF cache_kernel_ok _ r] by (simp add: call_ok_def get_store_by_id_def MAX_STORES_def)
  from array_update_read [OF this] have "ws = (block_view sector_place (\<lambda>d. sectors (demo_view d)) cache_kernel (0, 3))[1 := 7]"
    by (simp add: abstraction_def)
  also have "block_view sector_place (\<lambda>d. sectors (demo_view d)) cache_kernel (0, 3) = replicate 256 3"
    by (simp add: block_view_def cache_kernel_def bc_search.simps sector_place_def demo_disk_def pad_def)
  finally show ?thesis using r by blast
qed

end
