(* ===== verification/Spec2Isabelle.thy ===== *)
theory Spec2Isabelle
  imports FirstProcess Boot Canonical PathTest CacheSpec
begin

text \<open>
  A verification library for the Fors kernel (\<^verbatim>\<open>src/kernel\<close>), a small x86-64 kernel in C with a physical and a
  virtual memory manager, a heap, processes under a round-robin scheduler, a virtual file system with two file systems, a block
  cache over a disk driver, and system calls through a software interrupt.

  \<^bold>\<open>How the parts fit together.\<close> \<^verbatim>\<open>_start\<close> (\<^verbatim>\<open>generic/main.c\<close>) fills the page-frame pool from the boot loader's memory
  map, maps one page for the kernel heap, loads the descriptor tables, registers the disk, mounts the file systems, creates the first
  process and starts the timer. From then on everything happens in \<open>interrupt_dispatch\<close> (\<^verbatim>\<open>arch/x64/int/idt.c\<close>):
  a timer interrupt calls the registered callbacks, one of which takes the next process from the run queue, and
  switches register contexts; interrupt 0xf0 is a system call, which works on the descriptor table of the current
  process and on the virtual file system below it.

  \<^bold>\<open>Conventions\<close> (theory \<open>Prelude\<close>). Machine integers are words of their width, so that wrap-around is the
  code's (where C leaves a signed overflow undefined, the model wraps and the theorems state the bounds under which there is none); a C \<^verbatim>\<open>int\<close> that
  can not overflow is an \<open>int\<close>. A pointer is a 64-bit address with 0 for NULL, or, into one of the
  kernel's fixed arrays, the optional index of the element. State is passed explicitly in records: \<open>kproc\<close> (frames,
  byte memory, process table), extended by \<open>kernel\<close> (file system tables, heap), extended by \<open>skernel\<close> (stores and cache).
  A function that may not return, because of a panic, a NULL or wild access, a division by zero or an
  endless loop, has an \<open>option\<close> result with \<open>None\<close> for that; error codes are ordinary results. Hardware is a
  parameter: a \<open>bus\<close> of port operations on an abstract device state.

  \<^bold>\<open>Theories, sources and what is shown.\<close>

  \<^item> \<open>Prelude\<close>: words, array accesses, the slot loop. Locale \<open>slot_table\<close> is the contract of every first-free-slot search
    (process, node, link and descriptor tables interpret it).
  \<^item> \<open>DList\<close>: doubly linked lists seen through their link fields; shared by the frame pool and the heap.
  \<^item> \<open>Sched\<close> (\<^verbatim>\<open>generic/proc/thread.c\<close>): the ring buffer of the scheduler refines a bounded first-in-first-out list
    (locale \<open>proc_queue\<close>).
  \<^item> \<open>Timer\<close> (\<^verbatim>\<open>generic/timer.c\<close>): which callbacks run at which tick, and how often each of them over any number of ticks.
  \<^item> \<open>Frames\<close> (\<^verbatim>\<open>arch/x64/memory/phys.c\<close>): the pool is a sorted list of frames; no frame is lost, duplicated or handed
    out twice over any sequence of calls, as long as no call gives back a run of more than \<open>2 ^ 20\<close> frames (where a 32-bit product
    wraps); runs of frames are found exactly when there are any; which frames of the memory map boot puts into the pool, for regions of any length (locale \<open>frame_pool\<close>).
  \<^item> \<open>CString\<close> (\<^verbatim>\<open>generic/forslib/string.c\<close>): the string library over byte memory.
  \<^item> \<open>Buddy\<close> (\<^verbatim>\<open>generic/heap\<close>): \<open>heap_ok\<close> says that free and allocated blocks tile the heap; \<open>balloc\<close> returns a
    fresh block of the least sufficient order exactly when there is one; \<open>bfree\<close> is right without a merge, and corrupts the free lists when it merges.
  \<^item> \<open>Paging\<close> (\<^verbatim>\<open>arch/x64/memory/virt.c\<close>, \<^verbatim>\<open>api.c\<close>): the page tables form a tree; \<open>map_page_4k\<close> changes the translation of one
    page only.
  \<^item> \<open>Process\<close> (\<^verbatim>\<open>arch/x64/thread/process.c\<close>): process creation and preemption.
  \<^item> \<open>Vfs\<close> (\<^verbatim>\<open>generic/fs/vfs.c\<close>, \<^verbatim>\<open>fsops.c\<close>): nodes, links, open files and path lookup. Locale \<open>fs_contract\<close> is what
    a file system promises; under it reference counts are exact and a successful open has passed every permission check.
  \<^item> \<open>TestFs\<close> (\<^verbatim>\<open>generic/fs/test.c\<close>): the test file system keeps the contract; the properties of the virtual file system over it.
  \<^item> \<open>PathWalk\<close>: path lookup in memory terminates and agrees with a walk over the list of the path's fields in the directory tree.
  \<^item> \<open>PathTest\<close> (\<^verbatim>\<open>test/fs.c\<close>): the host program that tries the loop prints exactly the names the kernel's walk looks up.
  \<^item> \<open>Syscall\<close> (\<^verbatim>\<open>generic/fs/sys.c\<close>, \<^verbatim>\<open>generic/syscall.c\<close>): descriptors of processes stand for distinct open files, over any
    sequence of calls (relation \<open>sys_reach\<close>).
  \<^item> \<open>Printk\<close> (\<^verbatim>\<open>generic/printk.c\<close>): the format parser reads back what a conversion is written as; the output of every conversion against a
    reference.
  \<^item> \<open>Hardware\<close> (\<^verbatim>\<open>io.c\<close>, \<^verbatim>\<open>pic.c\<close>, \<^verbatim>\<open>uart.c\<close>): port operations, interrupt masks, the serial port.
  \<^item> \<open>Descriptors\<close> (\<^verbatim>\<open>gdt.c\<close>, \<open>idt_init\<close>, \<^verbatim>\<open>cpu.h\<close>): the tables decode, the way the processor reads them, to the segments and gates that
    were meant.
  \<^item> \<open>Interrupt\<close> (\<^verbatim>\<open>arch/x64/int/idt.c\<close>): a process preempted in user mode resumes with exactly its registers.
  \<^item> \<open>FirstProcess\<close> (\<open>task1\<close> of \<^verbatim>\<open>generic/main.c\<close>): the three system calls of the first program, from the interrupt down to the test
    file system and the heap and back to the console, print the contents of \<^verbatim>\<open>test.txt\<close>.
  \<^item> \<open>Ata\<close> (\<^verbatim>\<open>arch/x64/ata.c\<close>): the driver against a disk (\<open>ata_disk\<close> states the documented behaviour of its registers, with data transfer only while DRQ is shown); reading, writing,
    timeouts.
  \<^item> \<open>Store\<close> (\<^verbatim>\<open>generic/store.c\<close>): the block cache. Locale \<open>block_store\<close> is the interface of a store type, which a disk behind \<open>Ata\<close> implements;
    the cache invariant; loading and writing back; that a full cache never loads again.
  \<^item> \<open>CacheSpec\<close>: what clients of the cache see is an array of blocks (simulation of the relations \<open>array_step\<close> and \<open>array_run\<close>), through loading, writing
    back and eviction. Locale \<open>disk_cache\<close> holds for all devices with the contract \<open>block_store\<close>, and is interpreted for disks behind \<open>Ata\<close>.
  \<^item> \<open>Ext2\<close> (\<^verbatim>\<open>generic/fs/ext2.c\<close>): mounting reads the superblock; the place computed for an inode is exact, but relative to the
    first sector of its block; an inode outside of the two cached sectors can not be read; nodes stay free.
  \<^item> \<open>Boot\<close> (\<^verbatim>\<open>arch/x64/init.c\<close>, \<^verbatim>\<open>memory/init.c\<close>, \<^verbatim>\<open>generic/main.c\<close>): the composition at start-up: heap and page tables after
    \<open>memory_initialise\<close>, the first process after \<^verbatim>\<open>_start\<close>.
  \<^item> \<open>Canonical\<close> (\<^verbatim>\<open>test/canonical.c\<close>): the path format and its normal form.

  \<^bold>\<open>Loops.\<close> Loops over a list, an array or a counter are structural recursions. Loops through links in memory are
  \<open>partial_function (option)\<close>; that they return is part of the theorems about them (\<open>frames_ok\<close>, \<open>chain\<close> and \<open>cstr\<close> give the length of the
  path). The merge loop of \<open>bfree\<close> has fuel for one round per order, which suffices because every round raises the
  order of the block. Polling loops have the source's own bound of a million rounds.

  \<^bold>\<open>Abstractions.\<close> Page frames are seen as 64-bit words (\<open>pmem\<close>), strings and buffers as bytes (\<open>kmem\<close>), block headers of the heap and
  cache entries as records by address; these views are separate maps, so that aliasing between, say, a heap block and a page table
  is outside of the model. \<open>Interrupt\<close> works on the kernel without stores, as no interrupt handler uses them except
  through a mounted ext2 node. Messages of \<open>printk\<close> are output of \<open>Interrupt\<close> only and are left out elsewhere.

  \<^bold>\<open>Not modelled.\<close> The assembly stubs (interrupt entry, \<^verbatim>\<open>lgdt\<close>, \<^verbatim>\<open>ltr\<close>, \<^verbatim>\<open>lidt\<close>), whose effect is an argument or a result here; the
  declarations of the boot protocol in \<^verbatim>\<open>limine.h\<close> apart from what the kernel reads;
  \<^verbatim>\<open>acpi.c\<close>, which is empty; \<open>update_cons\<close> of \<^verbatim>\<open>phys.c\<close>, which is never called and changes nothing; concurrency between
  an interrupt and the kernel code it interrupts, apart from the register contexts.
\<close>

end
